(* ===== verification/Prelude.thy ===== *)
theory Prelude
  imports Main "HOL-Library.Word" "HOL-Library.AList"
begin

text \<open>
  Shared vocabulary of the development: machine integer types, the outcome of a C++
  operation (a value, a thrown exception, or a fault from which the process does not
  recover), the association-list model of \<open>std::unordered_map\<close> and its contract as the
  locale \<open>dictionary\<close>, and string helpers for \<open>std::string\<close> operations.
\<close>

section \<open>Machine integers\<close>

type_synonym u8 = "8 word"
type_synonym i16 = "16 word"
type_synonym i32 = "32 word"
type_synonym u32 = "32 word"
type_synonym i64 = "64 word"
type_synonym u64 = "64 word"

lemma unat_of_nat_u32 [simp]: "n < 2 ^ 32 \<Longrightarrow> unat (of_nat n :: u32) = n"
  by (simp add: unat_of_nat)

section \<open>Outcomes of C++ operations\<close>

named_theorems outcome_simps
named_theorems wf_intros

text \<open>
  \<open>Throw e\<close> is a C++ exception in flight, which a handler may catch.
  \<open>Fault\<close> is the end of the defined behaviour: \<open>std::terminate\<close> after an exception left a
  \<open>noexcept\<close> function, or undefined behaviour (a null or past-the-end dereference).
\<close>

datatype 'e fault = Terminate 'e | Undefined string

datatype ('a, 'e) outcome = Ok 'a | Throw 'e | Fault "'e fault"

fun and_then :: "('a, 'e) outcome \<Rightarrow> ('a \<Rightarrow> ('b, 'e) outcome) \<Rightarrow> ('b, 'e) outcome" where
  "and_then (Ok x) f = f x"
| "and_then (Throw e) f = Throw e"
| "and_then (Fault e) f = Fault e"

text \<open>A \<open>noexcept\<close> function: an exception that reaches its boundary terminates the process.\<close>

fun noexcept :: "('a, 'e) outcome \<Rightarrow> ('a, 'e) outcome" where
  "noexcept (Ok x) = Ok x"
| "noexcept (Throw e) = Fault (Terminate e)"
| "noexcept (Fault e) = Fault e"

text \<open>\<open>try m catch (P e) h\<close>: the handler \<open>h\<close> sees exactly the exceptions that match.\<close>

fun catch_if :: "('e \<Rightarrow> bool) \<Rightarrow> ('e \<Rightarrow> ('a, 'e) outcome) \<Rightarrow> ('a, 'e) outcome \<Rightarrow> ('a, 'e) outcome" where
  "catch_if P h (Ok x) = Ok x"
| "catch_if P h (Throw e) = (if P e then h e else Throw e)"
| "catch_if P h (Fault e) = Fault e"

fun map_outcome_list :: "('a \<Rightarrow> ('b, 'e) outcome) \<Rightarrow> 'a list \<Rightarrow> ('b list, 'e) outcome" where
  "map_outcome_list f [] = Ok []"
| "map_outcome_list f (x # xs) =
     and_then (f x) (\<lambda>y. and_then (map_outcome_list f xs) (\<lambda>ys. Ok (y # ys)))"

lemma and_then_Ok_iff [outcome_simps]:
  "and_then m f = Ok y \<longleftrightarrow> (\<exists>x. m = Ok x \<and> f x = Ok y)"
  by (cases m) auto

lemma and_then_Throw_iff [outcome_simps]:
  "and_then m f = Throw e \<longleftrightarrow> m = Throw e \<or> (\<exists>x. m = Ok x \<and> f x = Throw e)"
  by (cases m) auto

lemma and_then_Fault_iff [outcome_simps]:
  "and_then m f = Fault e \<longleftrightarrow> m = Fault e \<or> (\<exists>x. m = Ok x \<and> f x = Fault e)"
  by (cases m) auto

lemma noexcept_Ok_iff [outcome_simps]: "noexcept m = Ok x \<longleftrightarrow> m = Ok x"
  by (cases m) auto

lemma noexcept_not_Throw [simp]: "noexcept m \<noteq> Throw e"
  by (cases m) auto

lemma and_then_assoc [simp]:
  "and_then (and_then m f) g = and_then m (\<lambda>x. and_then (f x) g)"
  by (cases m) auto

lemma and_then_cong: "(\<And>x. m = Ok x \<Longrightarrow> f x = g x) \<Longrightarrow> and_then m f = and_then m g"
  by (cases m) simp_all

lemma map_outcome_list_Ok:
  "(\<And>x. x \<in> set xs \<Longrightarrow> f x = Ok (g x)) \<Longrightarrow> map_outcome_list f xs = Ok (map g xs)"
  by (induction xs) auto

section \<open>\<open>std::unordered_map\<close> as an association list\<close>

text \<open>
  The list order stands for the container's iteration order, which C++ leaves
  unspecified; theorems about loops over such a container say when the order is
  irrelevant.
\<close>

type_synonym ('k, 'v) umap = "('k \<times> 'v) list"

definition umap_find :: "('k, 'v) umap \<Rightarrow> 'k \<Rightarrow> 'v option" where
  "umap_find m k = map_of m k"

definition umap_contains :: "('k, 'v) umap \<Rightarrow> 'k \<Rightarrow> bool" where
  "umap_contains m k = (umap_find m k \<noteq> None)"

definition umap_insert_or_assign :: "'k \<Rightarrow> 'v \<Rightarrow> ('k, 'v) umap \<Rightarrow> ('k, 'v) umap" where
  "umap_insert_or_assign k v m = AList.update k v m"

text \<open>\<open>try_emplace\<close> (and \<open>insert\<close>): the map and whether the element was created.\<close>

definition umap_try_emplace :: "'k \<Rightarrow> 'v \<Rightarrow> ('k, 'v) umap \<Rightarrow> ('k, 'v) umap \<times> bool" where
  "umap_try_emplace k v m =
     (case umap_find m k of None \<Rightarrow> (m @ [(k, v)], True) | Some _ \<Rightarrow> (m, False))"

text \<open>\<open>m[k]\<close> as a value: the element, default constructed when the key is new.\<close>

definition umap_subscript :: "'v \<Rightarrow> ('k, 'v) umap \<Rightarrow> 'k \<Rightarrow> 'v" where
  "umap_subscript d m k = (case umap_find m k of None \<Rightarrow> d | Some v \<Rightarrow> v)"

definition umap_wf :: "('k, 'v) umap \<Rightarrow> bool" where
  "umap_wf m = distinct (map fst m)"

subsection \<open>The contract the components rely on\<close>

locale dictionary =
  fixes dict_empty :: "'d"
    and dict_find :: "'d \<Rightarrow> 'k \<Rightarrow> 'v option"
    and dict_assign :: "'k \<Rightarrow> 'v \<Rightarrow> 'd \<Rightarrow> 'd"
    and dict_emplace :: "'k \<Rightarrow> 'v \<Rightarrow> 'd \<Rightarrow> 'd \<times> bool"
    and dict_wf :: "'d \<Rightarrow> bool"
  assumes find_empty: "dict_find dict_empty k = None"
    and find_assign: "dict_find (dict_assign k v d) = (dict_find d)(k \<mapsto> v)"
    and emplace_new: "dict_find d k = None \<Longrightarrow>
      snd (dict_emplace k v d) \<and> dict_find (fst (dict_emplace k v d)) = (dict_find d)(k \<mapsto> v)"
    and emplace_old: "dict_find d k \<noteq> None \<Longrightarrow> dict_emplace k v d = (d, False)"
    and wf_empty: "dict_wf dict_empty"
    and wf_assign: "dict_wf d \<Longrightarrow> dict_wf (dict_assign k v d)"
    and wf_emplace: "dict_wf d \<Longrightarrow> dict_wf (fst (dict_emplace k v d))"
begin

lemma find_assign_same: "dict_find (dict_assign k v d) k = Some v"
  by (simp add: find_assign)

lemma find_assign_other: "k' \<noteq> k \<Longrightarrow> dict_find (dict_assign k v d) k' = dict_find d k'"
  by (simp add: find_assign)

lemma emplace_created_iff: "snd (dict_emplace k v d) \<longleftrightarrow> dict_find d k = None"
  using emplace_new emplace_old by (cases "dict_find d k") auto

lemma find_emplace:
  "dict_find (fst (dict_emplace k v d)) k' =
     (if dict_find d k' = None \<and> k' = k then Some v else dict_find d k')"
  using emplace_new [of d k v] emplace_old [of d k v] by (cases "dict_find d k") auto

text \<open>A loop of assignments: the last binding of a key wins, and no key is lost.\<close>

lemma find_assign_loop:
  "dict_find (foldl (\<lambda>m (k, v). dict_assign k v m) d kvs) = dict_find d ++ map_of (rev kvs)"
  by (induction kvs arbitrary: d) (auto simp: find_assign)

lemma wf_assign_loop:
  "dict_wf d \<Longrightarrow> dict_wf (foldl (\<lambda>m (k, v). dict_assign k v m) d kvs)"
  by (induction kvs arbitrary: d) (auto simp: wf_assign)

end

interpretation um: dictionary "[] :: ('k, 'v) umap" umap_find umap_insert_or_assign
  umap_try_emplace umap_wf
proof unfold_locales
  fix k :: 'k and v :: 'v and d :: "('k, 'v) umap"
  show "umap_find ([] :: ('k, 'v) umap) k = None" by (simp add: umap_find_def)
  show "umap_find (umap_insert_or_assign k v d) = (umap_find d)(k \<mapsto> v)"
    by (simp add: umap_find_def [abs_def] umap_insert_or_assign_def update_conv')
  show "umap_find d k = None \<Longrightarrow> snd (umap_try_emplace k v d) \<and>
      umap_find (fst (umap_try_emplace k v d)) = (umap_find d)(k \<mapsto> v)"
    by (auto simp: umap_find_def umap_try_emplace_def map_add_def fun_eq_iff split: option.splits)
  show "umap_find d k \<noteq> None \<Longrightarrow> umap_try_emplace k v d = (d, False)"
    by (auto simp: umap_try_emplace_def)
  show "umap_wf ([] :: ('k, 'v) umap)" by (simp add: umap_wf_def)
  show "umap_wf d \<Longrightarrow> umap_wf (umap_insert_or_assign k v d)"
    by (simp add: umap_wf_def umap_insert_or_assign_def distinct_update)
  show "umap_wf d \<Longrightarrow> umap_wf (fst (umap_try_emplace k v d))"
    by (auto simp: umap_wf_def umap_try_emplace_def umap_find_def map_of_eq_None_iff
        split: option.splits)
qed

lemmas umap_lookup [simp] =
  um.find_empty um.find_assign_same um.find_assign_other um.emplace_created_iff

lemmas umap_wf_rules [wf_intros] = um.wf_empty um.wf_assign um.wf_emplace

lemma umap_contains_assign [simp]:
  "umap_contains (umap_insert_or_assign k v m) k' \<longleftrightarrow> k' = k \<or> umap_contains m k'"
  by (simp add: umap_contains_def um.find_assign)

lemma umap_find_mem: "umap_find m k = Some v \<Longrightarrow> (k, v) \<in> set m"
  by (simp add: umap_find_def map_of_SomeD)

lemma umap_mem_find: "umap_wf m \<Longrightarrow> (k, v) \<in> set m \<Longrightarrow> umap_find m k = Some v"
  by (simp add: umap_find_def umap_wf_def)

lemma umap_mem_iff: "umap_wf m \<Longrightarrow> (k, v) \<in> set m \<longleftrightarrow> umap_find m k = Some v"
  using umap_find_mem umap_mem_find by metis

lemma umap_set_assign:
  "umap_wf m \<Longrightarrow> (k', v') \<in> set (umap_insert_or_assign k v m) \<longleftrightarrow>
     (if k' = k then v' = v else (k', v') \<in> set m)"
  by (auto simp: umap_mem_iff um.wf_assign um.find_assign)

lemma umap_emplace_cases:
  "umap_try_emplace k v m =
     (if umap_contains m k then (m, False) else (m @ [(k, v)], True))"
  by (auto simp: umap_try_emplace_def umap_contains_def split: option.splits)

text \<open>Facts about all elements survive writes and give facts about found elements.\<close>

lemma list_all_assign:
  "list_all P m \<Longrightarrow> P (k, v) \<Longrightarrow> list_all P (umap_insert_or_assign k v m)"
proof (induction m)
  case Nil
  then show ?case by (simp add: umap_insert_or_assign_def)
next
  case (Cons a m)
  then show ?case by (cases a) (simp add: umap_insert_or_assign_def)
qed

lemma list_all_find: "list_all P m \<Longrightarrow> umap_find m k = Some v \<Longrightarrow> P (k, v)"
  by (auto simp: list_all_iff dest: umap_find_mem)

lemma list_all_emplace:
  "list_all P m \<Longrightarrow> P (k, v) \<Longrightarrow> list_all P (fst (umap_try_emplace k v m))"
  by (simp add: umap_emplace_cases)

lemma umap_emplace_new: "umap_find m k = None \<Longrightarrow> umap_try_emplace k v m = (m @ [(k, v)], True)"
  by (simp add: umap_try_emplace_def)

lemma umap_emplace_old: "umap_find m k = Some w \<Longrightarrow> umap_try_emplace k v m = (m, False)"
  by (simp add: umap_try_emplace_def)

lemma umap_find_append: "umap_find (m @ m') k = (case umap_find m k of None \<Rightarrow> umap_find m' k | Some v \<Rightarrow> Some v)"
  by (simp add: umap_find_def map_add_def split: option.splits)

lemma umap_assign_fresh_append:
  "umap_find m k = None \<Longrightarrow> umap_insert_or_assign k v (m @ [(k, w)]) = m @ [(k, v)]"
  by (induction m) (auto simp: umap_insert_or_assign_def umap_find_def split: if_splits)

lemma umap_wf_append: "umap_wf m \<Longrightarrow> umap_find m k = None \<Longrightarrow> umap_wf (m @ [(k, v)])"
  by (auto simp: umap_wf_def umap_find_def map_of_eq_None_iff)

lemma umap_find_Cons: "umap_find ((k', v) # m) k = (if k = k' then Some v else umap_find m k)"
  by (simp add: umap_find_def)

section \<open>Strings\<close>

text \<open>\<open>std::to_string\<close> of a non-negative and of a signed integer.\<close>

fun nat_to_string :: "nat \<Rightarrow> string" where
  "nat_to_string n =
     (if n < 10 then [char_of (48 + n)]
      else nat_to_string (n div 10) @ [char_of (48 + n mod 10)])"

declare nat_to_string.simps [simp del]

definition int_to_string :: "int \<Rightarrow> string" where
  "int_to_string i = (if i < 0 then CHR ''-'' # nat_to_string (nat (- i)) else nat_to_string (nat i))"

text \<open>\<open>s.find(c)\<close>: the first position of a character, \<open>None\<close> for \<open>npos\<close>.\<close>

fun str_find :: "char \<Rightarrow> string \<Rightarrow> nat option" where
  "str_find c [] = None"
| "str_find c (x # xs) = (if x = c then Some 0 else map_option Suc (str_find c xs))"

text \<open>\<open>s.substr(pos, count)\<close> for \<open>pos \<le> size\<close>.\<close>

definition str_substr :: "string \<Rightarrow> nat \<Rightarrow> nat \<Rightarrow> string" where
  "str_substr s pos cnt = take cnt (drop pos s)"

lemma str_find_None_iff [simp]: "str_find c s = None \<longleftrightarrow> c \<notin> set s"
  by (induction s) auto

lemma str_find_absent [simp]: "c \<notin> set s \<Longrightarrow> str_find c s = None"
  by simp

lemma str_find_split: "c \<notin> set xs \<Longrightarrow> str_find c (xs @ c # ys) = Some (length xs)"
  by (induction xs) auto

lemma str_find_SomeD:
  "str_find c s = Some i \<Longrightarrow> i < length s \<and> s ! i = c \<and> c \<notin> set (take i s)"
  by (induction s arbitrary: i) (auto split: if_splits)

lemma str_find_Some_decomp:
  assumes "str_find c s = Some i"
  shows "s = take i s @ c # drop (Suc i) s" and "c \<notin> set (take i s)" and "i < length s"
  using str_find_SomeD [OF assms] id_take_nth_drop [of i s] by auto

end
