(* ===== verification/Foundation.thy ===== *)
theory Foundation
  imports Prelude
begin

text \<open>
  \<open>src/foundation\<close> and the value types every component shares: the HTTP method enum,
  the compile-time hash that identifies message classes, the alternatives of the
  \<open>std::variant\<close> types with \<open>std::get\<close>, and the exception classes the repository throws
  or catches with the parts of the class hierarchy its handlers match on.
\<close>

section \<open>HTTP methods (\<open>foundation/base_types.h\<close>)\<close>

datatype http_methods = GET | HEAD | POST | PUT | DELETE | CONNECT | OPTIONS | TRACE

text \<open>
  The enum has the fixed underlying type \<open>int32_t\<close> and starts at 1; a variable of the
  enum type can hold any other \<open>int32_t\<close> too, so messages carry the code.
\<close>

fun http_method_code :: "http_methods \<Rightarrow> i32" where
  "http_method_code GET = 1"
| "http_method_code HEAD = 2"
| "http_method_code POST = 3"
| "http_method_code PUT = 4"
| "http_method_code DELETE = 5"
| "http_method_code CONNECT = 6"
| "http_method_code OPTIONS = 7"
| "http_method_code TRACE = 8"

text \<open>Enumerators compare by their codes, as C++ enumerators do.\<close>

instantiation http_methods :: linorder
begin

definition less_eq_http_methods :: "http_methods \<Rightarrow> http_methods \<Rightarrow> bool" where
  "less_eq_http_methods a b \<longleftrightarrow> http_method_code a \<le> http_method_code b"

definition less_http_methods :: "http_methods \<Rightarrow> http_methods \<Rightarrow> bool" where
  "less_http_methods a b \<longleftrightarrow> http_method_code a < http_method_code b"

instance
proof
  fix a b c :: http_methods
  show "a < b \<longleftrightarrow> a \<le> b \<and> \<not> b \<le> a"
    by (auto simp: less_eq_http_methods_def less_http_methods_def)
  show "a \<le> a" by (simp add: less_eq_http_methods_def)
  show "a \<le> b \<Longrightarrow> b \<le> c \<Longrightarrow> a \<le> c" by (simp add: less_eq_http_methods_def)
  show "a \<le> b \<Longrightarrow> b \<le> a \<Longrightarrow> a = b"
    using order_antisym [of "http_method_code a" "http_method_code b"]
    by (cases a; cases b) (simp_all add: less_eq_http_methods_def)
  show "a \<le> b \<or> b \<le> a" by (auto simp: less_eq_http_methods_def)
qed

end

lemma http_method_code_inject [simp]: "http_method_code a = http_method_code b \<longleftrightarrow> a = b"
  by (cases a; cases b) simp_all

section \<open>Compile-time hash (\<open>foundation/extensions.h\<close>)\<close>

text \<open>
  \<open>apply\<close> folds the literal from its last array element (the terminating NUL, which
  \<open>N\<close> counts) back to the first. \<open>char\<close> is signed on the supported targets, so the
  exclusive or sees the sign-extended character.
\<close>

unbundle bit_operations_syntax

definition char_to_size :: "char \<Rightarrow> u64" where
  "char_to_size c = scast (of_char c :: 8 word)"

fun compile_time_hash_calc :: "string \<Rightarrow> u64" where
  "compile_time_hash_calc [] = 2166136261"
| "compile_time_hash_calc (c # cs) = (compile_time_hash_calc cs XOR char_to_size c) * 16777619"

definition compile_time_hash :: "string \<Rightarrow> u64" where
  "compile_time_hash s = compile_time_hash_calc (s @ [CHR 0x00])"

text \<open>The message classes of the repository and the literal each one hashes.\<close>

datatype message_class =
    DynamicMessage_class | HttpRequestMessage_class | HttpResponseMessage_class
  | TaskExecutionMessage_class | AsyncConfigurationMessage_class
  | ThrottleStateMessage_class | AddThrottlerConfigMessage_class
  | UpdateThrottlerConfigMessage_class | AddRouteConfigMessage_class
  | HttpDroppedRequestMessage_class | TcpRequestMessage_class | TcpResponseMessage_class

fun message_literal :: "message_class \<Rightarrow> string" where
  "message_literal DynamicMessage_class =
     ''adl::axp::core::event_processing::DynamicMessage''"
| "message_literal HttpRequestMessage_class =
     ''adl::axp::core::event_processing::base_impl::HttpRequestMessage''"
| "message_literal HttpResponseMessage_class =
     ''adl::axp::core::event_processing::base_impl::HttpResponseMessage''"
| "message_literal TaskExecutionMessage_class =
     ''adl::axp::core::event_processing::messages::TaskExecutionMessage''"
| "message_literal AsyncConfigurationMessage_class =
     ''adl::axp::core::event_processing::messages::AsyncConfigurationMessage''"
| "message_literal ThrottleStateMessage_class =
     ''adl::axp::core::stages::throttling::ThrottleStateMessage''"
| "message_literal AddThrottlerConfigMessage_class =
     ''adl::axp::core::stages::throttling::AddThrottlerConfigMessage''"
| "message_literal UpdateThrottlerConfigMessage_class =
     ''adl::axp::core::stages::throttling::UpdateThrottlerConfigMessage''"
| "message_literal AddRouteConfigMessage_class =
     ''adl::axp::core::stages::http_server_stage::AddRouteConfigMessage''"
| "message_literal HttpDroppedRequestMessage_class =
     ''adl::axp::core::stages::base_impl::http_dispatcher::HttpDroppedRequestMessage''"
| "message_literal TcpRequestMessage_class =
     ''adl::axp::core::stages::TcpRequestMessage''"
| "message_literal TcpResponseMessage_class =
     ''adl::axp::core::stages::TcpResponseMessage''"

definition message_type :: "message_class \<Rightarrow> u64" where
  "message_type c = compile_time_hash (message_literal c)"

text \<open>The macro \<open>if_message_type(type, message)\<close>: the test the stages branch on.\<close>

definition if_message_type :: "string \<Rightarrow> message_class \<Rightarrow> bool" where
  "if_message_type literal c \<longleftrightarrow> compile_time_hash literal = message_type c"

subsection \<open>The hashes of the message classes do not collide\<close>

text \<open>
  Multiplication and exclusive or carry no information from high bits to low ones, so the
  low six bits of a hash are a hash of their own, which already separates the classes.
\<close>

fun hash_low :: "string \<Rightarrow> int" where
  "hash_low [] = 5"
| "hash_low (c # cs) = take_bit 6 ((hash_low cs XOR take_bit 6 (of_char c)) * 19)"

lemma char_as_word: "(of_char c :: 8 word) = word_of_int (of_char c)"
  by (rule of_int_of_char [symmetric])

lemma take_bit_char_to_size: "take_bit 6 (uint (char_to_size c)) = take_bit 6 (of_char c :: int)"
proof -
  have "uint (char_to_size c) = take_bit 64 (signed_take_bit 7 (of_char c :: int))"
    by (simp only: char_to_size_def scast_eq char_as_word uint_word_of_int_eq sint_sbintrunc') simp
  then show ?thesis by (simp add: take_bit_signed_take_bit)
qed

lemma hash_calc_low: "take_bit 6 (uint (compile_time_hash_calc s)) = hash_low s"
proof (induction s)
  case (Cons c cs)
  let ?h = "uint (compile_time_hash_calc cs)" and ?c = "uint (char_to_size c)"
  have "uint (compile_time_hash_calc (c # cs)) = take_bit 64 ((?h XOR ?c) * 16777619)"
    by (simp add: uint_word_ariths uint_xor take_bit_eq_mod)
  then have "take_bit 6 (uint (compile_time_hash_calc (c # cs))) = take_bit 6 ((?h XOR ?c) * 16777619)"
    by simp
  also have "\<dots> = take_bit 6 (take_bit 6 (?h XOR ?c) * take_bit 6 16777619)"
    by (simp only: take_bit_mult)
  also have "\<dots> = take_bit 6 ((hash_low cs XOR take_bit 6 (of_char c)) * 19)"
    by (simp only: take_bit_xor Cons.IH take_bit_char_to_size) simp
  also have "\<dots> = hash_low (c # cs)" by simp
  finally show ?case .
qed simp

lemma message_type_low:
  "take_bit 6 (uint (message_type c)) = hash_low (message_literal c @ [CHR 0x00])"
  by (simp add: message_type_def compile_time_hash_def hash_calc_low)

fun class_low :: "message_class \<Rightarrow> int" where
  "class_low DynamicMessage_class = 18"
| "class_low HttpRequestMessage_class = 28"
| "class_low HttpResponseMessage_class = 0"
| "class_low TaskExecutionMessage_class = 38"
| "class_low AsyncConfigurationMessage_class = 57"
| "class_low ThrottleStateMessage_class = 32"
| "class_low AddThrottlerConfigMessage_class = 58"
| "class_low UpdateThrottlerConfigMessage_class = 22"
| "class_low AddRouteConfigMessage_class = 13"
| "class_low HttpDroppedRequestMessage_class = 41"
| "class_low TcpRequestMessage_class = 36"
| "class_low TcpResponseMessage_class = 56"

lemma message_type_class_low: "take_bit 6 (uint (message_type c)) = class_low c"
  by (cases c) (simp_all add: message_type_low)

lemma class_low_inject: "class_low a = class_low b \<Longrightarrow> a = b"
  by (cases a; cases b) simp_all

lemma message_type_eq_iff [simp]: "message_type a = message_type b \<longleftrightarrow> a = b"
  using class_low_inject message_type_class_low by metis

text \<open>
  The message classes of the repository have pairwise different type ids, so a test
  \<open>if_message_type(literal of a class, message)\<close> holds exactly for messages of that class:
  dispatching on the hash is dispatching on the class, with no collision.
\<close>

theorem message_type_identifies_class:
  "if_message_type (message_literal a) b \<longleftrightarrow> a = b"
  by (simp add: if_message_type_def flip: message_type_def)

section \<open>Values stored in messages and stores\<close>

text \<open>
  The dynamic types a \<open>std::type_index\<close> of the program can name, and the two variant
  types: \<open>variant_t\<close> of \<open>DynamicMessage\<close> and \<open>variant_t\<close> of \<open>KeyValueStore\<close>.
\<close>

datatype type_index = T_int32 | T_int64 | T_string | T_void_ptr

datatype variant = V_int32 i32 | V_int64 i64 | V_string string | V_void_ptr u64

datatype kv_variant = KV_int32 i32 | KV_int64 i64 | KV_string string

fun variant_type :: "variant \<Rightarrow> type_index" where
  "variant_type (V_int32 _) = T_int32"
| "variant_type (V_int64 _) = T_int64"
| "variant_type (V_string _) = T_string"
| "variant_type (V_void_ptr _) = T_void_ptr"

fun kv_variant_type :: "kv_variant \<Rightarrow> type_index" where
  "kv_variant_type (KV_int32 _) = T_int32"
| "kv_variant_type (KV_int64 _) = T_int64"
| "kv_variant_type (KV_string _) = T_string"

text \<open>
  A template argument \<open>value_t\<close> that is an alternative of the variant: its type index,
  the converting constructor of the variant, and the projection \<open>std::get\<close> performs.
\<close>

record ('a, 'v) alternative =
  alt_type :: type_index
  alt_inject :: "'a \<Rightarrow> 'v"
  alt_project :: "'v \<Rightarrow> 'a option"

definition int32_alt :: "(i32, variant) alternative" where
  "int32_alt = \<lparr>alt_type = T_int32, alt_inject = V_int32,
     alt_project = (\<lambda>v. case v of V_int32 x \<Rightarrow> Some x | _ \<Rightarrow> None)\<rparr>"

definition int64_alt :: "(i64, variant) alternative" where
  "int64_alt = \<lparr>alt_type = T_int64, alt_inject = V_int64,
     alt_project = (\<lambda>v. case v of V_int64 x \<Rightarrow> Some x | _ \<Rightarrow> None)\<rparr>"

definition string_alt :: "(string, variant) alternative" where
  "string_alt = \<lparr>alt_type = T_string, alt_inject = V_string,
     alt_project = (\<lambda>v. case v of V_string x \<Rightarrow> Some x | _ \<Rightarrow> None)\<rparr>"

definition void_ptr_alt :: "(u64, variant) alternative" where
  "void_ptr_alt = \<lparr>alt_type = T_void_ptr, alt_inject = V_void_ptr,
     alt_project = (\<lambda>v. case v of V_void_ptr x \<Rightarrow> Some x | _ \<Rightarrow> None)\<rparr>"

definition kv_int32_alt :: "(i32, kv_variant) alternative" where
  "kv_int32_alt = \<lparr>alt_type = T_int32, alt_inject = KV_int32,
     alt_project = (\<lambda>v. case v of KV_int32 x \<Rightarrow> Some x | _ \<Rightarrow> None)\<rparr>"

definition kv_int64_alt :: "(i64, kv_variant) alternative" where
  "kv_int64_alt = \<lparr>alt_type = T_int64, alt_inject = KV_int64,
     alt_project = (\<lambda>v. case v of KV_int64 x \<Rightarrow> Some x | _ \<Rightarrow> None)\<rparr>"

definition kv_string_alt :: "(string, kv_variant) alternative" where
  "kv_string_alt = \<lparr>alt_type = T_string, alt_inject = KV_string,
     alt_project = (\<lambda>v. case v of KV_string x \<Rightarrow> Some x | _ \<Rightarrow> None)\<rparr>"

text \<open>What the template code relies on, for any alternative of a variant type.\<close>

locale variant_alternative =
  fixes type_of :: "'v \<Rightarrow> type_index" and alt :: "('a, 'v) alternative"
  assumes project_Some_iff: "alt_project alt v = Some x \<longleftrightarrow> v = alt_inject alt x"
    and type_of_iff: "type_of v = alt_type alt \<longleftrightarrow> (\<exists>x. v = alt_inject alt x)"
begin

lemma project_inject [simp]: "alt_project alt (alt_inject alt x) = Some x"
  by (simp add: project_Some_iff)

lemma type_of_inject [simp]: "type_of (alt_inject alt x) = alt_type alt"
  by (auto simp: type_of_iff)

lemma inject_inject [simp]: "alt_inject alt x = alt_inject alt y \<longleftrightarrow> x = y"
  using project_Some_iff [of "alt_inject alt x" y] by auto

lemma project_None_iff: "alt_project alt v = None \<longleftrightarrow> type_of v \<noteq> alt_type alt"
  by (cases "alt_project alt v") (auto simp: type_of_iff project_Some_iff)

lemma project_ok: "type_of v = alt_type alt \<Longrightarrow> \<exists>x. alt_project alt v = Some x"
  using project_None_iff by auto

end

interpretation int32: variant_alternative variant_type int32_alt
  by unfold_locales (auto simp: int32_alt_def split: variant.splits elim: variant_type.elims)

interpretation int64: variant_alternative variant_type int64_alt
  by unfold_locales (auto simp: int64_alt_def split: variant.splits elim: variant_type.elims)

interpretation str: variant_alternative variant_type string_alt
  by unfold_locales (auto simp: string_alt_def split: variant.splits elim: variant_type.elims)

interpretation void_ptr: variant_alternative variant_type void_ptr_alt
  by unfold_locales (auto simp: void_ptr_alt_def split: variant.splits elim: variant_type.elims)

interpretation kv_int32: variant_alternative kv_variant_type kv_int32_alt
  by unfold_locales (auto simp: kv_int32_alt_def split: kv_variant.splits elim: kv_variant_type.elims)

interpretation kv_int64: variant_alternative kv_variant_type kv_int64_alt
  by unfold_locales (auto simp: kv_int64_alt_def split: kv_variant.splits elim: kv_variant_type.elims)

interpretation kv_str: variant_alternative kv_variant_type kv_string_alt
  by unfold_locales (auto simp: kv_string_alt_def split: kv_variant.splits elim: kv_variant_type.elims)

section \<open>Exceptions\<close>

text \<open>
  One constructor per exception class, with the constructor arguments that reach its
  message. The last group is thrown by the standard library or by third-party code:
  \<open>Library_exception\<close> stands for a class derived from \<open>std::exception\<close> that no handler
  names, \<open>Foreign_exception\<close> for a thrown object that is no \<open>std::exception\<close> at all.
\<close>

datatype exn =
    FieldGroupDoesNotExistException string
  | FieldNameDoesNotExistException string string
  | TypedGroupTypeMismatchException string type_index type_index
  | KeyDoesNotExistException string
  | InvalidListElementTypeException string type_index type_index
  | InvalidSetElementTypeException string type_index type_index
  | TypeMismatchException string type_index
  | ValueExistInSetException string string
  | SourceExistException string
  | SinkExistException string
  | SinkDoesNotExistException string
  | SourceDoesNotExistException string
  | ThrottlerIdExistException string
  | ThrottlerDoesNotExistException string
  | InvalidThrottleTypeException string string
  | Runtime_error string
  | Bad_variant_access
  | Out_of_range
  | Future_error
  | Invalid_argument string
  | Token_verification_exception string
  | Signature_verification_exception string
  | Library_exception string
  | Foreign_exception

type_synonym 'a cxx = "('a, exn) outcome"

text \<open>Which handlers match: \<open>catch (const std::exception &)\<close>, \<open>std::runtime_error\<close>.\<close>

fun is_std_exception :: "exn \<Rightarrow> bool" where
  "is_std_exception Foreign_exception = False"
| "is_std_exception _ = True"

fun is_runtime_error :: "exn \<Rightarrow> bool" where
  "is_runtime_error Bad_variant_access = False"
| "is_runtime_error Out_of_range = False"
| "is_runtime_error Future_error = False"
| "is_runtime_error (Invalid_argument _) = False"
| "is_runtime_error (Library_exception _) = False"
| "is_runtime_error Foreign_exception = False"
| "is_runtime_error _ = True"

fun is_field_name_missing :: "exn \<Rightarrow> bool" where
  "is_field_name_missing (FieldNameDoesNotExistException _ _) = True"
| "is_field_name_missing _ = False"

fun is_key_missing :: "exn \<Rightarrow> bool" where
  "is_key_missing (KeyDoesNotExistException _) = True"
| "is_key_missing _ = False"

fun is_token_verification :: "exn \<Rightarrow> bool" where
  "is_token_verification (Token_verification_exception _) = True"
| "is_token_verification _ = False"

fun is_signature_verification :: "exn \<Rightarrow> bool" where
  "is_signature_verification (Signature_verification_exception _) = True"
| "is_signature_verification _ = False"

fun is_invalid_argument :: "exn \<Rightarrow> bool" where
  "is_invalid_argument (Invalid_argument _) = True"
| "is_invalid_argument _ = False"

text \<open>
  \<open>what()\<close>. Type names and the messages of standard library exceptions are
  implementation defined, so they are parameters.
\<close>

record cxx_runtime =
  type_name :: "type_index \<Rightarrow> string"
  std_what :: "exn \<Rightarrow> string"

fun dynamic_message_what :: "cxx_runtime \<Rightarrow> exn \<Rightarrow> string option" where
  "dynamic_message_what rt (FieldGroupDoesNotExistException g) = Some (''Field group - '' @ g @ '' does not exist'')"
| "dynamic_message_what rt (FieldNameDoesNotExistException g n) =
     Some (''Field by name - '' @ n @ '' does not exist inside tghe field group '' @ g)"
| "dynamic_message_what rt (TypedGroupTypeMismatchException g req t) =
     Some (''Field group by name '' @ g @ '' is of '' @ type_name rt t @ ''.'' @ '' Requested type is '' @ type_name rt req)"
| "dynamic_message_what rt _ = None"

fun key_value_store_what :: "cxx_runtime \<Rightarrow> exn \<Rightarrow> string option" where
  "key_value_store_what rt (KeyDoesNotExistException k) = Some (''Key ['' @ k @ ''] does not exist'')"
| "key_value_store_what rt (InvalidListElementTypeException k t1 t2) =
     Some (''Type of existing elements ['' @ type_name rt t1 @ ''] does not match the type ['' @ type_name rt t2 @ '']'')"
| "key_value_store_what rt (InvalidSetElementTypeException k t1 t2) =
     Some (''Type of existing elements ['' @ type_name rt t1 @ ''] does not match the type ['' @ type_name rt t2 @ '']'')"
| "key_value_store_what rt (TypeMismatchException k t) =
     Some (''Type of the value of the given key ['' @ k @ ''] is different from requested type [''
       @ type_name rt t @ '']'')"
| "key_value_store_what rt (ValueExistInSetException k v) =
     Some (''value ['' @ v @ ''] already exist in the set with key ['' @ k @ '']'')"
| "key_value_store_what rt _ = None"

fun base_stage_what :: "exn \<Rightarrow> string option" where
  "base_stage_what (SourceExistException w) = Some w"
| "base_stage_what (SinkExistException w) = Some w"
| "base_stage_what (SinkDoesNotExistException w) = Some w"
| "base_stage_what (SourceDoesNotExistException w) = Some w"
| "base_stage_what _ = None"

fun throttling_what :: "exn \<Rightarrow> string option" where
  "throttling_what (ThrottlerIdExistException i) = Some (''Throttler with ID - '' @ i @ '' already exists'')"
| "throttling_what (ThrottlerDoesNotExistException i) = Some (''Throttler with ID - '' @ i @ '' does not exist'')"
| "throttling_what (InvalidThrottleTypeException i t) =
     Some (''Throttler with ID - '' @ i @ '' is of an unknown type - '' @ t)"
| "throttling_what _ = None"

text \<open>The virtual \<open>what()\<close>: the text of the class the object belongs to.\<close>

fun first_some :: "'a option list \<Rightarrow> 'a \<Rightarrow> 'a" where
  "first_some [] d = d"
| "first_some (Some x # xs) d = x"
| "first_some (None # xs) d = first_some xs d"

definition exn_what :: "cxx_runtime \<Rightarrow> exn \<Rightarrow> string" where
  "exn_what rt e =
     (case e of
        Runtime_error w \<Rightarrow> w
      | _ \<Rightarrow> first_some [dynamic_message_what rt e, key_value_store_what rt e, base_stage_what e, throttling_what e]
          (std_what rt e))"

text \<open>One possible runtime, with the type names of the common ABI for the first two.\<close>

definition example_runtime :: cxx_runtime where
  "example_runtime = \<lparr>type_name = (\<lambda>t. case t of T_int32 \<Rightarrow> ''i'' | T_int64 \<Rightarrow> ''l'' | _ \<Rightarrow> ''other''),
     std_what = (\<lambda>e. ''std::exception'')\<rparr>"

text \<open>\<open>std::get<value_t>(v)\<close>.\<close>

definition std_get :: "('a, 'v) alternative \<Rightarrow> 'v \<Rightarrow> 'a cxx" where
  "std_get alt v = (case alt_project alt v of Some x \<Rightarrow> Ok x | None \<Rightarrow> Throw Bad_variant_access)"

context variant_alternative
begin

lemma std_get_Ok_iff: "std_get alt v = Ok x \<longleftrightarrow> v = alt_inject alt x"
  by (auto simp: std_get_def project_Some_iff split: option.splits)

lemma std_get_inject [simp]: "std_get alt (alt_inject alt x) = Ok x"
  by (simp add: std_get_def)

lemma std_get_Throw: "type_of v \<noteq> alt_type alt \<Longrightarrow> std_get alt v = Throw Bad_variant_access"
  by (simp add: std_get_def project_None_iff [THEN iffD2])

lemma std_get_not_Fault [simp]: "std_get alt v \<noteq> Fault f"
  by (auto simp: std_get_def split: option.splits)

end

end
