(* ===== verification/Dynamic_Message.thy ===== *)
theory Dynamic_Message
  imports Foundation
begin

text \<open>
  \<open>src/event_processing/dynamic_message.h\<close> and the HTTP messages derived from it: groups of
  named fields, free-form groups (\<open>_field_values\<close>) and groups whose fields all have one
  declared type (\<open>_typed_field_groups\<close>). The invariant \<open>dm_wf\<close> says that keys are unique
  and that typed groups hold values of their type only; every operation keeps it, and
  under it no typed read ends in \<open>std::bad_variant_access\<close>.
\<close>

section \<open>State\<close>

type_synonym field_group = "(string, variant) umap"

record dynamic_message =
  field_values :: "(string, field_group) umap"
  typed_field_groups :: "(string, type_index \<times> field_group) umap"

definition empty_message :: dynamic_message where
  "empty_message = \<lparr>field_values = [], typed_field_groups = []\<rparr>"

text \<open>The derived classes; \<open>request\<close> is the pointer \<open>_request_message\<close>.\<close>

record http_request_message = dynamic_message +
  request_body :: string

record http_response_message = dynamic_message +
  return_code :: i32
  response_body :: string
  request_message :: http_request_message

section \<open>Operations\<close>

text \<open>\<open>set_field\<close>: \<open>_field_values[group]\<close> creates the group, then insert or assign.\<close>

definition set_field ::
  "('a, variant) alternative \<Rightarrow> string \<Rightarrow> string \<Rightarrow> 'a \<Rightarrow> 'z dynamic_message_scheme \<Rightarrow> 'z dynamic_message_scheme"
where
  "set_field alt grp key val msg =
     msg\<lparr>field_values := umap_insert_or_assign grp
       (umap_insert_or_assign key (alt_inject alt val) (umap_subscript [] (field_values msg) grp))
       (field_values msg)\<rparr>"

definition get_field ::
  "('a, variant) alternative \<Rightarrow> 'z dynamic_message_scheme \<Rightarrow> string \<Rightarrow> string \<Rightarrow> 'a cxx"
where
  "get_field alt msg grp name =
     (case umap_find (field_values msg) grp of
        Some flds \<Rightarrow>
          (case umap_find flds name of
             None \<Rightarrow> Throw (FieldNameDoesNotExistException grp name)
           | Some v \<Rightarrow> std_get alt v)
      | None \<Rightarrow> Throw (FieldGroupDoesNotExistException grp))"

text \<open>\<open>create_typed_group\<close>: false, and no change, when the group exists.\<close>

definition create_typed_group ::
  "('a, variant) alternative \<Rightarrow> string \<Rightarrow> 'z dynamic_message_scheme \<Rightarrow> 'z dynamic_message_scheme \<times> bool"
where
  "create_typed_group alt grp msg =
     (case umap_find (typed_field_groups msg) grp of
        Some _ \<Rightarrow> (msg, False)
      | None \<Rightarrow>
          (msg\<lparr>typed_field_groups :=
             fst (umap_try_emplace grp (alt_type alt, []) (typed_field_groups msg))\<rparr>, True))"

definition set_typed_field ::
  "('a, variant) alternative \<Rightarrow> string \<Rightarrow> string \<Rightarrow> 'a \<Rightarrow> 'z dynamic_message_scheme
     \<Rightarrow> 'z dynamic_message_scheme cxx"
where
  "set_typed_field alt grp fld val msg =
     (case umap_find (typed_field_groups msg) grp of
        None \<Rightarrow> Throw (FieldGroupDoesNotExistException grp)
      | Some (ti, flds) \<Rightarrow>
          (if ti = alt_type alt then
             Ok (msg\<lparr>typed_field_groups := umap_insert_or_assign grp
                   (ti, umap_insert_or_assign fld (alt_inject alt val) flds)
                   (typed_field_groups msg)\<rparr>)
           else Throw (TypedGroupTypeMismatchException grp (alt_type alt) ti)))"

definition get_typed_field ::
  "('a, variant) alternative \<Rightarrow> 'z dynamic_message_scheme \<Rightarrow> string \<Rightarrow> string \<Rightarrow> 'a cxx"
where
  "get_typed_field alt msg grp fld =
     (case umap_find (typed_field_groups msg) grp of
        Some (ti, flds) \<Rightarrow>
          (if ti = alt_type alt then
             (case umap_find flds fld of
                None \<Rightarrow> Throw (FieldNameDoesNotExistException grp fld)
              | Some v \<Rightarrow> std_get alt v)
           else Throw (TypedGroupTypeMismatchException grp (alt_type alt) ti))
      | None \<Rightarrow> Throw (FieldGroupDoesNotExistException grp))"

text \<open>
  \<open>get_typed_group\<close> returns the begin and end iterators of the group: the entries of the
  range in iteration order. \<open>FieldGroupIterator::operator*\<close> reads one of them.
\<close>

definition get_typed_group ::
  "('a, variant) alternative \<Rightarrow> 'z dynamic_message_scheme \<Rightarrow> string \<Rightarrow> field_group cxx"
where
  "get_typed_group alt msg grp =
     (case umap_find (typed_field_groups msg) grp of
        Some (ti, flds) \<Rightarrow>
          (if ti = alt_type alt then Ok flds
           else Throw (TypedGroupTypeMismatchException grp (alt_type alt) ti))
      | None \<Rightarrow> Throw (FieldGroupDoesNotExistException grp))"

definition field_group_deref :: "('a, variant) alternative \<Rightarrow> string \<times> variant \<Rightarrow> (string \<times> 'a) cxx" where
  "field_group_deref alt entry = and_then (std_get alt (snd entry)) (\<lambda>v. Ok (fst entry, v))"

text \<open>The values a loop over the whole range reads, in order.\<close>

definition field_group_values :: "('a, variant) alternative \<Rightarrow> field_group \<Rightarrow> (string \<times> 'a) list cxx" where
  "field_group_values alt entries = map_outcome_list (field_group_deref alt) entries"

section \<open>Well-formed messages\<close>

definition typed_group_wf :: "type_index \<times> field_group \<Rightarrow> bool" where
  "typed_group_wf g \<longleftrightarrow> umap_wf (snd g) \<and> list_all (\<lambda>(k, v). variant_type v = fst g) (snd g)"

definition dm_wf :: "'z dynamic_message_scheme \<Rightarrow> bool" where
  "dm_wf msg \<longleftrightarrow>
     umap_wf (field_values msg) \<and> list_all (\<lambda>(g, flds). umap_wf flds) (field_values msg) \<and>
     umap_wf (typed_field_groups msg) \<and> list_all (\<lambda>(g, tg). typed_group_wf tg) (typed_field_groups msg)"

lemma dm_wf_empty: "dm_wf empty_message"
  by (simp add: dm_wf_def empty_message_def umap_wf_def)

lemma set_field_wf [wf_intros]: "dm_wf msg \<Longrightarrow> dm_wf (set_field alt g k v msg)"
  unfolding dm_wf_def set_field_def
  by (auto simp: um.wf_assign umap_subscript_def um.wf_empty split: option.splits
      intro!: list_all_assign um.wf_assign dest: list_all_find)

lemma create_typed_group_wf [wf_intros]: "dm_wf msg \<Longrightarrow> dm_wf (fst (create_typed_group alt g msg))"
  unfolding dm_wf_def create_typed_group_def
  by (auto simp: um.wf_emplace typed_group_wf_def um.wf_empty split: option.splits
      intro!: list_all_emplace)

lemma typed_group_wf_assign:
  "typed_group_wf (ti, flds) \<Longrightarrow> variant_type v = ti \<Longrightarrow>
   typed_group_wf (ti, umap_insert_or_assign k v flds)"
  by (auto simp: typed_group_wf_def um.wf_assign intro: list_all_assign)

lemma dm_wf_typed_group:
  "dm_wf msg \<Longrightarrow> umap_find (typed_field_groups msg) g = Some tg \<Longrightarrow> typed_group_wf tg"
  by (auto simp: dm_wf_def dest: list_all_find)

lemma set_typed_field_wf:
  assumes "variant_alternative variant_type alt" and "dm_wf msg"
    and "set_typed_field alt g k v msg = Ok msg'"
  shows "dm_wf msg'"
proof -
  from assms(3) obtain flds where
    found: "umap_find (typed_field_groups msg) g = Some (alt_type alt, flds)" and
    msg': "msg' = msg\<lparr>typed_field_groups := umap_insert_or_assign g
       (alt_type alt, umap_insert_or_assign k (alt_inject alt v) flds) (typed_field_groups msg)\<rparr>"
    by (auto simp: set_typed_field_def split: option.splits if_splits)
  have "typed_group_wf (alt_type alt, umap_insert_or_assign k (alt_inject alt v) flds)"
    using dm_wf_typed_group [OF assms(2) found] variant_alternative.type_of_inject [OF assms(1)]
    by (intro typed_group_wf_assign) auto
  then show ?thesis
    using assms(2) by (auto simp: msg' dm_wf_def um.wf_assign intro: list_all_assign)
qed

section \<open>Behaviour of the field operations\<close>

lemma find_set_field:
  "umap_find (field_values (set_field alt g k v msg)) g' =
     (if g' = g then Some (umap_insert_or_assign k (alt_inject alt v)
        (umap_subscript [] (field_values msg) g))
      else umap_find (field_values msg) g')"
  by (simp add: set_field_def um.find_assign)

lemma umap_subscript_find: "umap_find (umap_subscript [] m g) k =
    (case umap_find m g of None \<Rightarrow> None | Some flds \<Rightarrow> umap_find flds k)"
  by (auto simp: umap_subscript_def split: option.splits)

lemma set_field_typed_groups [simp]:
  "typed_field_groups (set_field alt g k v msg) = typed_field_groups msg"
  by (simp add: set_field_def)

lemma get_field_set_other_group [simp]:
  "g' \<noteq> g \<Longrightarrow> get_field alt' (set_field alt g k v msg) g' k' = get_field alt' msg g' k'"
  by (simp add: get_field_def find_set_field)

lemma get_field_set_other_name:
  "k' \<noteq> k \<Longrightarrow> get_field alt' (set_field alt g k v msg) g k' =
     (if umap_contains (field_values msg) g then get_field alt' msg g k'
      else Throw (FieldNameDoesNotExistException g k'))"
  by (auto simp: get_field_def find_set_field umap_subscript_def umap_contains_def
      split: option.splits)

lemma get_field_Ok_contains: "get_field alt msg g k = Ok v \<Longrightarrow> umap_contains (field_values msg) g"
  by (auto simp: get_field_def umap_contains_def split: option.splits)

lemma get_field_not_Fault [simp]:
  "get_field alt msg g k \<noteq> Fault f"
  by (auto simp: get_field_def std_get_def split: option.splits)

lemma get_field_throws_std: "get_field alt msg g k = Throw e \<Longrightarrow> is_std_exception e"
  by (auto simp: get_field_def std_get_def split: option.splits)

lemma get_typed_group_not_Fault [simp]: "get_typed_group alt msg g \<noteq> Fault f"
  by (auto simp: get_typed_group_def split: option.splits)

lemma get_set_string [simp]: "get_field string_alt (set_field string_alt g k v msg) g k = Ok v"
  by (simp add: get_field_def find_set_field)

lemma get_field_set_same:
  "variant_alternative variant_type alt \<Longrightarrow> get_field alt (set_field alt g k v msg) g k = Ok v"
  by (simp add: get_field_def find_set_field variant_alternative.std_get_inject)

lemma get_field_set_Ok_iff:
  assumes "(g', k') \<noteq> (g, k)"
  shows "get_field alt' (set_field alt g k v msg) g' k' = Ok w \<longleftrightarrow> get_field alt' msg g' k' = Ok w"
proof (cases "g' = g")
  case True
  with assms have "k' \<noteq> k" by simp
  with True show ?thesis
    using get_field_Ok_contains [of alt' msg g k' w]
    by (cases "umap_contains (field_values msg) g") (simp_all add: get_field_set_other_name, blast)
next
  case False
  then show ?thesis by simp
qed

text \<open>
  C35: Reading back a field gives the value written last, of its type; every other field that could
  be read keeps its value; the typed groups are untouched; and no read of a missing field
  starts to succeed.
\<close>

theorem set_field_then_get:
  assumes "variant_alternative variant_type alt"
  shows "get_field alt (set_field alt g k v msg) g k = Ok v \<and>
    ((g', k') \<noteq> (g, k) \<longrightarrow>
      (get_field alt' (set_field alt g k v msg) g' k' = Ok w \<longleftrightarrow> get_field alt' msg g' k' = Ok w)) \<and>
    typed_field_groups (set_field alt g k v msg) = typed_field_groups msg"
proof (intro conjI impI)
  show "get_field alt (set_field alt g k v msg) g k = Ok v"
    by (rule get_field_set_same [OF assms])
  assume "(g', k') \<noteq> (g, k)"
  then show "get_field alt' (set_field alt g k v msg) g' k' = Ok w \<longleftrightarrow> get_field alt' msg g' k' = Ok w"
    by (rule get_field_set_Ok_iff)
qed simp

theorem set_field_then_get_witness:
  "get_field int64_alt (set_field int64_alt ''info'' ''request_time'' 7 empty_message)
     ''info'' ''request_time'' = Ok 7"
  by (rule set_field_then_get [OF int64.variant_alternative_axioms, THEN conjunct1])

text \<open>
  C34: Every operation that writes a message keeps it well formed: unique keys, and typed groups that
  hold only values of the type they were created with.
\<close>

theorem message_operations_keep_wf:
  assumes "variant_alternative variant_type alt" and "dm_wf msg"
  shows "dm_wf (set_field alt g k v msg) \<and> dm_wf (fst (create_typed_group alt g msg)) \<and>
    (\<forall>msg'. set_typed_field alt g k v msg = Ok msg' \<longrightarrow> dm_wf msg')"
  using assms by (auto intro: wf_intros set_typed_field_wf)

theorem message_operations_keep_wf_witness:
  "dm_wf (set_field string_alt ''auth'' ''token'' ''t'' empty_message)"
  using message_operations_keep_wf [OF str.variant_alternative_axioms dm_wf_empty] by blast

section \<open>Typed groups\<close>

lemma typed_group_values:
  assumes "variant_alternative variant_type alt" and "typed_group_wf (alt_type alt, flds)"
  shows "\<exists>vs. field_group_values alt flds = Ok vs \<and> map fst vs = map fst flds \<and>
    (\<forall>k x. umap_find vs k = Some x \<longleftrightarrow> umap_find flds k = Some (alt_inject alt x))"
  using assms(2)
proof (induction flds)
  case Nil
  then show ?case by (simp add: field_group_values_def)
next
  case (Cons e flds)
  obtain k v where e: "e = (k, v)" by (cases e)
  have ty: "variant_type v = alt_type alt" and wf: "typed_group_wf (alt_type alt, flds)"
    using Cons.prems by (auto simp: e typed_group_wf_def umap_wf_def)
  obtain x where x: "v = alt_inject alt x"
    using ty variant_alternative.type_of_iff [OF assms(1)] by blast
  obtain vs where vs: "field_group_values alt flds = Ok vs" "map fst vs = map fst flds"
    "\<forall>k x. umap_find vs k = Some x \<longleftrightarrow> umap_find flds k = Some (alt_inject alt x)"
    using Cons.IH [OF wf] by blast
  have "field_group_values alt (e # flds) = Ok ((k, x) # vs)"
    using vs(1) by (simp add: field_group_values_def field_group_deref_def e x
        variant_alternative.std_get_inject [OF assms(1)])
  moreover have "\<forall>k' y. umap_find ((k, x) # vs) k' = Some y \<longleftrightarrow>
      umap_find (e # flds) k' = Some (alt_inject alt y)"
    using vs(3) by (auto simp: umap_find_def e x variant_alternative.inject_inject [OF assms(1)])
  ultimately show ?case using vs(2) e by auto
qed

lemma get_typed_field_of_group:
  assumes "variant_alternative variant_type alt"
  shows "get_typed_field alt msg g k = Ok x \<longleftrightarrow>
    (\<exists>flds. get_typed_group alt msg g = Ok flds \<and> umap_find flds k = Some (alt_inject alt x))"
  by (auto simp: get_typed_field_def get_typed_group_def variant_alternative.std_get_Ok_iff [OF assms]
      split: option.splits if_splits)

lemma typed_group_read:
  assumes "variant_alternative variant_type alt" and "dm_wf msg"
    and "get_typed_group alt msg g = Ok flds"
  shows "\<exists>vs. field_group_values alt flds = Ok vs \<and> distinct (map fst vs) \<and>
    (\<forall>k x. umap_find vs k = Some x \<longleftrightarrow> get_typed_field alt msg g k = Ok x)"
proof -
  have "umap_find (typed_field_groups msg) g = Some (alt_type alt, flds)"
    using assms(3) by (auto simp: get_typed_group_def split: option.splits if_splits)
  then have wf: "typed_group_wf (alt_type alt, flds)"
    by (rule dm_wf_typed_group [OF assms(2)])
  then have "distinct (map fst flds)"
    by (simp add: typed_group_wf_def umap_wf_def)
  then show ?thesis
    using typed_group_values [OF assms(1) wf] assms(3)
    by (auto simp: get_typed_field_of_group [OF assms(1)])
qed

text \<open>
  C32: In a well-formed message a typed read never fails inside \<open>std::get\<close>: if the group exists with
  the requested type, the whole range can be read, its keys are distinct, and it holds
  exactly the fields \<open>get_typed_field\<close> returns.
\<close>

theorem typed_group_reads_are_safe:
  assumes "variant_alternative variant_type alt" and "dm_wf msg"
    and "get_typed_group alt msg g = Ok flds"
  shows "\<exists>vs. field_group_values alt flds = Ok vs \<and> distinct (map fst vs) \<and>
    (\<forall>k x. umap_find vs k = Some x \<longleftrightarrow> get_typed_field alt msg g k = Ok x)"
  using assms by (rule typed_group_read)

definition example_headers :: dynamic_message where
  "example_headers = empty_message\<lparr>typed_field_groups :=
     [(''http_headers'', (T_string, [(''host'', V_string ''h'')]))]\<rparr>"

lemma example_headers_wf: "dm_wf example_headers"
  by (simp add: dm_wf_def example_headers_def empty_message_def umap_wf_def typed_group_wf_def)

theorem typed_group_reads_are_safe_witness:
  "\<exists>vs. field_group_values string_alt [(''host'', V_string ''h'')] = Ok vs \<and> distinct (map fst vs) \<and>
    (\<forall>k x. umap_find vs k = Some x \<longleftrightarrow> get_typed_field string_alt example_headers ''http_headers'' k = Ok x)"
proof (rule typed_group_reads_are_safe [OF str.variant_alternative_axioms])
  show "dm_wf example_headers" by (rule example_headers_wf)
  show "get_typed_group string_alt example_headers ''http_headers'' = Ok [(''host'', V_string ''h'')]"
    by (simp add: get_typed_group_def example_headers_def umap_find_def string_alt_def)
qed

lemma find_typed_set:
  "set_typed_field alt g k v msg = Ok msg' \<Longrightarrow>
   umap_find (typed_field_groups msg') g' =
     (if g' = g then Some (alt_type alt, umap_insert_or_assign k (alt_inject alt v)
        (snd (the (umap_find (typed_field_groups msg) g))))
      else umap_find (typed_field_groups msg) g')"
  by (auto simp: set_typed_field_def um.find_assign split: option.splits if_splits)

lemma set_typed_field_Ok_iff:
  "(\<exists>msg'. set_typed_field alt g k v msg = Ok msg') \<longleftrightarrow>
   (\<exists>flds. umap_find (typed_field_groups msg) g = Some (alt_type alt, flds))"
  by (auto simp: set_typed_field_def split: option.splits if_splits)

text \<open>
  C33: The error behaviour of typed writes. A write to a missing group and a write of another type
  are refused with their own exceptions; a write to an existing group of the type succeeds and
  is read back, and the other fields of the group are unchanged.
\<close>

theorem set_typed_field_behaviour:
  assumes "variant_alternative variant_type alt"
  shows "(umap_find (typed_field_groups msg) g = None \<longleftrightarrow>
       set_typed_field alt g k v msg = Throw (FieldGroupDoesNotExistException g)) \<and>
    (\<forall>ti flds. umap_find (typed_field_groups msg) g = Some (ti, flds) \<longrightarrow>
       (if ti \<noteq> alt_type alt
        then set_typed_field alt g k v msg = Throw (TypedGroupTypeMismatchException g (alt_type alt) ti)
        else \<exists>msg'. set_typed_field alt g k v msg = Ok msg' \<and>
          get_typed_field alt msg' g k = Ok v \<and>
          (\<forall>k'. k' \<noteq> k \<longrightarrow> get_typed_field alt msg' g k' = get_typed_field alt msg g k')))"
  by (auto simp: set_typed_field_def get_typed_field_def um.find_assign
      variant_alternative.std_get_inject [OF assms] split: option.splits)

theorem set_typed_field_behaviour_witness:
  "set_typed_field string_alt ''http_headers'' ''host'' ''h'' empty_message
     = Throw (FieldGroupDoesNotExistException ''http_headers'')"
  using set_typed_field_behaviour [OF str.variant_alternative_axioms, of empty_message "''http_headers''"
      "''host''" "''h''"]
  by (simp add: empty_message_def)

section \<open>String groups as maps\<close>

text \<open>The entries of a group of a message as the map from keys to strings.\<close>

definition group_view :: "'z dynamic_message_scheme \<Rightarrow> string \<Rightarrow> string \<Rightarrow> string option" where
  "group_view msg grp k = (case get_typed_field string_alt msg grp k of Ok s \<Rightarrow> Some s | _ \<Rightarrow> None)"

lemma group_readable:
  assumes "dm_wf msg" and "get_typed_group string_alt msg grp = Ok flds"
  shows "\<exists>vs. field_group_values string_alt flds = Ok vs \<and> distinct (map fst vs) \<and> map_of vs = group_view msg grp"
proof -
  obtain vs where vs: "field_group_values string_alt flds = Ok vs" "distinct (map fst vs)"
    "\<And>k x. umap_find vs k = Some x \<longleftrightarrow> get_typed_field string_alt msg grp k = Ok x"
    using typed_group_read [OF str.variant_alternative_axioms assms] by blast
  have "map_of vs k = group_view msg grp k" for k
  proof (cases "get_typed_field string_alt msg grp k")
    case (Ok s)
    then show ?thesis using vs(3) [of k s] by (simp add: group_view_def umap_find_def)
  next
    case (Throw e)
    then have "umap_find vs k \<noteq> Some x" for x using vs(3) [of k x] by simp
    then show ?thesis using Throw by (cases "map_of vs k") (auto simp: group_view_def umap_find_def)
  next
    case (Fault e)
    then have "umap_find vs k \<noteq> Some x" for x using vs(3) [of k x] by simp
    then show ?thesis using Fault by (cases "map_of vs k") (auto simp: group_view_def umap_find_def)
  qed
  then show ?thesis using vs by blast
qed

definition has_string_group :: "'z dynamic_message_scheme \<Rightarrow> string \<Rightarrow> bool" where
  "has_string_group msg grp \<longleftrightarrow> (case get_typed_group string_alt msg grp of Ok _ \<Rightarrow> True | _ \<Rightarrow> False)"

lemma has_string_groupE:
  assumes "has_string_group msg grp"
  obtains flds where "get_typed_group string_alt msg grp = Ok flds"
  using assms by (auto simp: has_string_group_def split: outcome.splits)

lemma has_string_group_iff:
  "has_string_group msg grp \<longleftrightarrow> (\<exists>flds. umap_find (typed_field_groups msg) grp = Some (T_string, flds))"
  by (auto simp: has_string_group_def get_typed_group_def split: option.splits if_splits)
    (simp_all add: string_alt_def)

lemma group_view_typed_groups:
  "umap_find (typed_field_groups msg') grp = umap_find (typed_field_groups msg) grp \<Longrightarrow>
   group_view msg' grp = group_view msg grp"
  by (simp add: fun_eq_iff group_view_def get_typed_field_def)

lemma group_view_set_field [simp]: "group_view (set_field alt g k v msg) grp = group_view msg grp"
  by (rule group_view_typed_groups) simp

lemma set_typed_string:
  assumes "has_string_group msg grp"
  shows "\<exists>msg'. set_typed_field string_alt grp k v msg = Ok msg' \<and> has_string_group msg' grp \<and>
    group_view msg' grp = (group_view msg grp)(k \<mapsto> v) \<and> field_values msg' = field_values msg \<and>
    (\<forall>g. g \<noteq> grp \<longrightarrow> umap_find (typed_field_groups msg') g = umap_find (typed_field_groups msg) g)"
proof -
  obtain flds where flds: "umap_find (typed_field_groups msg) grp = Some (T_string, flds)"
    using assms by (auto simp: has_string_group_iff)
  define msg' where "msg' = msg\<lparr>typed_field_groups := umap_insert_or_assign grp
      (T_string, umap_insert_or_assign k (V_string v) flds) (typed_field_groups msg)\<rparr>"
  have alt: "alt_type string_alt = T_string" "\<And>x. alt_inject string_alt x = V_string x"
    "\<And>x. std_get string_alt (V_string x) = Ok x"
    by (simp_all add: string_alt_def std_get_def)
  have "set_typed_field string_alt grp k v msg = Ok msg'"
    by (simp add: set_typed_field_def flds alt msg'_def)
  moreover have "group_view msg' grp = (group_view msg grp)(k \<mapsto> v)"
    by (auto simp: fun_eq_iff group_view_def get_typed_field_def msg'_def flds alt um.find_assign split: option.splits)
  ultimately show ?thesis by (simp add: has_string_group_iff msg'_def)
qed

lemma create_string_group:
  assumes "umap_find (typed_field_groups msg) grp = None"
  shows "has_string_group (fst (create_typed_group string_alt grp msg)) grp"
    and "group_view (fst (create_typed_group string_alt grp msg)) grp = Map.empty"
    and "field_values (fst (create_typed_group string_alt grp msg)) = field_values msg"
    and "g \<noteq> grp \<Longrightarrow> umap_find (typed_field_groups (fst (create_typed_group string_alt grp msg))) g
           = umap_find (typed_field_groups msg) g"
  using assms
  by (auto simp: create_typed_group_def has_string_group_iff um.find_emplace group_view_def get_typed_field_def
      fun_eq_iff string_alt_def)

end
