(* ===== verification/Key_Value_Store.thy ===== *)
theory Key_Value_Store
  imports Foundation
begin

text \<open>
  \<open>src/services/store_services\<close>: the in-memory \<open>KeyValueStore\<close> with its three name spaces
  (single values, typed lists, typed sets) and the pointer map \<open>KeyComplexValueStore\<close>. The
  invariant \<open>kv_wf\<close> is what the stages that read a store rely on: lists are never empty,
  and lists and sets hold values of their declared type only. The locale \<open>set_reader\<close> and
  \<open>list_reader\<close> state those two read contracts.
\<close>

section \<open>State\<close>

record key_value_store =
  single_value_keys :: "(string, kv_variant) umap"
  list_value_keys :: "(string, type_index \<times> kv_variant list) umap"
  set_value_keys :: "(string, type_index \<times> kv_variant list) umap"

text \<open>
  \<open>unordered_set<variant_t>\<close> is a list without duplicates; its order stands for the
  iteration order, which no operation of the store exposes.
\<close>

definition empty_store :: key_value_store where
  "empty_store = \<lparr>single_value_keys = [], list_value_keys = [], set_value_keys = []\<rparr>"

text \<open>\<open>std::to_string(value)\<close>, or the string itself, in the message of \<open>ValueExistInSetExceptionT\<close>.\<close>

fun kv_show :: "kv_variant \<Rightarrow> string" where
  "kv_show (KV_int32 i) = int_to_string (sint i)"
| "kv_show (KV_int64 i) = int_to_string (sint i)"
| "kv_show (KV_string s) = s"

section \<open>Single values\<close>

definition kv_add :: "('a, kv_variant) alternative \<Rightarrow> string \<Rightarrow> 'a \<Rightarrow> key_value_store \<Rightarrow> key_value_store" where
  "kv_add alt key val st =
     st\<lparr>single_value_keys := umap_insert_or_assign key (alt_inject alt val) (single_value_keys st)\<rparr>"

definition kv_get :: "('a, kv_variant) alternative \<Rightarrow> key_value_store \<Rightarrow> string \<Rightarrow> 'a cxx" where
  "kv_get alt st key =
     (case umap_find (single_value_keys st) key of
        Some v \<Rightarrow> catch_if is_std_exception (\<lambda>ex. Throw (TypeMismatchException key (alt_type alt)))
                    (std_get alt v)
      | None \<Rightarrow> Throw (KeyDoesNotExistException key))"

section \<open>Lists\<close>

text \<open>
  \<open>try_emplace(key, type, 0)\<close> constructs an empty vector next to the type; the element is
  then appended, whether the key was there or not, unless the types differ.
\<close>

definition add_to_list ::
  "('a, kv_variant) alternative \<Rightarrow> string \<Rightarrow> 'a \<Rightarrow> key_value_store \<Rightarrow> key_value_store cxx"
where
  "add_to_list alt key val st =
     (let (keys, created) = umap_try_emplace key (alt_type alt, []) (list_value_keys st) in
      case umap_find keys key of
        None \<Rightarrow> Fault (Undefined ''iterator returned by try_emplace'')
      | Some (ti, elems) \<Rightarrow>
          (if \<not> created then
             (if ti = alt_type alt then
                Ok (st\<lparr>list_value_keys := umap_insert_or_assign key (ti, elems @ [alt_inject alt val]) keys\<rparr>)
              else Throw (InvalidListElementTypeException key ti (alt_type alt)))
           else
             Ok (st\<lparr>list_value_keys :=
                   umap_insert_or_assign key (alt_type alt, elems @ [alt_inject alt val]) keys\<rparr>)))"

definition get_front_list :: "('a, kv_variant) alternative \<Rightarrow> key_value_store \<Rightarrow> string \<Rightarrow> 'a cxx" where
  "get_front_list alt st key =
     (case umap_find (list_value_keys st) key of
        Some (ti, elems) \<Rightarrow>
          (case elems of [] \<Rightarrow> Fault (Undefined ''front of an empty vector'') | v # _ \<Rightarrow> std_get alt v)
      | None \<Rightarrow> Throw (KeyDoesNotExistException key))"

definition get_back_list :: "('a, kv_variant) alternative \<Rightarrow> key_value_store \<Rightarrow> string \<Rightarrow> 'a cxx" where
  "get_back_list alt st key =
     (case umap_find (list_value_keys st) key of
        Some (ti, elems) \<Rightarrow>
          (if elems = [] then Fault (Undefined ''back of an empty vector'') else std_get alt (last elems))
      | None \<Rightarrow> Throw (KeyDoesNotExistException key))"

definition get_at_list :: "('a, kv_variant) alternative \<Rightarrow> key_value_store \<Rightarrow> string \<Rightarrow> u32 \<Rightarrow> 'a cxx" where
  "get_at_list alt st key position =
     (case umap_find (list_value_keys st) key of
        Some (ti, elems) \<Rightarrow>
          (if unat position < length elems then std_get alt (elems ! unat position)
           else Throw Out_of_range)
      | None \<Rightarrow> Throw (KeyDoesNotExistException key))"

definition get_list_count :: "key_value_store \<Rightarrow> string \<Rightarrow> nat cxx" where
  "get_list_count st key =
     (case umap_find (list_value_keys st) key of
        Some (ti, elems) \<Rightarrow> Ok (length elems)
      | None \<Rightarrow> Throw (KeyDoesNotExistException key))"

text \<open>The range the returned iterator pair spans, and \<open>ListItemIterator::operator*\<close>.\<close>

definition get_list :: "('a, kv_variant) alternative \<Rightarrow> key_value_store \<Rightarrow> string \<Rightarrow> kv_variant list cxx" where
  "get_list alt st key =
     (case umap_find (list_value_keys st) key of
        Some (ti, elems) \<Rightarrow>
          (if ti \<noteq> alt_type alt then Throw (InvalidListElementTypeException key ti (alt_type alt))
           else Ok elems)
      | None \<Rightarrow> Throw (KeyDoesNotExistException key))"

definition list_item_deref :: "('a, kv_variant) alternative \<Rightarrow> kv_variant \<Rightarrow> 'a cxx" where
  "list_item_deref alt v = std_get alt v"

section \<open>Sets\<close>

definition add_to_set ::
  "('a, kv_variant) alternative \<Rightarrow> string \<Rightarrow> 'a \<Rightarrow> key_value_store \<Rightarrow> key_value_store cxx"
where
  "add_to_set alt key val st =
     (let (keys, created) = umap_try_emplace key (alt_type alt, []) (set_value_keys st) in
      case umap_find keys key of
        None \<Rightarrow> Fault (Undefined ''iterator returned by try_emplace'')
      | Some (ti, elems) \<Rightarrow>
          (if \<not> created then
             (if ti = alt_type alt then
                (if alt_inject alt val \<in> set elems
                 then Throw (ValueExistInSetException key (kv_show (alt_inject alt val)))
                 else Ok (st\<lparr>set_value_keys :=
                            umap_insert_or_assign key (ti, elems @ [alt_inject alt val]) keys\<rparr>))
              else Throw (InvalidSetElementTypeException key ti (alt_type alt)))
           else
             Ok (st\<lparr>set_value_keys :=
                   umap_insert_or_assign key (alt_type alt, List.insert (alt_inject alt val) elems) keys\<rparr>)))"

definition set_key_exist :: "key_value_store \<Rightarrow> string \<Rightarrow> bool" where
  "set_key_exist st key = umap_contains (set_value_keys st) key"

definition list_key_exist :: "key_value_store \<Rightarrow> string \<Rightarrow> bool" where
  "list_key_exist st key = umap_contains (list_value_keys st) key"

definition value_key_exist :: "key_value_store \<Rightarrow> string \<Rightarrow> bool" where
  "value_key_exist st key = umap_contains (single_value_keys st) key"

text \<open>
  The code binds a reference into the iterator's element before it compares the iterator
  with \<open>end()\<close>; the reference is read only when the comparison succeeds.
\<close>

definition contains_in_set :: "('a, kv_variant) alternative \<Rightarrow> key_value_store \<Rightarrow> string \<Rightarrow> 'a \<Rightarrow> bool cxx" where
  "contains_in_set alt st key val =
     (case umap_find (set_value_keys st) key of
        Some (ti, elems) \<Rightarrow>
          (if ti = alt_type alt then Ok (alt_inject alt val \<in> set elems)
           else Throw (InvalidSetElementTypeException key ti (alt_type alt)))
      | None \<Rightarrow> Throw (KeyDoesNotExistException key))"

section \<open>\<open>KeyComplexValueStore\<close>\<close>

text \<open>A map from keys to pointers, here to the objects they point to.\<close>

type_synonym 'o key_complex_value_store = "(string, 'o) umap"

definition add_value :: "string \<Rightarrow> 'o \<Rightarrow> 'o key_complex_value_store \<Rightarrow> 'o key_complex_value_store" where
  "add_value key val st = umap_insert_or_assign key val st"

definition get_value :: "'o key_complex_value_store \<Rightarrow> string \<Rightarrow> 'o cxx" where
  "get_value st key =
     (case umap_find st key of
        Some v \<Rightarrow> Ok v
      | None \<Rightarrow> Throw (Runtime_error (''no key in complex store '' @ key)))"

definition complex_contains :: "'o key_complex_value_store \<Rightarrow> string \<Rightarrow> bool" where
  "complex_contains st key = umap_contains st key"

section \<open>Invariant\<close>

definition typed_elems :: "type_index \<times> kv_variant list \<Rightarrow> bool" where
  "typed_elems g \<longleftrightarrow> list_all (\<lambda>v. kv_variant_type v = fst g) (snd g)"

definition kv_wf :: "key_value_store \<Rightarrow> bool" where
  "kv_wf st \<longleftrightarrow>
     umap_wf (single_value_keys st) \<and> umap_wf (list_value_keys st) \<and> umap_wf (set_value_keys st) \<and>
     list_all (\<lambda>(k, g). typed_elems g \<and> snd g \<noteq> []) (list_value_keys st) \<and>
     list_all (\<lambda>(k, g). typed_elems g \<and> distinct (snd g) \<and> snd g \<noteq> []) (set_value_keys st)"


lemma kv_wf_empty: "kv_wf empty_store"
  by (simp add: kv_wf_def empty_store_def umap_wf_def)

lemma kv_add_wf [wf_intros]: "kv_wf st \<Longrightarrow> kv_wf (kv_add alt k v st)"
  by (simp add: kv_wf_def kv_add_def um.wf_assign)

text \<open>The writes in closed form, with \<open>try_emplace\<close> resolved.\<close>

lemma add_to_list_cases:
  "add_to_list alt k v st =
     (case umap_find (list_value_keys st) k of
        None \<Rightarrow> Ok (st\<lparr>list_value_keys := list_value_keys st @ [(k, (alt_type alt, [alt_inject alt v]))]\<rparr>)
      | Some (ti, elems) \<Rightarrow>
          (if ti = alt_type alt
           then Ok (st\<lparr>list_value_keys := umap_insert_or_assign k (ti, elems @ [alt_inject alt v])
                  (list_value_keys st)\<rparr>)
           else Throw (InvalidListElementTypeException k ti (alt_type alt))))"
  by (auto simp: add_to_list_def umap_emplace_new umap_emplace_old umap_find_append umap_find_Cons
      umap_assign_fresh_append split: option.splits)

lemma add_to_set_cases:
  "add_to_set alt k v st =
     (case umap_find (set_value_keys st) k of
        None \<Rightarrow> Ok (st\<lparr>set_value_keys := set_value_keys st @ [(k, (alt_type alt, [alt_inject alt v]))]\<rparr>)
      | Some (ti, elems) \<Rightarrow>
          (if ti \<noteq> alt_type alt then Throw (InvalidSetElementTypeException k ti (alt_type alt))
           else if alt_inject alt v \<in> set elems
           then Throw (ValueExistInSetException k (kv_show (alt_inject alt v)))
           else Ok (st\<lparr>set_value_keys := umap_insert_or_assign k (ti, elems @ [alt_inject alt v])
                  (set_value_keys st)\<rparr>)))"
  by (auto simp: add_to_set_def umap_emplace_new umap_emplace_old umap_find_append umap_find_Cons
      umap_assign_fresh_append split: option.splits)

lemma kv_wf_list:
  "kv_wf st \<Longrightarrow> umap_find (list_value_keys st) k = Some g \<Longrightarrow> typed_elems g \<and> snd g \<noteq> []"
  by (auto simp: kv_wf_def dest: list_all_find)

lemma kv_wf_set:
  "kv_wf st \<Longrightarrow> umap_find (set_value_keys st) k = Some g \<Longrightarrow>
   typed_elems g \<and> distinct (snd g) \<and> snd g \<noteq> []"
  by (auto simp: kv_wf_def dest: list_all_find)

lemma typed_elems_snoc [simp]:
  "typed_elems (ti, elems @ [v]) \<longleftrightarrow> typed_elems (ti, elems) \<and> kv_variant_type v = ti"
  by (auto simp: typed_elems_def)

lemma typed_elems_simps [simp]:
  "typed_elems (ti, [])" "typed_elems (ti, [v]) \<longleftrightarrow> kv_variant_type v = ti"
  by (simp_all add: typed_elems_def)

lemma add_to_list_wf:
  assumes "variant_alternative kv_variant_type alt" and "kv_wf st" and "add_to_list alt k v st = Ok st'"
  shows "kv_wf st'"
  using assms(2,3) kv_wf_list [OF assms(2), of k]
  by (auto simp: add_to_list_cases kv_wf_def um.wf_assign umap_wf_append
      variant_alternative.type_of_inject [OF assms(1)] split: option.splits if_splits
      intro!: list_all_assign)

lemma add_to_set_wf:
  assumes "variant_alternative kv_variant_type alt" and "kv_wf st" and "add_to_set alt k v st = Ok st'"
  shows "kv_wf st'"
  using assms(2,3) kv_wf_set [OF assms(2), of k]
  by (auto simp: add_to_set_cases kv_wf_def um.wf_assign umap_wf_append
      variant_alternative.type_of_inject [OF assms(1)] split: option.splits if_splits
      intro!: list_all_assign)

text \<open>
  A store built by its own operations stays well formed: the keys of each name space are
  unique, every list and set holds values of the one type recorded for it, no list or set is
  empty, and no set holds a value twice.
\<close>

theorem store_operations_keep_wf:
  assumes "variant_alternative kv_variant_type alt" and "kv_wf st"
  shows "kv_wf (kv_add alt k v st) \<and>
    (\<forall>st'. add_to_list alt k v st = Ok st' \<longrightarrow> kv_wf st') \<and>
    (\<forall>st'. add_to_set alt k v st = Ok st' \<longrightarrow> kv_wf st')"
  using assms by (auto intro: kv_add_wf add_to_list_wf add_to_set_wf)

theorem store_operations_keep_wf_witness: "kv_wf (kv_add kv_int32_alt ''k1'' 1234 empty_store)"
  using store_operations_keep_wf [OF kv_int32.variant_alternative_axioms kv_wf_empty] by blast

section \<open>Reads after writes\<close>

lemma kv_get_add:
  "kv_get alt' (kv_add alt k v st) k' =
     (if k' = k then catch_if is_std_exception (\<lambda>ex. Throw (TypeMismatchException k (alt_type alt')))
        (std_get alt' (alt_inject alt v))
      else kv_get alt' st k')"
  by (auto simp: kv_get_def kv_add_def um.find_assign)

text \<open>
  A single value is read back with its type; reading it as another type is a
  \<open>TypeMismatchException\<close> that names the key and the requested type; writing one key does not change
  the others; and an overwrite may change the type.
\<close>

theorem add_then_get:
  assumes "variant_alternative kv_variant_type alt" and "variant_alternative kv_variant_type alt'"
  shows "kv_get alt (kv_add alt k v st) k = Ok v \<and>
    (alt_type alt' \<noteq> alt_type alt \<longrightarrow>
       kv_get alt' (kv_add alt k v st) k = Throw (TypeMismatchException k (alt_type alt'))) \<and>
    (k' \<noteq> k \<longrightarrow> kv_get alt' (kv_add alt k v st) k' = kv_get alt' st k')"
  using variant_alternative.std_get_inject [OF assms(1)]
    variant_alternative.std_get_Throw [OF assms(2), of "alt_inject alt v"]
    variant_alternative.type_of_inject [OF assms(1)]
  by (auto simp: kv_get_add)

theorem add_then_get_witness:
  "kv_get kv_string_alt (kv_add kv_int32_alt ''k1'' 1234 empty_store) ''k1''
     = Throw (TypeMismatchException ''k1'' T_string)"
  using add_then_get [OF kv_int32.variant_alternative_axioms kv_str.variant_alternative_axioms]
  by (simp add: kv_int32_alt_def kv_string_alt_def)

text \<open>The lists as the abstract function from keys to typed sequences.\<close>

definition list_view :: "key_value_store \<Rightarrow> string \<Rightarrow> (type_index \<times> kv_variant list) option" where
  "list_view st k = umap_find (list_value_keys st) k"

lemmas list_reads = get_list_count_def [folded list_view_def] get_at_list_def [folded list_view_def]
  get_front_list_def [folded list_view_def] get_back_list_def [folded list_view_def]
  get_list_def [folded list_view_def]

lemma add_to_list_view:
  "add_to_list alt k v st = Ok st' \<Longrightarrow>
   list_view st' = (list_view st)(k \<mapsto>
     (alt_type alt, (case list_view st k of None \<Rightarrow> [] | Some (ti, elems) \<Rightarrow> elems) @ [alt_inject alt v]))"
  by (auto simp: add_to_list_cases list_view_def fun_eq_iff um.find_assign umap_find_append umap_find_Cons
      split: option.splits if_splits)

text \<open>
  C36: Lists refine the abstract view "append at the end": an accepted \<open>add_to_list\<close> appends exactly
  one element to exactly one list, the count grows by one, the new element is at the back and
  at the old count, and the element at the front and all earlier positions stay.
\<close>

theorem add_to_list_appends:
  assumes "variant_alternative kv_variant_type alt"
    and "add_to_list alt k v st = Ok st'"
    and "n = (case list_view st k of None \<Rightarrow> 0 | Some (ti, elems) \<Rightarrow> length elems)" and "n < 2 ^ 32"
  shows "get_list_count st' k = Ok (Suc n) \<and> get_back_list alt st' k = Ok v \<and>
    get_at_list alt st' k (of_nat n) = Ok v \<and>
    (\<forall>i. unat i < n \<longrightarrow> get_at_list alt st' k i = get_at_list alt st k i) \<and>
    (0 < n \<longrightarrow> get_front_list alt st' k = get_front_list alt st k) \<and>
    (\<forall>k'. k' \<noteq> k \<longrightarrow> list_view st' k' = list_view st k')"
proof -
  obtain elems where st': "list_view st' k = Some (alt_type alt, elems @ [alt_inject alt v])"
    and n: "n = length elems" and old: "0 < n \<longrightarrow> list_view st k = Some (alt_type alt, elems)"
    using assms(2,3) add_to_list_view [OF assms(2)]
    by (auto simp: add_to_list_cases list_view_def split: option.splits if_splits)
  have frame: "\<forall>k'. k' \<noteq> k \<longrightarrow> list_view st' k' = list_view st k'"
    by (simp add: add_to_list_view [OF assms(2)])
  have len: "length elems < 4294967296" using assms(4) n by simp
  have reads: "\<forall>i. unat i < n \<longrightarrow> get_at_list alt st' k i = get_at_list alt st k i"
    "0 < n \<longrightarrow> get_front_list alt st' k = get_front_list alt st k"
    using old by (auto simp: list_reads st' n nth_append split: list.splits)
  show ?thesis
    using frame reads len variant_alternative.std_get_inject [OF assms(1)]
    by (simp add: list_reads st' n)
qed

definition one_element_store :: key_value_store where
  "one_element_store = \<lparr>single_value_keys = [],
     list_value_keys = [(''k1'', (T_int32, [KV_int32 1234]))], set_value_keys = []\<rparr>"

lemma one_element_store_facts:
  "add_to_list kv_int32_alt ''k1'' 1234 empty_store = Ok one_element_store"
  "kv_wf one_element_store"
  by (simp_all add: add_to_list_cases empty_store_def one_element_store_def kv_int32_alt_def
      umap_find_def kv_wf_def umap_wf_def)

theorem add_to_list_appends_witness:
  "get_list_count one_element_store ''k1'' = Ok 1 \<and> get_back_list kv_int32_alt one_element_store ''k1'' = Ok 1234"
  using add_to_list_appends [OF kv_int32.variant_alternative_axioms
      one_element_store_facts(1), of 0]
  by (simp add: list_view_def empty_store_def umap_find_def)

section \<open>The contracts of the readers\<close>

text \<open>
  What a stage that filters on sets relies on: a missing key is reported as such, and for an
  existing key the store answers membership in one fixed set, or refuses every query.
\<close>

locale set_reader =
  fixes key_exist :: "'s \<Rightarrow> string \<Rightarrow> bool"
    and contains :: "'s \<Rightarrow> string \<Rightarrow> string \<Rightarrow> bool cxx"
  assumes contains_missing:
      "\<not> key_exist s k \<Longrightarrow> contains s k v = Throw (KeyDoesNotExistException k)"
    and contains_existing:
      "key_exist s k \<Longrightarrow> (\<exists>S. \<forall>v. contains s k v = Ok (v \<in> S)) \<or>
         (\<exists>t. \<forall>v. contains s k v = Throw (InvalidSetElementTypeException k t T_string))"
begin

lemma contains_not_Fault: "contains s k v \<noteq> Fault f"
  using contains_missing [of s k v] contains_existing [of s k] by (cases "key_exist s k") auto

lemma contains_throws_std: "contains s k v = Throw e \<Longrightarrow> is_std_exception e"
  using contains_missing [of s k v] contains_existing [of s k] by (cases "key_exist s k") force+

lemma contains_never_missing_if_exists:
  "key_exist s k \<Longrightarrow> contains s k v \<noteq> Throw (KeyDoesNotExistException k')"
  using contains_existing [of s k] by force

end

interpretation kv_sets: set_reader set_key_exist "contains_in_set kv_string_alt"
proof unfold_locales
  fix s k v
  show "\<not> set_key_exist s k \<Longrightarrow> contains_in_set kv_string_alt s k v = Throw (KeyDoesNotExistException k)"
    by (auto simp: set_key_exist_def umap_contains_def contains_in_set_def split: option.splits)
next
  fix s k
  assume "set_key_exist s k"
  then obtain ti elems where "umap_find (set_value_keys s) k = Some (ti, elems)"
    by (auto simp: set_key_exist_def umap_contains_def)
  then show "(\<exists>S. \<forall>v. contains_in_set kv_string_alt s k v = Ok (v \<in> S)) \<or>
      (\<exists>t. \<forall>v. contains_in_set kv_string_alt s k v = Throw (InvalidSetElementTypeException k t T_string))"
    by (cases "ti = T_string")
      (auto simp: contains_in_set_def kv_string_alt_def intro: exI [of _ "{v. KV_string v \<in> set elems}"])
qed

text \<open>
  What a stage that walks a list by position relies on: a list that can be counted is not empty, and
  reading any position below the count finds an element, or an element of another type.
\<close>

locale list_reader =
  fixes store_wf :: "'s \<Rightarrow> bool"
    and count :: "'s \<Rightarrow> string \<Rightarrow> nat cxx"
    and at :: "'s \<Rightarrow> string \<Rightarrow> u32 \<Rightarrow> string cxx"
  assumes count_pos: "store_wf s \<Longrightarrow> count s k = Ok n \<Longrightarrow> 0 < n"
    and count_result: "(\<exists>m. count s k = Ok m) \<or> count s k = Throw (KeyDoesNotExistException k)"
    and at_in_range: "count s k = Ok n \<Longrightarrow> unat i < n \<Longrightarrow>
      (\<exists>x. at s k i = Ok x) \<or> at s k i = Throw Bad_variant_access"
    and at_not_Fault: "at s k i \<noteq> Fault f"
begin

lemma at_never_out_of_range: "count s k = Ok n \<Longrightarrow> unat i < n \<Longrightarrow> at s k i \<noteq> Throw Out_of_range"
  using at_in_range [of s k n i] by auto

lemma remainder_in_range:
  "store_wf s \<Longrightarrow> count s k = Ok n \<Longrightarrow> n < 2 ^ 32 \<Longrightarrow> unat (j mod of_nat n :: u32) < n"
  using count_pos [of s k n] by (simp add: unat_mod)

end

interpretation kv_lists: list_reader kv_wf get_list_count "get_at_list kv_string_alt"
proof unfold_locales
  fix s k n i f
  show "kv_wf s \<Longrightarrow> get_list_count s k = Ok n \<Longrightarrow> 0 < n"
    using kv_wf_list [of s k] by (auto simp: get_list_count_def split: option.splits)
  show "(\<exists>m. get_list_count s k = Ok m) \<or> get_list_count s k = Throw (KeyDoesNotExistException k)"
    by (auto simp: get_list_count_def split: option.splits)
  show "get_list_count s k = Ok n \<Longrightarrow> unat i < n \<Longrightarrow>
      (\<exists>x. get_at_list kv_string_alt s k i = Ok x) \<or> get_at_list kv_string_alt s k i = Throw Bad_variant_access"
    by (auto simp: get_list_count_def get_at_list_def std_get_def split: option.splits)
  show "get_at_list kv_string_alt s k i \<noteq> Fault f"
    by (auto simp: get_at_list_def std_get_def split: option.splits)
qed

text \<open>
  Sets: an accepted \<open>add_to_set\<close> adds exactly its value, a value already there is refused, and a
  query answers membership of exactly the values added; a value never added is not reported,
  whatever else is in the set.
\<close>

theorem add_to_set_membership:
  assumes "variant_alternative kv_variant_type alt"
  shows "(add_to_set alt k v st = Ok st' \<longrightarrow>
       contains_in_set alt st' k v = Ok True \<and> set_key_exist st' k \<and>
       (\<forall>w. w \<noteq> v \<longrightarrow> contains_in_set alt st' k w =
          (if set_key_exist st k then contains_in_set alt st k w else Ok False)) \<and>
       add_to_set alt k v st' = Throw (ValueExistInSetException k (kv_show (alt_inject alt v)))) \<and>
    (add_to_set alt k v st = Throw (ValueExistInSetException k (kv_show (alt_inject alt v))) \<longleftrightarrow>
       contains_in_set alt st k v = Ok True)"
  by (auto simp: add_to_set_cases contains_in_set_def set_key_exist_def umap_contains_def um.find_assign
      umap_find_append umap_find_Cons variant_alternative.inject_inject [OF assms]
      split: option.splits if_splits)

theorem add_to_set_membership_witness:
  "\<exists>s1 s2. add_to_set kv_int32_alt ''k1'' 3333 empty_store = Ok s1 \<and>
     add_to_set kv_int32_alt ''k1'' 87878 s1 = Ok s2 \<and> contains_in_set kv_int32_alt s2 ''k1'' 1234 = Ok False"
proof -
  define s1 where "s1 = empty_store\<lparr>set_value_keys := [(''k1'', (T_int32, [KV_int32 3333]))]\<rparr>"
  define s2 where "s2 = empty_store\<lparr>set_value_keys := [(''k1'', (T_int32, [KV_int32 3333, KV_int32 87878]))]\<rparr>"
  have 1: "add_to_set kv_int32_alt ''k1'' 3333 empty_store = Ok s1"
    and 2: "add_to_set kv_int32_alt ''k1'' 87878 s1 = Ok s2"
    by (simp_all add: add_to_set_cases s1_def s2_def empty_store_def kv_int32_alt_def umap_find_def
        umap_insert_or_assign_def)
  have "contains_in_set kv_int32_alt s2 ''k1'' 1234 = contains_in_set kv_int32_alt s1 ''k1'' 1234"
    using add_to_set_membership [OF kv_int32.variant_alternative_axioms, of "''k1''" 87878 s1 s2] 2
    by (simp add: set_key_exist_def umap_contains_def s1_def umap_find_def)
  also have "\<dots> = Ok False"
    by (simp add: contains_in_set_def s1_def umap_find_def kv_int32_alt_def)
  finally show ?thesis using 1 2 by blast
qed

end
