(* ===== verification/Base_Stage.thy ===== *)
theory Base_Stage
  imports Foundation
begin

text \<open>
  \<open>src/event_processing/base_impl\<close>: the registry of named sources and sinks every stage
  inherits from \<open>BaseStage\<close>, \<open>BaseSource\<close>, which forwards to the sink it is connected to,
  and \<open>ForwardingSink\<close>. A stage's handler is modelled as a function that returns its
  emissions, each the name of a registered source with the message handed to it, in order;
  \<open>base_source_emit\<close> is what one emission does at a connected source.
\<close>

section \<open>\<open>BaseSource\<close> and \<open>ForwardingSink\<close>\<close>

text \<open>The pointer \<open>_sink\<close> is null (\<open>None\<close>) until \<open>set_sink\<close> is called.\<close>

record 'snk base_source =
  source_sink :: "'snk option"

definition new_base_source :: "'snk base_source" where
  "new_base_source = \<lparr>source_sink = None\<rparr>"

definition base_source_get_sink :: "'snk base_source \<Rightarrow> 'snk option" where
  "base_source_get_sink src = source_sink src"

definition base_source_set_sink :: "'snk option \<Rightarrow> 'snk base_source \<Rightarrow> 'snk base_source" where
  "base_source_set_sink snk src = src\<lparr>source_sink := snk\<rparr>"

text \<open>\<open>source.get_sink()->on_message(message)\<close>: a null sink is dereferenced.\<close>

definition base_source_emit :: "'snk base_source \<Rightarrow> 'm \<Rightarrow> ('snk \<times> 'm) cxx" where
  "base_source_emit src msg =
     (case base_source_get_sink src of
        Some snk \<Rightarrow> Ok (snk, msg)
      | None \<Rightarrow> Fault (Undefined ''call through a null sink''))"

text \<open>A \<open>ForwardingSink\<close> calls the function it was constructed with.\<close>

definition forwarding_on_message :: "('m \<Rightarrow> 'r) \<Rightarrow> 'm \<Rightarrow> 'r" where
  "forwarding_on_message forward_fun msg = forward_fun msg"

section \<open>\<open>BaseStage\<close>\<close>

record ('src, 'snk) base_stage =
  stage_name :: string
  stage_sources :: "(string, 'src) umap"
  stage_sinks :: "(string, 'snk) umap"

definition new_base_stage :: "string \<Rightarrow> ('src, 'snk) base_stage" where
  "new_base_stage name = \<lparr>stage_name = name, stage_sources = [], stage_sinks = []\<rparr>"

definition register_source :: "string \<Rightarrow> 'src \<Rightarrow> ('src, 'snk) base_stage \<Rightarrow> ('src, 'snk) base_stage cxx" where
  "register_source nm src st =
     (let (srcs, success) = umap_try_emplace nm src (stage_sources st) in
      if \<not> success
      then Throw (SourceExistException
             (''['' @ stage_name st @ ''] Source with the name '' @ nm @ '' already exists''))
      else Ok (st\<lparr>stage_sources := srcs\<rparr>))"

definition register_sink :: "string \<Rightarrow> 'snk \<Rightarrow> ('src, 'snk) base_stage \<Rightarrow> ('src, 'snk) base_stage cxx" where
  "register_sink nm snk st =
     (let (snks, success) = umap_try_emplace nm snk (stage_sinks st) in
      if \<not> success
      then Throw (SinkExistException
             (''['' @ stage_name st @ ''] Sink with the name '' @ nm @ '' already exists''))
      else Ok (st\<lparr>stage_sinks := snks\<rparr>))"

definition get_sink :: "('src, 'snk) base_stage \<Rightarrow> string \<Rightarrow> 'snk cxx" where
  "get_sink st nm =
     (case umap_find (stage_sinks st) nm of
        Some snk \<Rightarrow> Ok snk
      | None \<Rightarrow> Throw (SinkDoesNotExistException
          (''['' @ stage_name st @ '']'' @ ''No sink found by the name '' @ nm)))"

definition get_source :: "('src, 'snk) base_stage \<Rightarrow> string \<Rightarrow> 'src cxx" where
  "get_source st nm =
     (case umap_find (stage_sources st) nm of
        Some src \<Rightarrow> Ok src
      | None \<Rightarrow> Throw (SourceDoesNotExistException
          (''['' @ stage_name st @ '']'' @ ''No source found by the name '' @ nm)))"

text \<open>The registrations a stage's constructor makes, in its order.\<close>

fun register_sources :: "(string \<times> 'src) list \<Rightarrow> ('src, 'snk) base_stage \<Rightarrow> ('src, 'snk) base_stage cxx" where
  "register_sources [] st = Ok st"
| "register_sources ((nm, src) # rest) st = and_then (register_source nm src st) (register_sources rest)"

fun register_sinks :: "(string \<times> 'snk) list \<Rightarrow> ('src, 'snk) base_stage \<Rightarrow> ('src, 'snk) base_stage cxx" where
  "register_sinks [] st = Ok st"
| "register_sinks ((nm, snk) # rest) st = and_then (register_sink nm snk st) (register_sinks rest)"

section \<open>Lemmas\<close>

type_synonym 'm emission = "string \<times> 'm"

lemma register_source_cases:
  "register_source nm src st =
     (if umap_contains (stage_sources st) nm
      then Throw (SourceExistException
             (''['' @ stage_name st @ ''] Source with the name '' @ nm @ '' already exists''))
      else Ok (st\<lparr>stage_sources := stage_sources st @ [(nm, src)]\<rparr>))"
  by (simp add: register_source_def umap_emplace_cases)

lemma register_sink_cases:
  "register_sink nm snk st =
     (if umap_contains (stage_sinks st) nm
      then Throw (SinkExistException
             (''['' @ stage_name st @ ''] Sink with the name '' @ nm @ '' already exists''))
      else Ok (st\<lparr>stage_sinks := stage_sinks st @ [(nm, snk)]\<rparr>))"
  by (simp add: register_sink_def umap_emplace_cases)

lemma umap_contains_append [simp]:
  "umap_contains (m @ m') k \<longleftrightarrow> umap_contains m k \<or> umap_contains m' k"
  by (auto simp: umap_contains_def umap_find_append split: option.splits)

lemma umap_contains_keys: "umap_contains m k \<longleftrightarrow> k \<in> fst ` set m"
  by (auto simp: umap_contains_def umap_find_def map_of_eq_None_iff)

text \<open>
  A registered source or sink is found under its name from then on, registering does not
  affect other names, an unregistered name is reported, and a name registered before is
  refused without replacing the earlier registration.
\<close>

theorem registry_lookup:
  assumes "register_source nm src st = Ok st'"
  shows "get_source st' nm = Ok src \<and>
    (\<forall>nm'. nm' \<noteq> nm \<longrightarrow> get_source st' nm' = get_source st nm') \<and>
    (\<forall>nm'. get_sink st' nm' = get_sink st nm') \<and>
    (\<exists>w. register_source nm src2 st' = Throw (SourceExistException w)) \<and>
    (\<exists>w. get_source st nm = Throw (SourceDoesNotExistException w))"
  using assms
  by (auto simp: register_source_cases get_source_def get_sink_def umap_find_append umap_find_Cons
      umap_contains_def split: if_splits option.splits)

theorem registry_lookup_witness:
  "register_source ''out'' (1::nat) (new_base_stage ''s'' :: (nat, nat) base_stage) =
     Ok (\<lparr>stage_name = ''s'', stage_sources = [(''out'', 1)], stage_sinks = []\<rparr>) \<and>
   get_source (\<lparr>stage_name = ''s'', stage_sources = [(''out'', 1)], stage_sinks = []\<rparr>
     :: (nat, nat) base_stage) ''out'' = Ok (1::nat)"
proof -
  have r: "register_source ''out'' (1::nat) (new_base_stage ''s'' :: (nat, nat) base_stage) =
     Ok (\<lparr>stage_name = ''s'', stage_sources = [(''out'', 1)], stage_sinks = []\<rparr>)"
    by (simp add: register_source_cases new_base_stage_def umap_contains_keys)
  show ?thesis using r registry_lookup [OF r] by blast
qed

text \<open>A constructor with distinct fresh names never throws, and registers them all.\<close>

lemma register_sources_ok:
  "distinct (map fst ps) \<Longrightarrow> fst ` set ps \<inter> fst ` set (stage_sources st) = {} \<Longrightarrow>
   register_sources ps st = Ok (st\<lparr>stage_sources := stage_sources st @ ps\<rparr>)"
proof (induction ps arbitrary: st)
  case Nil
  then show ?case by simp
next
  case (Cons p ps)
  then show ?case
    by (cases p) (auto simp: register_source_cases umap_contains_keys)
qed

lemma register_sinks_ok:
  "distinct (map fst ps) \<Longrightarrow> fst ` set ps \<inter> fst ` set (stage_sinks st) = {} \<Longrightarrow>
   register_sinks ps st = Ok (st\<lparr>stage_sinks := stage_sinks st @ ps\<rparr>)"
proof (induction ps arbitrary: st)
  case Nil
  then show ?case by simp
next
  case (Cons p ps)
  then show ?case
    by (cases p) (auto simp: register_sink_cases umap_contains_keys)
qed

lemma emit_after_set_sink [simp]:
  "base_source_emit (base_source_set_sink (Some snk) src) msg = Ok (snk, msg)"
  by (simp add: base_source_emit_def base_source_get_sink_def base_source_set_sink_def)

end
