(* ===== verification/Sliding_Log.thy ===== *)
theory Sliding_Log
  imports Foundation
begin

text \<open>
  \<open>src/stages/throttling_stages/throttler.h\<close> and \<open>sliding_log_throttler.h\<close>: the interface
  \<open>IThrottler\<close> as the locale \<open>throttler\<close>, \<open>SlidingLogThrottler\<close> with its log of request
  time stamps, \<open>std::lower_bound\<close> as the halving loop it is, and the refinement of the lazily
  truncated log to the exact sliding window over the whole request history.
\<close>

section \<open>\<open>std::lower_bound\<close>\<close>

function lower_bound_loop :: "'a::linorder list \<Rightarrow> 'a \<Rightarrow> nat \<Rightarrow> nat \<Rightarrow> nat" where
  "lower_bound_loop xs v first len =
     (if len = 0 then first
      else let half = len div 2; middle = first + half in
        if xs ! middle < v then lower_bound_loop xs v (Suc middle) (len - half - 1)
        else lower_bound_loop xs v first half)"
  by pat_completeness auto
termination
  by (relation "measure (\<lambda>(xs, v, first, len). len)") auto

declare lower_bound_loop.simps [simp del]

definition lower_bound :: "'a::linorder list \<Rightarrow> 'a \<Rightarrow> nat" where
  "lower_bound xs v = lower_bound_loop xs v 0 (length xs)"

lemma lower_bound_loop_step:
  "lower_bound_loop xs v first 0 = first"
  "len \<noteq> 0 \<Longrightarrow> xs ! (first + len div 2) < v \<Longrightarrow>
   lower_bound_loop xs v first len = lower_bound_loop xs v (Suc (first + len div 2)) (len - len div 2 - 1)"
  "len \<noteq> 0 \<Longrightarrow> \<not> xs ! (first + len div 2) < v \<Longrightarrow>
   lower_bound_loop xs v first len = lower_bound_loop xs v first (len div 2)"
  by (simp_all add: lower_bound_loop.simps [of xs v first len] lower_bound_loop.simps [of xs v first 0] Let_def)

text \<open>
  The loop keeps the answer inside \<open>[first, first + len]\<close>: everything before is smaller than
  the value, everything from the end of the interval on is not.
\<close>

definition lower_bound_inv :: "'a::linorder list \<Rightarrow> 'a \<Rightarrow> nat \<Rightarrow> nat \<Rightarrow> bool" where
  "lower_bound_inv xs v first len \<longleftrightarrow> first + len \<le> length xs \<and> (\<forall>i < first. xs ! i < v) \<and>
     (\<forall>i. first + len \<le> i \<longrightarrow> i < length xs \<longrightarrow> v \<le> xs ! i)"

lemma lower_bound_inv_right:
  assumes "sorted xs" and "lower_bound_inv xs v first len" and "len \<noteq> 0" and "xs ! (first + len div 2) < v"
  shows "lower_bound_inv xs v (Suc (first + len div 2)) (len - len div 2 - 1)"
proof -
  have mid: "first + len div 2 < length xs" and len: "Suc (first + len div 2) + (len - len div 2 - 1) = first + len"
    using assms(2,3) by (auto simp: lower_bound_inv_def)
  have "xs ! i < v" if "i < Suc (first + len div 2)" for i
    using sorted_nth_mono [OF assms(1), of i "first + len div 2"] that mid assms(4) by auto
  then show ?thesis using assms(2) len by (simp add: lower_bound_inv_def)
qed

lemma lower_bound_inv_left:
  assumes "sorted xs" and "lower_bound_inv xs v first len" and "\<not> xs ! (first + len div 2) < v"
  shows "lower_bound_inv xs v first (len div 2)"
proof -
  have "v \<le> xs ! i" if "first + len div 2 \<le> i" "i < length xs" for i
    using sorted_nth_mono [OF assms(1) that] assms(3) by simp
  moreover have "first + len div 2 \<le> length xs" using assms(2) by (auto simp: lower_bound_inv_def)
  ultimately show ?thesis using assms(2) by (simp add: lower_bound_inv_def)
qed

lemma lower_bound_loop_inv:
  assumes "sorted xs" and "lower_bound_inv xs v first len"
  shows "lower_bound_inv xs v (lower_bound_loop xs v first len) 0"
  using assms(2)
proof (induction len arbitrary: first rule: less_induct)
  case (less len)
  show ?case
  proof (cases "len = 0")
    case True
    with less.prems show ?thesis by (simp add: lower_bound_loop_step)
  next
    case nonempty: False
    show ?thesis
    proof (cases "xs ! (first + len div 2) < v")
      case True
      from less.IH [OF _ lower_bound_inv_right [OF assms(1) less.prems nonempty True]] nonempty
      show ?thesis by (simp add: lower_bound_loop_step(2) [OF nonempty True])
    next
      case False
      from less.IH [OF _ lower_bound_inv_left [OF assms(1) less.prems False]] nonempty
      show ?thesis by (simp add: lower_bound_loop_step(3) [OF nonempty False])
    qed
  qed
qed

lemma lower_bound_drop:
  assumes "sorted xs"
  shows "lower_bound xs v \<le> length xs" and "drop (lower_bound xs v) xs = filter (\<lambda>x. v \<le> x) xs"
proof -
  let ?k = "lower_bound xs v"
  have "lower_bound_inv xs v 0 (length xs)" by (simp add: lower_bound_inv_def)
  then have inv: "lower_bound_inv xs v ?k 0"
    unfolding lower_bound_def by (rule lower_bound_loop_inv [OF assms])
  then have k: "?k \<le> length xs" "\<forall>i < ?k. xs ! i < v" "\<forall>i. ?k \<le> i \<longrightarrow> i < length xs \<longrightarrow> v \<le> xs ! i"
    by (simp_all add: lower_bound_inv_def)
  have "filter (\<lambda>x. v \<le> x) (take ?k xs) = []"
    using k(1,2) by (auto simp: filter_empty_conv in_set_conv_nth not_le)
  moreover have "filter (\<lambda>x. v \<le> x) (drop ?k xs) = drop ?k xs"
    using k(1,3) by (auto simp: filter_id_conv in_set_conv_nth)
  ultimately have "filter (\<lambda>x. v \<le> x) (take ?k xs @ drop ?k xs) = drop ?k xs"
    by (simp only: filter_append append_Nil)
  then show "drop ?k xs = filter (\<lambda>x. v \<le> x) xs" by simp
  show "?k \<le> length xs" by (rule k(1))
qed

section \<open>\<open>SlidingLogThrottler\<close>\<close>

record sliding_log_throttler =
  window_duration :: u64
  allowed_request_count :: u64
  request_time_stamp_log :: "u64 list"

definition new_sliding_log_throttler :: "u64 \<Rightarrow> u64 \<Rightarrow> sliding_log_throttler" where
  "new_sliding_log_throttler w n =
     \<lparr>window_duration = w, allowed_request_count = n, request_time_stamp_log = []\<rparr>"

text \<open>The bound \<open>time_stamp - _window_duration\<close> is computed in \<open>size_t\<close> and wraps around.\<close>

definition truncate_log :: "u64 \<Rightarrow> sliding_log_throttler \<Rightarrow> sliding_log_throttler" where
  "truncate_log time_stamp t =
     t\<lparr>request_time_stamp_log :=
         drop (lower_bound (request_time_stamp_log t) (time_stamp - window_duration t))
           (request_time_stamp_log t)\<rparr>"

definition add_timestamp :: "u64 \<Rightarrow> sliding_log_throttler \<Rightarrow> sliding_log_throttler" where
  "add_timestamp time_stamp t =
     (let t' = t\<lparr>request_time_stamp_log := request_time_stamp_log t @ [time_stamp]\<rparr> in
      if length (request_time_stamp_log t') \<ge> unat (allowed_request_count t')
      then truncate_log time_stamp t' else t')"

definition re_evaluate :: "u64 \<Rightarrow> sliding_log_throttler \<Rightarrow> sliding_log_throttler" where
  "re_evaluate time_stamp t =
     (if length (request_time_stamp_log t) \<ge> unat (allowed_request_count t)
      then truncate_log time_stamp t else t)"

definition is_allowed :: "sliding_log_throttler \<Rightarrow> bool" where
  "is_allowed t \<longleftrightarrow> length (request_time_stamp_log t) \<le> unat (allowed_request_count t)"

definition get_window_duration :: "sliding_log_throttler \<Rightarrow> u64" where
  "get_window_duration t = window_duration t"

definition get_allowed_request_count :: "sliding_log_throttler \<Rightarrow> u64" where
  "get_allowed_request_count t = allowed_request_count t"

definition set_window_duration :: "u64 \<Rightarrow> sliding_log_throttler \<Rightarrow> sliding_log_throttler" where
  "set_window_duration w t = t\<lparr>window_duration := w\<rparr>"

definition set_allowed_request_count :: "u64 \<Rightarrow> sliding_log_throttler \<Rightarrow> sliding_log_throttler" where
  "set_allowed_request_count n t = t\<lparr>allowed_request_count := n\<rparr>"

lemma truncate_log_params [simp]:
  "window_duration (truncate_log ts t) = window_duration t"
  "allowed_request_count (truncate_log ts t) = allowed_request_count t"
  by (simp_all add: truncate_log_def)

lemma add_timestamp_params [simp]:
  "window_duration (add_timestamp ts t) = window_duration t"
  "allowed_request_count (add_timestamp ts t) = allowed_request_count t"
  by (simp_all add: add_timestamp_def Let_def)

lemma re_evaluate_params [simp]:
  "window_duration (re_evaluate ts t) = window_duration t"
  "allowed_request_count (re_evaluate ts t) = allowed_request_count t"
  by (simp_all add: re_evaluate_def)

lemma truncate_log_sorted:
  "sorted (request_time_stamp_log t) \<Longrightarrow>
   request_time_stamp_log (truncate_log ts t) =
     filter (\<lambda>x. ts - window_duration t \<le> x) (request_time_stamp_log t)"
  by (simp add: truncate_log_def lower_bound_drop)


section \<open>\<open>IThrottler\<close> as an interface\<close>

text \<open>
  What the state builder relies on, for any throttler: \<open>ok_at ts t\<close> says that \<open>t\<close> may be fed
  time stamps from \<open>ts\<close> on. Feeding keeps it so, a re-evaluation never takes a permission away, and
  repeating a re-evaluation at the same time changes nothing.
\<close>

locale throttler =
  fixes ok_at :: "u64 \<Rightarrow> 't \<Rightarrow> bool"
    and add :: "u64 \<Rightarrow> 't \<Rightarrow> 't"
    and reeval :: "u64 \<Rightarrow> 't \<Rightarrow> 't"
    and allowed :: "'t \<Rightarrow> bool"
  assumes ok_add: "ok_at ts t \<Longrightarrow> ts \<le> ts' \<Longrightarrow> ok_at ts' (add ts' t)"
    and ok_reeval: "ok_at ts t \<Longrightarrow> ts \<le> ts' \<Longrightarrow> ok_at ts' (reeval ts' t)"
    and reeval_keeps_allowed: "allowed t \<Longrightarrow> allowed (reeval ts t)"
    and reeval_idem: "ok_at ts t \<Longrightarrow> reeval ts (reeval ts t) = reeval ts t"
begin

text \<open>A run of requests: each was let through (counted) or suppressed (re-evaluated).\<close>

fun feed :: "(u64 \<times> bool) list \<Rightarrow> 't \<Rightarrow> 't" where
  "feed [] t = t"
| "feed ((ts, passed) # evs) t = feed evs (if passed then add ts t else reeval ts t)"

lemma feed_ok:
  "ok_at ts t \<Longrightarrow> sorted (ts # map fst evs) \<Longrightarrow> ok_at (last (ts # map fst evs)) (feed evs t)"
proof (induction evs arbitrary: ts t)
  case Nil
  then show ?case by simp
next
  case (Cons e evs)
  obtain ts' p where e: "e = (ts', p)" by (cases e)
  have "ok_at ts' (if p then add ts' t else reeval ts' t)"
    using Cons.prems by (auto simp: e intro: ok_add ok_reeval)
  from Cons.IH [OF this] Cons.prems show ?case by (simp add: e)
qed

lemma suppressed_run_keeps_allowed:
  "allowed t \<Longrightarrow> \<forall>e \<in> set evs. \<not> snd e \<Longrightarrow> allowed (feed evs t)"
proof (induction evs arbitrary: t)
  case Nil
  then show ?case by simp
next
  case (Cons e evs)
  then show ?case by (cases e) (simp add: reeval_keeps_allowed)
qed

end

definition log_ok_at :: "u64 \<Rightarrow> sliding_log_throttler \<Rightarrow> bool" where
  "log_ok_at ts t \<longleftrightarrow> sorted (request_time_stamp_log t) \<and> (\<forall>x \<in> set (request_time_stamp_log t). x \<le> ts)"

lemma truncate_log_length:
  "length (request_time_stamp_log (truncate_log ts t)) \<le> length (request_time_stamp_log t)"
  by (simp add: truncate_log_def)

lemma truncate_log_ok: "log_ok_at ts t \<Longrightarrow> ts \<le> ts' \<Longrightarrow> log_ok_at ts' (truncate_log ts'' t)"
  by (auto simp: log_ok_at_def truncate_log_sorted sorted_wrt_filter)

lemma re_evaluate_at_limit:
  "re_evaluate ts t = (if unat (allowed_request_count t) \<le> length (request_time_stamp_log t)
     then truncate_log ts t else t)"
  by (simp add: re_evaluate_def)

lemma truncate_log_idem:
  assumes "sorted (request_time_stamp_log t)"
  shows "truncate_log ts (truncate_log ts t) = truncate_log ts t"
proof -
  have "request_time_stamp_log (truncate_log ts (truncate_log ts t)) =
      request_time_stamp_log (truncate_log ts t)"
    using assms by (simp add: truncate_log_sorted sorted_wrt_filter)
  then show ?thesis by (simp add: truncate_log_def)
qed

interpretation sliding: throttler log_ok_at add_timestamp re_evaluate is_allowed
proof unfold_locales
  fix ts ts' :: u64 and t :: sliding_log_throttler
  assume ok: "log_ok_at ts t" and le: "ts \<le> ts'"
  have "log_ok_at ts' (t\<lparr>request_time_stamp_log := request_time_stamp_log t @ [ts']\<rparr>)"
    using ok le by (auto simp: log_ok_at_def sorted_append)
  then show "log_ok_at ts' (add_timestamp ts' t)"
    by (simp add: add_timestamp_def Let_def truncate_log_ok)
  show "log_ok_at ts' (re_evaluate ts' t)"
    using truncate_log_ok [OF ok le] ok le by (auto simp: re_evaluate_def log_ok_at_def)
next
  fix ts :: u64 and t :: sliding_log_throttler
  show "is_allowed t \<Longrightarrow> is_allowed (re_evaluate ts t)"
    using truncate_log_length [of ts t] by (auto simp: is_allowed_def re_evaluate_def)
  show "log_ok_at ts t \<Longrightarrow> re_evaluate ts (re_evaluate ts t) = re_evaluate ts t"
    by (auto simp: re_evaluate_def log_ok_at_def truncate_log_idem)
qed

text \<open>
  Suppressed requests are never held against a client: any run of suppressed requests leaves an
  allowed throttler allowed, and repeating a re-evaluation changes nothing.
\<close>

theorem suppressed_requests_are_free:
  assumes "is_allowed t" and "\<forall>e \<in> set evs. \<not> snd e"
  shows "is_allowed (sliding.feed evs t) \<and> (log_ok_at ts t \<longrightarrow> re_evaluate ts (re_evaluate ts t) = re_evaluate ts t)"
  using sliding.suppressed_run_keeps_allowed [OF assms] sliding.reeval_idem by blast

theorem suppressed_requests_are_free_witness:
  "is_allowed (sliding.feed [(100, False), (200, False)] (new_sliding_log_throttler 10 5))"
  using suppressed_requests_are_free [of "new_sliding_log_throttler 10 5" "[(100, False), (200, False)]"]
  by (simp add: is_allowed_def new_sliding_log_throttler_def)

section \<open>The log refines the exact sliding window\<close>

text \<open>The time stamps of the counted requests, and those inside the window that ends at \<open>now\<close>.\<close>

definition counted :: "(u64 \<times> bool) list \<Rightarrow> u64 list" where
  "counted evs = map fst (filter snd evs)"

definition in_window :: "u64 \<Rightarrow> u64 \<Rightarrow> u64 list \<Rightarrow> u64 list" where
  "in_window w now h = filter (\<lambda>x. now - w \<le> x) h"

text \<open>
  The truncation is lazy: the log may still hold stamps that have left the window, but it holds
  every counted stamp that is inside it.
\<close>

definition log_refines :: "u64 list \<Rightarrow> u64 \<Rightarrow> sliding_log_throttler \<Rightarrow> bool" where
  "log_refines h now t \<longleftrightarrow>
     in_window (window_duration t) now (request_time_stamp_log t) = in_window (window_duration t) now h"

lemma in_window_later:
  assumes "w \<le> now" and "now \<le> now'"
  shows "in_window w now' (in_window w now h) = in_window w now' h"
proof -
  have "now - w \<le> now' - w" using assms by (simp add: word_le_minus_mono_left)
  then have "(now - w \<le> x \<and> now' - w \<le> x) = (now' - w \<le> x)" for x by auto
  then show ?thesis by (simp add: in_window_def)
qed

lemma log_refines_later:
  "log_refines h now t \<Longrightarrow> window_duration t \<le> now \<Longrightarrow> now \<le> now' \<Longrightarrow> log_refines h now' t"
  unfolding log_refines_def using in_window_later by metis

lemma log_refines_truncate:
  "log_refines h now t \<Longrightarrow> sorted (request_time_stamp_log t) \<Longrightarrow> log_refines h now (truncate_log now t)"
  by (simp add: log_refines_def truncate_log_sorted in_window_def)

lemma truncated_log_is_window:
  "log_refines h now t \<Longrightarrow> sorted (request_time_stamp_log t) \<Longrightarrow>
   request_time_stamp_log (truncate_log now t) = in_window (window_duration t) now h"
  by (simp add: log_refines_def truncate_log_sorted in_window_def)

text \<open>One event keeps the refinement, and its answer is the exact one.\<close>

definition event_state :: "u64 \<times> bool \<Rightarrow> sliding_log_throttler \<Rightarrow> sliding_log_throttler" where
  "event_state e t = (if snd e then add_timestamp (fst e) t else re_evaluate (fst e) t)"

lemma event_state_params [simp]:
  "window_duration (event_state e t) = window_duration t"
  "allowed_request_count (event_state e t) = allowed_request_count t"
  by (simp_all add: event_state_def)

lemma event_state_cases:
  "\<exists>t'. t' = t\<lparr>request_time_stamp_log := request_time_stamp_log t @ (if p then [ts] else [])\<rparr> \<and>
     event_state (ts, p) t =
       (if unat (allowed_request_count t) \<le> length (request_time_stamp_log t') then truncate_log ts t' else t')"
  by (cases p) (simp_all add: event_state_def add_timestamp_def re_evaluate_def)

lemma event_step:
  fixes p :: bool
  assumes "log_refines h now t" and "log_ok_at now t" and "window_duration t \<le> now" and "now \<le> ts"
  defines "h' \<equiv> h @ (if p then [ts] else [])"
  shows "log_refines h' ts (event_state (ts, p) t)"
    and "is_allowed (event_state (ts, p) t) \<longleftrightarrow>
      length (in_window (window_duration t) ts h') \<le> unat (allowed_request_count t)"
proof -
  obtain t' where t': "t' = t\<lparr>request_time_stamp_log := request_time_stamp_log t @ (if p then [ts] else [])\<rparr>"
    and ev: "event_state (ts, p) t = (if unat (allowed_request_count t) \<le> length (request_time_stamp_log t')
      then truncate_log ts t' else t')"
    using event_state_cases by blast
  have ref: "log_refines h' ts t'"
    using log_refines_later [OF assms(1,3,4)] by (simp add: log_refines_def t' h'_def in_window_def)
  have srt: "sorted (request_time_stamp_log t')"
    using assms(2,4) by (auto simp: t' log_ok_at_def sorted_append)
  show "log_refines h' ts (event_state (ts, p) t)"
    using ref log_refines_truncate [OF ref srt] by (simp add: ev)
  have small: "length (in_window (window_duration t) ts h') \<le> length (request_time_stamp_log t')"
  proof -
    have "in_window (window_duration t) ts h' = in_window (window_duration t) ts (request_time_stamp_log t')"
      using ref by (simp add: log_refines_def t')
    then show ?thesis by (simp add: in_window_def)
  qed
  show "is_allowed (event_state (ts, p) t) \<longleftrightarrow>
      length (in_window (window_duration t) ts h') \<le> unat (allowed_request_count t)"
  proof (cases "unat (allowed_request_count t) \<le> length (request_time_stamp_log t')")
    case True
    then show ?thesis
      using truncated_log_is_window [OF ref srt] by (simp add: ev is_allowed_def t')
  next
    case False
    then show ?thesis using small by (simp add: ev is_allowed_def t')
  qed
qed

lemma feed_event: "sliding.feed (e # evs) t = sliding.feed evs (event_state e t)"
  by (cases e) (simp add: event_state_def)

lemma feed_append: "sliding.feed (evs @ [e]) t = event_state e (sliding.feed evs t)"
proof (induction evs arbitrary: t)
  case Nil
  then show ?case by (simp only: append_Nil feed_event sliding.feed.simps(1))
next
  case (Cons a evs)
  then show ?case by (simp only: append_Cons feed_event)
qed

lemma feed_params [simp]:
  "window_duration (sliding.feed evs t) = window_duration t"
  "allowed_request_count (sliding.feed evs t) = allowed_request_count t"
  by (induction evs arbitrary: t) (simp_all add: feed_event del: sliding.feed.simps(2))

lemma sorted_last_bounds:
  assumes "sorted (w # xs @ [ts])"
  shows "w \<le> last (w # xs)" and "last (w # xs) \<le> ts"
  using assms by (cases xs rule: rev_cases; auto simp: sorted_append)+

lemma counted_snoc: "counted (evs @ [(ts, p)]) = counted evs @ (if p then [ts] else [])"
  by (simp add: counted_def)

lemma feed_invariant:
  fixes n :: u64
  assumes "sorted (w # map fst evs)"
  defines "t \<equiv> sliding.feed evs (new_sliding_log_throttler w n)"
  shows "log_refines (counted evs) (last (w # map fst evs)) t \<and> log_ok_at (last (w # map fst evs)) t"
  unfolding t_def using assms(1)
proof (induction evs rule: rev_induct)
  case Nil
  then show ?case
    by (simp add: counted_def log_refines_def in_window_def log_ok_at_def new_sliding_log_throttler_def)
next
  case (snoc e evs)
  obtain ts p where e: "e = (ts, p)" by (cases e)
  define now where "now = last (w # map fst evs)"
  have mono: "w \<le> now" "now \<le> ts" "sorted (w # map fst evs)"
    using sorted_last_bounds [of w "map fst evs" ts] snoc.prems by (auto simp: e now_def sorted_append)
  have pre: "log_refines (counted evs) now (sliding.feed evs (new_sliding_log_throttler w n))"
    "log_ok_at now (sliding.feed evs (new_sliding_log_throttler w n))"
    using snoc.IH [OF mono(3)] by (simp_all add: now_def)
  have "log_ok_at ts (event_state (ts, p) (sliding.feed evs (new_sliding_log_throttler w n)))"
    using sliding.ok_add [OF pre(2) mono(2)] sliding.ok_reeval [OF pre(2) mono(2)]
    by (simp add: event_state_def)
  then show ?case
    using event_step(1) [OF pre _ mono(2), of p] mono(1)
    by (simp only: e feed_append counted_snoc) (simp add: new_sliding_log_throttler_def)
qed

lemma verdict_exact:
  assumes "sorted (w # map fst (evs @ [(ts, p)]))"
  shows "is_allowed (sliding.feed (evs @ [(ts, p)]) (new_sliding_log_throttler w n)) \<longleftrightarrow>
    length (in_window w ts (counted (evs @ [(ts, p)]))) \<le> unat n"
proof -
  define now where "now = last (w # map fst evs)"
  have mono: "w \<le> now" "now \<le> ts" "sorted (w # map fst evs)"
    using sorted_last_bounds [of w "map fst evs" ts] assms by (auto simp: now_def sorted_append)
  have pre: "log_refines (counted evs) now (sliding.feed evs (new_sliding_log_throttler w n))"
    "log_ok_at now (sliding.feed evs (new_sliding_log_throttler w n))"
    using feed_invariant [OF mono(3)] by (simp_all add: now_def)
  show ?thesis
    using event_step(2) [OF pre _ mono(2), of p] mono(1)
    by (simp add: feed_append counted_snoc new_sliding_log_throttler_def)
qed

text \<open>
  C4: The verdict is exact. Feed a fresh throttler any sequence of counted and suppressed requests with
  time stamps that do not decrease and are not below the window length: after the last request
  the throttler allows if and only if at most \<open>n\<close> counted requests lie in the window that ends at it.
  The lazy truncation and the bounded log never change the answer.
\<close>

theorem sliding_log_verdict_is_exact:
  assumes "sorted (w # map fst (evs @ [(ts, p)]))"
  shows "is_allowed (sliding.feed (evs @ [(ts, p)]) (new_sliding_log_throttler w n)) \<longleftrightarrow>
    length (in_window w ts (counted (evs @ [(ts, p)]))) \<le> unat n"
  using assms by (rule verdict_exact)

theorem sliding_log_verdict_is_exact_witness:
  "is_allowed (sliding.feed ([(100, True), (101, True)] @ [(115, True)]) (new_sliding_log_throttler 10 1)) \<longleftrightarrow>
    length (in_window 10 115 (counted ([(100, True), (101, True)] @ [(115 :: u64, True)]))) \<le> unat (1 :: u64)"
  by (rule sliding_log_verdict_is_exact) simp

lemma wrapped_bound:
  fixes ts w x :: u64
  assumes "ts < w" and "x \<le> ts"
  shows "\<not> ts - w \<le> x"
proof -
  have "ts < ts - w"
    using assms(1) unsigned_less [of w, where 'a = nat] by (simp add: word_less_nat_alt unat_sub_if')
  with assms(2) show ?thesis by simp
qed

lemma wrapped_truncation_erases:
  assumes "log_ok_at ts t" and "ts < window_duration t"
  shows "request_time_stamp_log (truncate_log ts t) = []"
  using assms wrapped_bound
  by (auto simp: log_ok_at_def truncate_log_sorted filter_empty_conv)

lemma wrapped_event:
  assumes "log_ok_at now t" and "now \<le> ts" and "ts < window_duration t" and "0 < allowed_request_count t"
    and "is_allowed t"
  shows "is_allowed (event_state (ts, p) t)"
proof -
  obtain t' where t': "t' = t\<lparr>request_time_stamp_log := request_time_stamp_log t @ (if p then [ts] else [])\<rparr>"
    and ev: "event_state (ts, p) t = (if unat (allowed_request_count t) \<le> length (request_time_stamp_log t')
      then truncate_log ts t' else t')"
    using event_state_cases by blast
  have "log_ok_at ts t'"
    using assms(1,2) by (auto simp: t' log_ok_at_def sorted_append)
  then have "request_time_stamp_log (truncate_log ts t') = []"
    using assms(3) by (intro wrapped_truncation_erases) (simp_all add: t')
  then show ?thesis by (simp add: ev is_allowed_def t')
qed

text \<open>
  C40: The window bound is computed in unsigned arithmetic. When the window is longer than every time
  stamp the bound wraps around to a huge value and each truncation erases the whole log: such a
  throttler with \<open>n > 0\<close> allows every request, however many there are.
\<close>

theorem oversized_window_never_throttles:
  assumes "sorted (map fst evs)" and "\<forall>e \<in> set evs. fst e < w" and "0 < n"
  shows "is_allowed (sliding.feed evs (new_sliding_log_throttler w n))"
proof -
  have "is_allowed (sliding.feed evs (new_sliding_log_throttler w n)) \<and>
      (\<forall>ts. (\<forall>e \<in> set evs. fst e \<le> ts) \<longrightarrow> log_ok_at ts (sliding.feed evs (new_sliding_log_throttler w n)))"
    using assms(1,2)
  proof (induction evs rule: rev_induct)
    case Nil
    then show ?case by (simp add: is_allowed_def new_sliding_log_throttler_def log_ok_at_def)
  next
    case (snoc e evs)
    obtain ts p where e: "e = (ts, p)" by (cases e)
    let ?t = "sliding.feed evs (new_sliding_log_throttler w n)"
    have le: "\<forall>e \<in> set evs. fst e \<le> ts" using snoc.prems by (auto simp: e sorted_append)
    have pre: "is_allowed ?t" "log_ok_at ts ?t" using snoc le by (auto simp: sorted_append)
    have "is_allowed (event_state (ts, p) ?t)"
      using wrapped_event [OF pre(2) order_refl _ _ pre(1)] snoc.prems(2) assms(3)
      by (simp add: e new_sliding_log_throttler_def)
    moreover have "log_ok_at ts' (event_state (ts, p) ?t)" if "ts \<le> ts'" for ts'
      using sliding.ok_add [OF pre(2) order_refl] sliding.ok_reeval [OF pre(2) order_refl] that
      by (auto simp: event_state_def log_ok_at_def)
    ultimately show ?case by (simp add: feed_append e)
  qed
  then show ?thesis by blast
qed

theorem oversized_window_never_throttles_witness:
  "is_allowed (sliding.feed [(50, True), (50, True), (50, True)] (new_sliding_log_throttler 100 1))"
  by (rule oversized_window_never_throttles) simp_all

end
