(* ===== verification/Async_Config.thy ===== *)
theory Async_Config
  imports Foundation
begin

text \<open>
  \<open>src/event_processing/messages/async_config_message.h\<close>: the promise a configuration message
  carries. It can be resolved once; \<open>on_complete\<close> and \<open>on_error\<close> are \<open>noexcept\<close>, so the
  \<open>std::future_error\<close> of a second resolution terminates the process.
\<close>

datatype promise = Pending | Has_value | Has_exception exn

definition set_value :: "promise \<Rightarrow> promise cxx" where
  "set_value p = (if p = Pending then Ok Has_value else Throw Future_error)"

definition set_exception :: "exn \<Rightarrow> promise \<Rightarrow> promise cxx" where
  "set_exception ex p = (if p = Pending then Ok (Has_exception ex) else Throw Future_error)"

definition on_complete :: "promise \<Rightarrow> promise cxx" where
  "on_complete p = noexcept (set_value p)"

definition on_error :: "exn \<Rightarrow> promise \<Rightarrow> promise cxx" where
  "on_error ex p = noexcept (set_exception ex p)"

lemma on_complete_simps [simp]:
  "on_complete Pending = Ok Has_value"
  "p \<noteq> Pending \<Longrightarrow> on_complete p = Fault (Terminate Future_error)"
  by (simp_all add: on_complete_def set_value_def)

lemma on_error_simps [simp]:
  "on_error ex Pending = Ok (Has_exception ex)"
  "p \<noteq> Pending \<Longrightarrow> on_error ex p = Fault (Terminate Future_error)"
  by (simp_all add: on_error_def set_exception_def)

text \<open>The future can be retrieved once; a second \<open>get_future\<close>, which is \<open>noexcept\<close> too, ends the process.\<close>

record config_promise =
  config_result :: promise
  future_retrieved :: bool

definition new_config_promise :: config_promise where
  "new_config_promise = \<lparr>config_result = Pending, future_retrieved = False\<rparr>"

definition get_future :: "config_promise \<Rightarrow> config_promise cxx" where
  "get_future p = noexcept (if future_retrieved p then Throw Future_error else Ok (p\<lparr>future_retrieved := True\<rparr>))"

lemma get_future_once:
  "get_future p = Ok p' \<Longrightarrow> config_result p' = config_result p \<and> get_future p' = Fault (Terminate Future_error)"
  by (auto simp: get_future_def split: if_splits)

end
