(* ===== verification/Throttle_State_Builder.thy ===== *)
theory Throttle_State_Builder
  imports Sliding_Log Dynamic_Message Base_Stage Async_Config
begin

text \<open>
  \<open>src/stages/throttling_stages\<close>: the configuration and state messages, and
  \<open>ThrottleStateBuilderStage\<close>, which feeds the throttlers named by the fields of each request and
  publishes their verdicts when it is told to flush. A handler returns the new stage state with
  its emissions. A sink that receives a message is another stage's handler; the model hands
  it the message and goes on with the message unchanged.
\<close>

section \<open>Messages\<close>

record throttle_state_message =
  throttler_states :: "(string \<times> bool) list"

definition add_throttler_state :: "string \<Rightarrow> bool \<Rightarrow> throttle_state_message \<Rightarrow> throttle_state_message" where
  "add_throttler_state i s m = m\<lparr>throttler_states := throttler_states m @ [(i, s)]\<rparr>"

text \<open>The unused helper of the source file: its list pointer converts to the flag, true unless it is null.\<close>

definition to_message :: "string \<Rightarrow> u64 list option \<Rightarrow> throttle_state_message" where
  "to_message throttle_id state = add_throttler_state throttle_id (state \<noteq> None) \<lparr>throttler_states = []\<rparr>"

text \<open>
  \<open>AddThrottlerConfigMessage\<close> and \<open>UpdateThrottlerConfigMessage\<close>, told apart by the message class.
\<close>

record throttler_config_message =
  cfg_class :: message_class
  cfg_id :: string
  cfg_type :: string
  cfg_queue_enable :: bool
  cfg_time_window :: u64
  cfg_allowed_count :: u64

section \<open>State\<close>

text \<open>The objects an \<open>IThrottler\<close> pointer of the program can point to.\<close>

datatype i_throttler = SlidingLogThrottler sliding_log_throttler

fun throttler_add_timestamp :: "u64 \<Rightarrow> i_throttler \<Rightarrow> i_throttler" where
  "throttler_add_timestamp ts (SlidingLogThrottler t) = SlidingLogThrottler (add_timestamp ts t)"

fun throttler_re_evaluate :: "u64 \<Rightarrow> i_throttler \<Rightarrow> i_throttler" where
  "throttler_re_evaluate ts (SlidingLogThrottler t) = SlidingLogThrottler (re_evaluate ts t)"

fun throttler_is_allowed :: "i_throttler \<Rightarrow> bool" where
  "throttler_is_allowed (SlidingLogThrottler t) = is_allowed t"

fun dynamic_cast_sliding_log :: "i_throttler \<Rightarrow> sliding_log_throttler option" where
  "dynamic_cast_sliding_log (SlidingLogThrottler t) = Some t"

record throttle_state_builder =
  builder_lookup_filed_names :: "string list"
  time_stamp_field_name :: string
  flush_threshold :: i32
  throttlers :: "(string, i_throttler) umap"
  updated_throttlers :: "(string \<times> bool) list"

definition new_throttle_state_builder :: "string list \<Rightarrow> string \<Rightarrow> i32 \<Rightarrow> throttle_state_builder" where
  "new_throttle_state_builder names ts_field threshold =
     \<lparr>builder_lookup_filed_names = names, time_stamp_field_name = ts_field,
      flush_threshold = threshold, throttlers = [], updated_throttlers = []\<rparr>"

definition builder_sources :: "string list" where
  "builder_sources = [''state_out'', ''error_out'', ''config_error_out'']"

definition builder_sinks :: "string list" where
  "builder_sinks = [''message_in'', ''flush_in'', ''config_in'']"

section \<open>Request messages\<close>

text \<open>One iteration of the loop over \<open>_lookup_filed_names\<close>, with its \<open>try\<close> block.\<close>

definition builder_lookup ::
  "'z dynamic_message_scheme \<Rightarrow> u64 \<Rightarrow> string \<Rightarrow> string \<Rightarrow> throttle_state_builder
     \<Rightarrow> (throttle_state_builder \<times> 'z dynamic_message_scheme emission list) cxx"
where
  "builder_lookup msg request_time_stamp throttle_state field_name b =
     catch_if is_field_name_missing (\<lambda>ex. Ok (b, [(''error_out'', msg)]))
       (and_then (get_field string_alt msg ''http_info'' field_name) (\<lambda>throttler_id.
          case umap_find (throttlers b) throttler_id of
            None \<Rightarrow> Ok (b, [(''error_out'', msg)])
          | Some th \<Rightarrow>
              (let th' = (if throttle_state = ''allowed'' then throttler_add_timestamp request_time_stamp th
                          else throttler_re_evaluate request_time_stamp th) in
               Ok (b\<lparr>throttlers := umap_insert_or_assign throttler_id th' (throttlers b),
                     updated_throttlers := updated_throttlers b @ [(throttler_id, throttler_is_allowed th')]\<rparr>,
                   []))))"

fun builder_lookups ::
  "'z dynamic_message_scheme \<Rightarrow> u64 \<Rightarrow> string \<Rightarrow> string list \<Rightarrow> throttle_state_builder
     \<Rightarrow> (throttle_state_builder \<times> 'z dynamic_message_scheme emission list) cxx"
where
  "builder_lookups msg ts state [] b = Ok (b, [])"
| "builder_lookups msg ts state (nm # nms) b =
     and_then (builder_lookup msg ts state nm b) (\<lambda>(b', out).
       and_then (builder_lookups msg ts state nms b') (\<lambda>(b'', out'). Ok (b'', out @ out')))"

definition builder_on_message ::
  "'z dynamic_message_scheme \<Rightarrow> throttle_state_builder
     \<Rightarrow> (throttle_state_builder \<times> 'z dynamic_message_scheme emission list) cxx"
where
  "builder_on_message msg b =
     noexcept
       (and_then (get_field int64_alt msg ''info'' (time_stamp_field_name b)) (\<lambda>request_time_stamp.
        and_then (get_field string_alt msg ''throttling'' ''state'') (\<lambda>throttle_state.
          builder_lookups msg request_time_stamp throttle_state (builder_lookup_filed_names b) b)))"

section \<open>Flushing\<close>

definition flush_updates ::
  "throttle_state_builder \<Rightarrow> throttle_state_builder \<times> throttle_state_message emission list"
where
  "flush_updates b =
     (let m = foldl (\<lambda>m (i, s). add_throttler_state i s m) \<lparr>throttler_states = []\<rparr> (updated_throttlers b) in
      (b\<lparr>updated_throttlers := []\<rparr>, [(''state_out'', m)]))"

definition builder_on_flush_message ::
  "throttle_state_builder \<Rightarrow> throttle_state_builder \<times> throttle_state_message emission list"
where
  "builder_on_flush_message b = flush_updates b"

section \<open>Configuration\<close>

definition on_add_throttler :: "throttler_config_message \<Rightarrow> throttle_state_builder \<Rightarrow> throttle_state_builder cxx" where
  "on_add_throttler m b =
     (if cfg_type m = ''sliding_log'' then
        (let th = SlidingLogThrottler (new_sliding_log_throttler (cfg_time_window m) (cfg_allowed_count m));
             (ths, success) = umap_try_emplace (cfg_id m) th (throttlers b) in
         if \<not> success then Throw (ThrottlerIdExistException (cfg_id m)) else Ok (b\<lparr>throttlers := ths\<rparr>))
      else if cfg_type m = ''fixed_window'' then Throw (InvalidThrottleTypeException (cfg_id m) (cfg_type m))
      else Ok b)"

definition on_update_throttler :: "throttler_config_message \<Rightarrow> throttle_state_builder \<Rightarrow> throttle_state_builder cxx" where
  "on_update_throttler m b =
     (if cfg_type m = ''sliding_log'' then
        (case umap_find (throttlers b) (cfg_id m) of
           None \<Rightarrow> Throw (ThrottlerDoesNotExistException (cfg_id m))
         | Some th \<Rightarrow>
             (case dynamic_cast_sliding_log th of
                Some t \<Rightarrow> Ok (b\<lparr>throttlers := umap_insert_or_assign (cfg_id m)
                    (SlidingLogThrottler (set_window_duration (cfg_time_window m)
                       (set_allowed_request_count (cfg_allowed_count m) t))) (throttlers b)\<rparr>)
              | None \<Rightarrow> Throw (InvalidThrottleTypeException (cfg_id m) (cfg_type m))))
      else if cfg_type m = ''sliding_window'' then Throw (InvalidThrottleTypeException (cfg_id m) (cfg_type m))
      else if cfg_type m = ''fixed_window'' then Throw (InvalidThrottleTypeException (cfg_id m) (cfg_type m))
      else Ok b)"

text \<open>
  The \<open>try\<close> block resolves the promise inside it; the two handlers resolve it with the
  exception they caught. An exception leaves the stage's state as it was: both handlers throw
  before they write.
\<close>

definition builder_on_config_message ::
  "throttler_config_message \<Rightarrow> promise \<Rightarrow> throttle_state_builder \<Rightarrow> (throttle_state_builder \<times> promise) cxx"
where
  "builder_on_config_message m p b =
     noexcept
       (catch_if (\<lambda>ex. \<not> is_std_exception ex)
          (\<lambda>ex. and_then (on_error (Runtime_error ''Unknown error occurred'') p) (\<lambda>p'. Ok (b, p')))
          (catch_if is_std_exception
             (\<lambda>ex. and_then (on_error ex p) (\<lambda>p'. Ok (b, p')))
             (if message_type AddThrottlerConfigMessage_class = message_type (cfg_class m) then
                and_then (on_add_throttler m b) (\<lambda>b'. and_then (on_complete p) (\<lambda>p'. Ok (b', p')))
              else if message_type UpdateThrottlerConfigMessage_class = message_type (cfg_class m) then
                and_then (on_update_throttler m b) (\<lambda>b'. and_then (on_complete p) (\<lambda>p'. Ok (b', p')))
              else and_then (on_error (Runtime_error ''Unknown message type'') p) (\<lambda>p'. Ok (b, p')))))"

section \<open>Properties\<close>

lemma flush_message_states:
  "throttler_states (foldl (\<lambda>m (i, s). add_throttler_state i s m) m ups) = throttler_states m @ ups"
  by (induction ups arbitrary: m) (auto simp: add_throttler_state_def)

lemma flush_updates_eq:
  "flush_updates b = (b\<lparr>updated_throttlers := []\<rparr>, [(''state_out'', \<lparr>throttler_states = updated_throttlers b\<rparr>)])"
  using flush_message_states [of "\<lparr>throttler_states = []\<rparr>" "updated_throttlers b"]
  by (simp add: flush_updates_def Let_def)

text \<open>
  A throttler configuration message resolves its pending promise exactly once and never ends the
  process. A new sliding log throttler is installed with its parameters and an update changes the
  parameters only; an existing id, an update of an unknown id and the type \<open>fixed_window\<close> are reported
  in the promise and change nothing.
\<close>

theorem throttler_configuration:
  "(cfg_class m = AddThrottlerConfigMessage_class \<and> cfg_type m = ''sliding_log'' \<longrightarrow>
      (if umap_contains (throttlers b) (cfg_id m)
       then builder_on_config_message m Pending b = Ok (b, Has_exception (ThrottlerIdExistException (cfg_id m)))
       else \<exists>b'. builder_on_config_message m Pending b = Ok (b', Has_value) \<and>
         umap_find (throttlers b') = (umap_find (throttlers b))(cfg_id m \<mapsto>
           SlidingLogThrottler (new_sliding_log_throttler (cfg_time_window m) (cfg_allowed_count m))))) \<and>
   (cfg_class m = UpdateThrottlerConfigMessage_class \<and> cfg_type m = ''sliding_log'' \<longrightarrow>
      (case umap_find (throttlers b) (cfg_id m) of
         None \<Rightarrow> builder_on_config_message m Pending b
                   = Ok (b, Has_exception (ThrottlerDoesNotExistException (cfg_id m)))
       | Some (SlidingLogThrottler t) \<Rightarrow> \<exists>b'. builder_on_config_message m Pending b = Ok (b', Has_value) \<and>
           umap_find (throttlers b') = (umap_find (throttlers b))(cfg_id m \<mapsto>
             SlidingLogThrottler (t\<lparr>window_duration := cfg_time_window m,
               allowed_request_count := cfg_allowed_count m\<rparr>)))) \<and>
   (cfg_class m \<in> {AddThrottlerConfigMessage_class, UpdateThrottlerConfigMessage_class} \<and>
      cfg_type m = ''fixed_window'' \<longrightarrow>
      builder_on_config_message m Pending b
        = Ok (b, Has_exception (InvalidThrottleTypeException (cfg_id m) ''fixed_window''))) \<and>
   (\<exists>b' p. builder_on_config_message m Pending b = Ok (b', p) \<and> p \<noteq> Pending)"
  by (auto simp: builder_on_config_message_def on_add_throttler_def on_update_throttler_def
      umap_emplace_cases umap_contains_def fun_eq_iff umap_find_append umap_find_Cons um.find_assign
      set_window_duration_def set_allowed_request_count_def
      split: option.splits i_throttler.splits)

definition example_config :: throttler_config_message where
  "example_config = \<lparr>cfg_class = AddThrottlerConfigMessage_class, cfg_id = ''c1'',
     cfg_type = ''sliding_log'', cfg_queue_enable = False, cfg_time_window = 10, cfg_allowed_count = 5\<rparr>"

theorem throttler_configuration_witness:
  "\<exists>b'. builder_on_config_message example_config Pending (new_throttle_state_builder [''key''] ''time'' 1) = Ok (b', Has_value) \<and>
     umap_find (throttlers b') ''c1'' = Some (SlidingLogThrottler (new_sliding_log_throttler 10 5))"
  using throttler_configuration [of example_config "new_throttle_state_builder [''key''] ''time'' 1"]
  by (auto simp: example_config_def new_throttle_state_builder_def umap_contains_def)

text \<open>
  An add request whose type is neither \<open>sliding_log\<close> nor \<open>fixed_window\<close> (\<open>sliding_window\<close>, say, or a
  misspelt type) is answered with success although no throttler is installed.
\<close>

lemma add_of_unknown_type_succeeds_silently:
  assumes "cfg_class m = AddThrottlerConfigMessage_class"
    and "cfg_type m \<noteq> ''sliding_log''" and "cfg_type m \<noteq> ''fixed_window''"
  shows "builder_on_config_message m Pending b = Ok (b, Has_value)"
  using assms by (simp add: builder_on_config_message_def on_add_throttler_def)

subsection \<open>What one request does\<close>

definition throttler_event :: "u64 \<Rightarrow> string \<Rightarrow> i_throttler \<Rightarrow> i_throttler" where
  "throttler_event ts state th =
     (if state = ''allowed'' then throttler_add_timestamp ts th else throttler_re_evaluate ts th)"

definition feed_one :: "u64 \<Rightarrow> string \<Rightarrow> string \<Rightarrow> throttle_state_builder \<Rightarrow> throttle_state_builder" where
  "feed_one ts state i b =
     (case umap_find (throttlers b) i of
        None \<Rightarrow> b
      | Some th \<Rightarrow> b\<lparr>throttlers := umap_insert_or_assign i (throttler_event ts state th) (throttlers b),
          updated_throttlers := updated_throttlers b @ [(i, throttler_is_allowed (throttler_event ts state th))]\<rparr>)"

text \<open>The throttler id a lookup field names, \<open>None\<close> when the field is missing.\<close>

definition lookup_id :: "'z dynamic_message_scheme \<Rightarrow> string \<Rightarrow> string option" where
  "lookup_id msg nm = (case get_field string_alt msg ''http_info'' nm of Ok i \<Rightarrow> Some i | _ \<Rightarrow> None)"

text \<open>The messages the code provides for: the group exists and its fields are strings.\<close>

definition lookups_readable :: "'z dynamic_message_scheme \<Rightarrow> string list \<Rightarrow> bool" where
  "lookups_readable msg nms \<longleftrightarrow>
     list_all (\<lambda>nm. lookup_id msg nm \<noteq> None \<or>
       get_field string_alt msg ''http_info'' nm = Throw (FieldNameDoesNotExistException ''http_info'' nm)) nms"

definition feeds :: "'z dynamic_message_scheme \<Rightarrow> throttle_state_builder \<Rightarrow> string \<Rightarrow> bool" where
  "feeds msg b nm = (case lookup_id msg nm of None \<Rightarrow> False | Some i \<Rightarrow> umap_contains (throttlers b) i)"

lemma feed_one_keys [simp]: "umap_contains (throttlers (feed_one ts state i b)) j = umap_contains (throttlers b) j"
  by (auto simp: feed_one_def umap_contains_def um.find_assign split: option.splits)

lemma feeds_feed_one [simp]: "feeds msg (feed_one ts state i b) nm = feeds msg b nm"
  by (simp add: feeds_def split: option.splits)

lemma builder_lookup_effect:
  assumes "lookups_readable msg [nm]"
  shows "builder_lookup msg ts state nm b =
    Ok (case lookup_id msg nm of None \<Rightarrow> b | Some i \<Rightarrow> feed_one ts state i b,
        if feeds msg b nm then [] else [(''error_out'', msg)])"
  using assms
  by (cases "get_field string_alt msg ''http_info'' nm")
    (auto simp: lookups_readable_def lookup_id_def builder_lookup_def feed_one_def feeds_def
      throttler_event_def umap_contains_def Let_def split: option.splits)

lemma builder_lookups_effect:
  assumes "lookups_readable msg nms"
  shows "builder_lookups msg ts state nms b =
    Ok (fold (feed_one ts state) (List.map_filter (lookup_id msg) nms) b,
        replicate (length (filter (\<lambda>nm. \<not> feeds msg b nm) nms)) (''error_out'', msg))"
  using assms
proof (induction nms arbitrary: b)
  case Nil
  then show ?case by (simp add: List.map_filter_def)
next
  case (Cons nm nms)
  then have "lookups_readable msg [nm]" "lookups_readable msg nms"
    by (simp_all add: lookups_readable_def)
  then show ?case
    using Cons.IH by (auto simp: builder_lookup_effect List.map_filter_def split: option.splits)
qed

lemma builder_on_message_effect_of:
  assumes "get_field int64_alt msg ''info'' (time_stamp_field_name b) = Ok ts"
    and "get_field string_alt msg ''throttling'' ''state'' = Ok state"
    and "lookups_readable msg (builder_lookup_filed_names b)"
  shows "builder_on_message msg b =
    Ok (fold (feed_one ts state) (List.map_filter (lookup_id msg) (builder_lookup_filed_names b)) b,
        replicate (length (filter (\<lambda>nm. \<not> feeds msg b nm) (builder_lookup_filed_names b))) (''error_out'', msg))"
  using assms by (simp add: builder_on_message_def builder_lookups_effect)

text \<open>
  A request message with its time stamp and throttle state updates exactly the throttlers its
  lookup fields name, in order, each with a counted or a re-evaluated request, and
  queues the verdict of each; every lookup field that is missing or names no throttler sends the
  message to \<open>error_out\<close> once.
\<close>

theorem builder_on_message_effect:
  assumes "get_field int64_alt msg ''info'' (time_stamp_field_name b) = Ok ts"
    and "get_field string_alt msg ''throttling'' ''state'' = Ok state"
    and "lookups_readable msg (builder_lookup_filed_names b)"
  shows "builder_on_message msg b =
    Ok (fold (feed_one ts state) (List.map_filter (lookup_id msg) (builder_lookup_filed_names b)) b,
        replicate (length (filter (\<lambda>nm. \<not> feeds msg b nm) (builder_lookup_filed_names b))) (''error_out'', msg))"
  using assms by (rule builder_on_message_effect_of)

definition example_request :: dynamic_message where
  "example_request = set_field string_alt ''throttling'' ''state'' ''allowed''
     (set_field string_alt ''http_info'' ''key'' ''c1''
       (set_field int64_alt ''info'' ''time'' 100 empty_message))"

lemma example_request_fields:
  "get_field int64_alt example_request ''info'' ''time'' = Ok 100"
  "get_field string_alt example_request ''throttling'' ''state'' = Ok ''allowed''"
  "get_field string_alt example_request ''http_info'' ''key'' = Ok ''c1''"
  by (simp_all add: example_request_def get_field_set_same [OF int64.variant_alternative_axioms])

theorem builder_on_message_effect_witness:
  "builder_on_message example_request (new_throttle_state_builder [''key''] ''time'' 1) =
     Ok (new_throttle_state_builder [''key''] ''time'' 1, [(''error_out'', example_request)])"
proof -
  let ?b = "new_throttle_state_builder [''key''] ''time'' 1"
  have "lookups_readable example_request (builder_lookup_filed_names ?b)"
    by (simp add: lookups_readable_def lookup_id_def example_request_fields new_throttle_state_builder_def)
  from builder_on_message_effect [OF _ example_request_fields(2) this, of 100] example_request_fields
  show ?thesis
    by (simp add: new_throttle_state_builder_def List.map_filter_def lookup_id_def feeds_def feed_one_def
        umap_contains_def)
qed

subsection \<open>The queued verdicts are current\<close>

definition verdict :: "throttle_state_builder \<Rightarrow> string \<Rightarrow> bool option" where
  "verdict b i = map_option throttler_is_allowed (umap_find (throttlers b) i)"

definition verdicts_fresh :: "throttle_state_builder \<Rightarrow> bool" where
  "verdicts_fresh b \<longleftrightarrow>
     list_all (\<lambda>i. map_of (rev (updated_throttlers b)) i = verdict b i) (map fst (updated_throttlers b))"

lemma verdicts_freshD:
  "verdicts_fresh b \<Longrightarrow> map_of (rev (updated_throttlers b)) i = Some s \<Longrightarrow> verdict b i = Some s"
proof -
  assume fresh: "verdicts_fresh b" and found: "map_of (rev (updated_throttlers b)) i = Some s"
  from map_of_SomeD [OF found] have "i \<in> set (map fst (updated_throttlers b))" by force
  with fresh have "map_of (rev (updated_throttlers b)) i = verdict b i"
    unfolding verdicts_fresh_def list_all_iff by blast
  with found show ?thesis by simp
qed

lemma verdicts_freshI:
  "(\<And>i s. map_of (rev (updated_throttlers b)) i = Some s \<Longrightarrow> verdict b i = Some s) \<Longrightarrow> verdicts_fresh b"
proof (unfold verdicts_fresh_def list_all_iff, rule ballI)
  fix i
  assume fresh: "\<And>i s. map_of (rev (updated_throttlers b)) i = Some s \<Longrightarrow> verdict b i = Some s"
    and "i \<in> set (map fst (updated_throttlers b))"
  then have "map_of (rev (updated_throttlers b)) i \<noteq> None"
    by (simp add: map_of_eq_None_iff)
  then show "map_of (rev (updated_throttlers b)) i = verdict b i"
    using fresh by force
qed

lemma feed_one_fresh: "verdicts_fresh b \<Longrightarrow> verdicts_fresh (feed_one ts state i b)"
  by (rule verdicts_freshI)
    (auto simp: feed_one_def verdict_def um.find_assign dest: verdicts_freshD split: option.splits if_splits)

lemma fold_feed_one_fresh: "verdicts_fresh b \<Longrightarrow> verdicts_fresh (fold (feed_one ts state) ids b)"
  by (induction ids arbitrary: b) (auto simp: feed_one_fresh)

end
