(* ===== verification/Throttling_Enforcer.thy ===== *)
theory Throttling_Enforcer
  imports Throttle_State_Builder
begin

text \<open>
  \<open>src/stages/throttling_stages/throttling_enforcer_stage\<close>: the stage that lets a request through or
  suppresses it by the verdicts published to it, and the control loop it forms with
  \<open>ThrottleStateBuilderStage\<close>, whose verdicts come from the requests the enforcer let through.
\<close>

section \<open>State and handlers\<close>

record throttling_enforcer =
  enforcer_lookup_filed_names :: "string list"
  enforcer_states :: "(string, bool) umap"

definition new_throttling_enforcer :: "string list \<Rightarrow> throttling_enforcer" where
  "new_throttling_enforcer names = \<lparr>enforcer_lookup_filed_names = names, enforcer_states = []\<rparr>"

definition enforcer_sources :: "string list" where
  "enforcer_sources = [''allowed_out'', ''throttled_out'', ''throttle_error_out'']"

definition enforcer_sinks :: "string list" where
  "enforcer_sinks = [''throttle_state_in'', ''message_in'']"

text \<open>The loop over the lookup fields with its early return, and what follows it.\<close>

fun enforcer_loop ::
  "'z dynamic_message_scheme \<Rightarrow> (string, bool) umap \<Rightarrow> string list \<Rightarrow> 'z dynamic_message_scheme emission list cxx"
where
  "enforcer_loop msg states [] =
     Ok [(''allowed_out'', set_field string_alt ''throttling'' ''state'' ''allowed'' msg)]"
| "enforcer_loop msg states (field_name # names) =
     and_then (get_field string_alt msg ''http_info'' field_name) (\<lambda>throttler_id.
       case umap_find states throttler_id of
         Some ok \<Rightarrow>
           (if False = ok
            then Ok [(''throttled_out'', set_field string_alt ''throttling'' ''state'' ''suppressed'' msg)]
            else enforcer_loop msg states names)
       | None \<Rightarrow> enforcer_loop msg states names)"

definition enforcer_on_message ::
  "'z dynamic_message_scheme \<Rightarrow> throttling_enforcer \<Rightarrow> 'z dynamic_message_scheme emission list cxx"
where
  "enforcer_on_message msg e = noexcept (enforcer_loop msg (enforcer_states e) (enforcer_lookup_filed_names e))"

definition on_throttle_state_message :: "throttle_state_message \<Rightarrow> throttling_enforcer \<Rightarrow> throttling_enforcer" where
  "on_throttle_state_message m e =
     e\<lparr>enforcer_states := foldl (\<lambda>s (throttler_id, state). umap_insert_or_assign throttler_id state s)
        (enforcer_states e) (throttler_states m)\<rparr>"

section \<open>The decision\<close>

text \<open>A lookup field lets the message pass when its throttler is unknown or allows.\<close>

definition passes :: "'z dynamic_message_scheme \<Rightarrow> (string, bool) umap \<Rightarrow> string \<Rightarrow> bool" where
  "passes msg states nm =
     (case lookup_id msg nm of None \<Rightarrow> False | Some i \<Rightarrow> umap_find states i \<noteq> Some False)"

definition blocks :: "'z dynamic_message_scheme \<Rightarrow> (string, bool) umap \<Rightarrow> string \<Rightarrow> bool" where
  "blocks msg states nm =
     (case lookup_id msg nm of None \<Rightarrow> False | Some i \<Rightarrow> umap_find states i = Some False)"

lemma lookup_id_cases:
  "(\<exists>i. get_field string_alt msg ''http_info'' nm = Ok i \<and> lookup_id msg nm = Some i) \<or>
   (\<exists>e. get_field string_alt msg ''http_info'' nm = Throw e \<and> lookup_id msg nm = None)"
  by (cases "get_field string_alt msg ''http_info'' nm") (auto simp: lookup_id_def)

lemma enforcer_loop_Cons:
  "enforcer_loop msg states (nm # nms) =
     (if passes msg states nm then enforcer_loop msg states nms
      else if blocks msg states nm
      then Ok [(''throttled_out'', set_field string_alt ''throttling'' ''state'' ''suppressed'' msg)]
      else and_then (get_field string_alt msg ''http_info'' nm) (\<lambda>i. Ok []))"
  using lookup_id_cases [of msg nm] by (auto simp: passes_def blocks_def split: option.splits)

lemma enforcer_loop_prefix:
  "list_all (passes msg states) pre \<Longrightarrow> enforcer_loop msg states (pre @ post) = enforcer_loop msg states post"
  by (induction pre) (simp_all add: enforcer_loop_Cons del: enforcer_loop.simps(2))

lemma blocks_not_passes: "blocks msg states nm \<Longrightarrow> \<not> passes msg states nm"
  by (auto simp: blocks_def passes_def split: option.splits)

text \<open>
  The enforcer answers each request exactly once. If every lookup field lets it pass it goes to
  \<open>allowed_out\<close> marked \<open>allowed\<close>; if the first field that does not let it pass names a throttler that
  refuses, it goes to \<open>throttled_out\<close> marked \<open>suppressed\<close>, and later fields are not even read; if that
  field cannot be read the process ends. An unknown throttler lets a request pass.
\<close>

theorem enforcer_decision:
  "(list_all (passes msg (enforcer_states e)) (enforcer_lookup_filed_names e) \<longrightarrow>
      enforcer_on_message msg e =
        Ok [(''allowed_out'', set_field string_alt ''throttling'' ''state'' ''allowed'' msg)]) \<and>
   (enforcer_lookup_filed_names e = pre @ nm # post \<and> list_all (passes msg (enforcer_states e)) pre \<longrightarrow>
      (blocks msg (enforcer_states e) nm \<longrightarrow>
         enforcer_on_message msg e =
           Ok [(''throttled_out'', set_field string_alt ''throttling'' ''state'' ''suppressed'' msg)]) \<and>
      (get_field string_alt msg ''http_info'' nm = Throw ex \<longrightarrow>
         enforcer_on_message msg e = Fault (Terminate ex)))"
  using enforcer_loop_prefix [of msg "enforcer_states e" "enforcer_lookup_filed_names e" "[]"]
  by (auto simp: enforcer_on_message_def enforcer_loop_prefix enforcer_loop_Cons blocks_not_passes
      simp del: enforcer_loop.simps(2))
    (simp_all add: passes_def blocks_def lookup_id_def)

definition blocking_enforcer :: throttling_enforcer where
  "blocking_enforcer = \<lparr>enforcer_lookup_filed_names = [''key'', ''absent''], enforcer_states = [(''c1'', False)]\<rparr>"

theorem enforcer_decision_witness:
  "enforcer_on_message example_request blocking_enforcer =
     Ok [(''throttled_out'', set_field string_alt ''throttling'' ''state'' ''suppressed'' example_request)]"
  using enforcer_decision [of example_request blocking_enforcer "[]" "''key''" "[''absent'']"]
  by (simp add: blocks_def lookup_id_def example_request_fields blocking_enforcer_def umap_find_def)

section \<open>Publishing verdicts\<close>

lemma on_throttle_state_message_find:
  "umap_find (enforcer_states (on_throttle_state_message m e)) =
     umap_find (enforcer_states e) ++ map_of (rev (throttler_states m))"
  by (simp add: on_throttle_state_message_def um.find_assign_loop)

text \<open>The throttlers a request evaluates: those its lookup fields name and the builder has.\<close>

definition touched :: "'z dynamic_message_scheme \<Rightarrow> throttle_state_builder \<Rightarrow> string set" where
  "touched msg b = {i. umap_contains (throttlers b) i \<and>
     (\<exists>nm \<in> set (builder_lookup_filed_names b). get_field string_alt msg ''http_info'' nm = Ok i)}"

text \<open>
  What a builder reaches by requests, flushes and configuration messages of all kinds, in any order, with two records of its history: the verdicts that requests
  have given since the last flush, the last one of each throttler; and the ids of the update messages that no request has
  followed.
\<close>

inductive builder_history :: "throttle_state_builder \<Rightarrow> (string \<rightharpoonup> bool) \<Rightarrow> string set \<Rightarrow> bool" where
  start: "builder_history (new_throttle_state_builder names ts_field threshold) Map.empty {}"
| request: "builder_history b given renewed \<Longrightarrow> builder_on_message (msg :: dynamic_message) b = Ok (b', out) \<Longrightarrow>
    builder_history b' (\<lambda>i. if i \<in> touched msg b then verdict b' i else given i) (renewed - touched msg b)"
| flush: "builder_history b given renewed \<Longrightarrow> builder_history (fst (builder_on_flush_message b)) Map.empty renewed"
| configure: "builder_history b given renewed \<Longrightarrow> builder_on_config_message m p b = Ok (b', p') \<Longrightarrow>
    builder_history b' given (if cfg_class m = UpdateThrottlerConfigMessage_class then insert (cfg_id m) renewed else renewed)"

lemma builder_lookup_feeds:
  "builder_lookup msg ts state nm b = Ok (b', out) \<Longrightarrow>
   b' = (case lookup_id msg nm of None \<Rightarrow> b | Some i \<Rightarrow> feed_one ts state i b)"
  using lookup_id_cases [of msg nm]
  by (auto simp: builder_lookup_def feed_one_def throttler_event_def Let_def split: option.splits if_splits)

lemma builder_lookups_feed:
  "builder_lookups msg ts state nms b = Ok (b', out) \<Longrightarrow> b' = fold (feed_one ts state) (List.map_filter (lookup_id msg) nms) b"
proof (induction nms arbitrary: b out)
  case (Cons nm nms)
  obtain b1 out1 out2 where 1: "builder_lookup msg ts state nm b = Ok (b1, out1)" "builder_lookups msg ts state nms b1 = Ok (b', out2)"
    using Cons.prems by (auto simp: and_then_Ok_iff)
  then show ?case
    using Cons.IH [OF 1(2)] builder_lookup_feeds [OF 1(1)] by (simp add: List.map_filter_def split: option.splits)
qed (simp add: List.map_filter_def)

text \<open>What feeding does to the queue of verdicts and to the verdicts.\<close>

lemma feed_verdicts:
  defines "ups b \<equiv> map_of (rev (updated_throttlers b))"
  shows "ups (fold (feed_one ts st) ids b) i =
      (if i \<in> set ids \<and> umap_contains (throttlers b) i then verdict (fold (feed_one ts st) ids b) i else ups b i)"
    and "i \<notin> set ids \<or> \<not> umap_contains (throttlers b) i \<Longrightarrow> verdict (fold (feed_one ts st) ids b) i = verdict b i"
    and "umap_contains (throttlers (fold (feed_one ts st) ids b)) i = umap_contains (throttlers b) i"
proof -
  have one: "umap_contains (throttlers b) j \<Longrightarrow> ups (feed_one ts st j b) = (ups b)(j := verdict (feed_one ts st j b) j)"
    "\<not> umap_contains (throttlers b) j \<Longrightarrow> feed_one ts st j b = b"
    "i \<noteq> j \<Longrightarrow> verdict (feed_one ts st j b) i = verdict b i" for i j b
    by (auto simp: ups_def feed_one_def verdict_def umap_contains_def um.find_assign fun_eq_iff split: option.splits)
  have "ups (fold (feed_one ts st) ids b) i =
      (if i \<in> set ids \<and> umap_contains (throttlers b) i then verdict (fold (feed_one ts st) ids b) i else ups b i) \<and>
    (i \<notin> set ids \<or> \<not> umap_contains (throttlers b) i \<longrightarrow> verdict (fold (feed_one ts st) ids b) i = verdict b i) \<and>
    umap_contains (throttlers (fold (feed_one ts st) ids b)) i = umap_contains (throttlers b) i"
  proof (induction ids arbitrary: b)
    case (Cons j ids)
    show ?case
      using Cons.IH [of "feed_one ts st j b"] one(1) [of b j] one(2) [of b j] one(3) [of i j b]
      by (cases "i = j"; cases "umap_contains (throttlers b) j") auto
  qed simp
  then show "ups (fold (feed_one ts st) ids b) i =
      (if i \<in> set ids \<and> umap_contains (throttlers b) i then verdict (fold (feed_one ts st) ids b) i else ups b i)"
    "i \<notin> set ids \<or> \<not> umap_contains (throttlers b) i \<Longrightarrow> verdict (fold (feed_one ts st) ids b) i = verdict b i"
    "umap_contains (throttlers (fold (feed_one ts st) ids b)) i = umap_contains (throttlers b) i" by blast+
qed

lemma touched_feed:
  "i \<in> touched msg b \<longleftrightarrow>
   i \<in> set (List.map_filter (lookup_id msg) (builder_lookup_filed_names b)) \<and> umap_contains (throttlers b) i"
proof -
  have "lookup_id msg nm = Some i \<longleftrightarrow> get_field string_alt msg ''http_info'' nm = Ok i" for nm
    by (simp add: lookup_id_def split: outcome.splits)
  moreover have "i \<in> set (List.map_filter f nms) \<longleftrightarrow> (\<exists>nm \<in> set nms. f nm = Some i)" for f :: "string \<Rightarrow> string option" and nms
    by (induction nms) (auto simp: List.map_filter_def split: option.splits)
  ultimately show ?thesis by (auto simp: touched_def)
qed

text \<open>A configuration message queues no verdict; it changes the verdict of its own id at most, by installing or by updating it.\<close>

lemma config_verdicts:
  assumes "builder_on_config_message m p b = Ok (b', p')"
  shows "updated_throttlers b' = updated_throttlers b" "umap_contains (throttlers b) i \<Longrightarrow> umap_contains (throttlers b') i"
    "umap_contains (throttlers b) i \<Longrightarrow> cfg_class m \<noteq> UpdateThrottlerConfigMessage_class \<or> i \<noteq> cfg_id m \<Longrightarrow> verdict b' i = verdict b i"
proof -
  have "b' = b \<or> on_add_throttler m b = Ok b' \<or> cfg_class m = UpdateThrottlerConfigMessage_class \<and> on_update_throttler m b = Ok b'"
    using assms
    by (cases p; cases "on_add_throttler m b"; cases "on_update_throttler m b")
      (auto simp: builder_on_config_message_def split: if_splits)
  then show "updated_throttlers b' = updated_throttlers b" "umap_contains (throttlers b) i \<Longrightarrow> umap_contains (throttlers b') i"
    "umap_contains (throttlers b) i \<Longrightarrow> cfg_class m \<noteq> UpdateThrottlerConfigMessage_class \<or> i \<noteq> cfg_id m \<Longrightarrow> verdict b' i = verdict b i"
    by (auto simp: on_add_throttler_def on_update_throttler_def verdict_def umap_contains_def umap_emplace_cases umap_find_append
        um.find_assign split_beta split: if_splits option.splits)
qed

lemma builder_history_verdicts:
  assumes "builder_history b given renewed"
  shows "map_of (rev (updated_throttlers b)) = given \<and>
    (\<forall>i \<in> dom given. umap_contains (throttlers b) i \<and> (i \<notin> renewed \<longrightarrow> given i = verdict b i))"
  using assms
proof (induction rule: builder_history.induct)
  case (start names ts_field threshold)
  then show ?case by (simp add: new_throttle_state_builder_def)
next
  case (request b given renewed msg b' out)
  obtain ts st where "builder_lookups msg ts st (builder_lookup_filed_names b) b = Ok (b', out)"
    using request.hyps(2) by (auto simp: builder_on_message_def outcome_simps)
  then have b': "b' = fold (feed_one ts st) (List.map_filter (lookup_id msg) (builder_lookup_filed_names b)) b"
    by (rule builder_lookups_feed)
  note fed = feed_verdicts [where ts = ts and st = st and ids = "List.map_filter (lookup_id msg) (builder_lookup_filed_names b)" and b = b, folded b']
  have "map_of (rev (updated_throttlers b')) = (\<lambda>i. if i \<in> touched msg b then verdict b' i else given i)"
    using fed(1) request.IH by (simp add: fun_eq_iff touched_feed)
  moreover have "umap_contains (throttlers b') i \<and>
      (i \<notin> renewed - touched msg b \<longrightarrow> (if i \<in> touched msg b then verdict b' i else given i) = verdict b' i)"
    if "i \<in> dom (\<lambda>i. if i \<in> touched msg b then verdict b' i else given i)" for i
    using that fed(2,3) [where i = i] request.IH by (auto simp: touched_feed split: if_splits)
  ultimately show ?case by blast
next
  case (flush b given renewed)
  then show ?case by (simp add: builder_on_flush_message_def flush_updates_eq)
next
  case (configure b given renewed m p b' p')
  note config = config_verdicts [OF configure.hyps(2)]
  show ?case using configure.IH config by (auto split: if_splits)
qed

text \<open>
  C13: A flush publishes the verdicts that requests have given. After any history of requests, flushes and configuration messages, updates
  included, one flush overwrites the enforcer's state of every throttler a request has named since the last flush with the verdict on its last
  request, leaves its other states alone, and leaves the builder with nothing to publish. What it publishes is the throttler's
  current verdict, unless the throttler has been updated since that request: the verdict from before the update is published then.
\<close>

theorem flush_synchronises_enforcer:
  assumes "builder_history b given renewed"
  shows "\<exists>m. snd (builder_on_flush_message b) = [(''state_out'', m)] \<and>
    updated_throttlers (fst (builder_on_flush_message b)) = [] \<and> throttlers (fst (builder_on_flush_message b)) = throttlers b \<and>
    umap_find (enforcer_states (on_throttle_state_message m e)) = umap_find (enforcer_states e) ++ given \<and>
    (\<forall>i \<in> dom given. i \<notin> renewed \<longrightarrow> umap_find (enforcer_states (on_throttle_state_message m e)) i = verdict b i)"
  using builder_history_verdicts [OF assms]
  by (auto simp: builder_on_flush_message_def flush_updates_eq on_throttle_state_message_find map_add_dom_app_simps)

text \<open>A throttler that lets its first request through and is then updated to allow none.\<close>

definition stale_builder :: throttle_state_builder where
  "stale_builder = (new_throttle_state_builder [''key''] ''time'' 1)
     \<lparr>throttlers := [(''c1'', SlidingLogThrottler (set_window_duration 10 (set_allowed_request_count 0
        (add_timestamp 100 (new_sliding_log_throttler 10 5)))))], updated_throttlers := [(''c1'', True)]\<rparr>"

lemma one_request:
  "is_allowed (add_timestamp 100 (new_sliding_log_throttler 10 5))"
  "\<not> is_allowed (set_window_duration 10 (set_allowed_request_count 0 (add_timestamp 100 (new_sliding_log_throttler 10 5))))"
  by (simp_all add: add_timestamp_def new_sliding_log_throttler_def is_allowed_def set_window_duration_def set_allowed_request_count_def Let_def)

lemma stale_builder_history: "builder_history stale_builder [''c1'' \<mapsto> True] {''c1''}"
proof -
  let ?b0 = "new_throttle_state_builder [''key''] ''time'' 1"
  define b1 where "b1 = ?b0\<lparr>throttlers := [(''c1'', SlidingLogThrottler (new_sliding_log_throttler 10 5))]\<rparr>"
  define b2 where "b2 = ?b0\<lparr>throttlers := [(''c1'', SlidingLogThrottler (add_timestamp 100 (new_sliding_log_throttler 10 5)))],
    updated_throttlers := [(''c1'', True)]\<rparr>"
  have "builder_on_config_message example_config Pending ?b0 = Ok (b1, Has_value)"
    by (simp add: builder_on_config_message_def example_config_def on_add_throttler_def b1_def new_throttle_state_builder_def
        umap_emplace_cases umap_contains_def)
  from builder_history.configure [OF builder_history.start this]
  have 1: "builder_history b1 Map.empty {}" by (simp add: example_config_def)
  have "builder_on_message example_request b1 = Ok (b2, [])"
    by (simp add: builder_on_message_def builder_lookup_def example_request_fields b1_def b2_def new_throttle_state_builder_def umap_find_def
        umap_insert_or_assign_def one_request)
  from builder_history.request [OF 1 this]
  have "builder_history b2 (\<lambda>i. if i \<in> touched example_request b1 then verdict b2 i else None) {}" by simp
  moreover have "touched example_request b1 = {''c1''}"
    by (auto simp: touched_def b1_def new_throttle_state_builder_def example_request_fields umap_contains_def umap_find_def)
  moreover have "verdict b2 ''c1'' = Some True" by (simp add: verdict_def b2_def umap_find_def one_request)
  ultimately have 2: "builder_history b2 [''c1'' \<mapsto> True] {}" by (simp add: fun_upd_def cong: if_cong)
  have "builder_on_config_message (example_config\<lparr>cfg_class := UpdateThrottlerConfigMessage_class, cfg_allowed_count := 0\<rparr>) Pending b2 =
      Ok (stale_builder, Has_value)"
    by (simp add: builder_on_config_message_def example_config_def on_update_throttler_def b2_def stale_builder_def
        new_throttle_state_builder_def umap_find_def umap_insert_or_assign_def)
  from builder_history.configure [OF 2 this] show ?thesis by (simp add: example_config_def)
qed

theorem flush_synchronises_enforcer_witness:
  "verdict stale_builder ''c1'' = Some False \<and>
   (\<exists>m. snd (builder_on_flush_message stale_builder) = [(''state_out'', m)] \<and>
     umap_find (enforcer_states (on_throttle_state_message m (new_throttling_enforcer [''key'']))) ''c1'' = Some True)"
proof -
  have "verdict stale_builder ''c1'' = Some False" by (simp add: verdict_def stale_builder_def umap_find_def one_request)
  then show ?thesis
    using flush_synchronises_enforcer [OF stale_builder_history, of "new_throttling_enforcer [''key'']"] by auto
qed

section \<open>The control loop\<close>

text \<open>
  One request through the closed loop: both outputs of the enforcer lead to the builder's
  \<open>message_in\<close>, the builder is flushed, and its state message goes back to the enforcer. The
  result says whether the request was let through.
\<close>

type_synonym throttle_loop = "throttling_enforcer \<times> throttle_state_builder"

fun publish :: "throttle_state_message emission list \<Rightarrow> throttling_enforcer \<Rightarrow> throttling_enforcer" where
  "publish [] e = e"
| "publish ((port, sm) # out) e = publish out (on_throttle_state_message sm e)"

definition throttle_round :: "dynamic_message \<Rightarrow> throttle_loop \<Rightarrow> (throttle_loop \<times> bool) cxx" where
  "throttle_round msg s =
     (let (e, b) = s in
      and_then (enforcer_on_message msg e) (\<lambda>emitted.
        and_then (builder_on_message (snd (hd emitted)) b) (\<lambda>(b', errors).
          let (b'', out) = builder_on_flush_message b' in
          Ok ((publish out e, b''), fst (hd emitted) = ''allowed_out''))))"

fun throttle_rounds :: "dynamic_message list \<Rightarrow> throttle_loop \<Rightarrow> (throttle_loop \<times> bool list) cxx" where
  "throttle_rounds [] s = Ok (s, [])"
| "throttle_rounds (msg # msgs) s =
     and_then (throttle_round msg s) (\<lambda>(s', ok).
       and_then (throttle_rounds msgs s') (\<lambda>(s'', oks). Ok (s'', ok # oks)))"

text \<open>
  The abstract limiter the loop implements: a request is admitted if at most \<open>n\<close> requests admitted so
  far lie in the window that ends at the previous request.
\<close>

fun admissions :: "u64 \<Rightarrow> u64 \<Rightarrow> (u64 \<times> bool) list \<Rightarrow> u64 list \<Rightarrow> bool list" where
  "admissions w n evs [] = []"
| "admissions w n evs (ts # tss) =
     (let ok = (evs = [] \<or> length (in_window w (fst (last evs)) (counted evs)) \<le> unat n)
      in ok # admissions w n (evs @ [(ts, ok)]) tss)"

text \<open>A request of one client: its time stamp and the throttler id its lookup field names.\<close>

definition request_of :: "string \<Rightarrow> string \<Rightarrow> string \<Rightarrow> 'z dynamic_message_scheme \<Rightarrow> u64 \<Rightarrow> bool" where
  "request_of nm ts_field i msg ts \<longleftrightarrow>
     get_field string_alt msg ''http_info'' nm = Ok i \<and> get_field int64_alt msg ''info'' ts_field = Ok ts"

definition loop_at :: "string \<Rightarrow> string \<Rightarrow> string \<Rightarrow> sliding_log_throttler \<Rightarrow> bool \<Rightarrow> throttle_loop \<Rightarrow> bool" where
  "loop_at nm ts_field i t ok s \<longleftrightarrow>
     (let (e, b) = s in
      enforcer_lookup_filed_names e = [nm] \<and> builder_lookup_filed_names b = [nm] \<and>
      time_stamp_field_name b = ts_field \<and> updated_throttlers b = [] \<and>
      umap_find (throttlers b) i = Some (SlidingLogThrottler t) \<and>
      (umap_find (enforcer_states e) i \<noteq> Some False) = ok)"

lemma enforcer_on_request:
  assumes "enforcer_lookup_filed_names e = [nm]" and "get_field string_alt msg ''http_info'' nm = Ok i"
    and "ok = (umap_find (enforcer_states e) i \<noteq> Some False)"
  shows "enforcer_on_message msg e =
    Ok [(if ok then ''allowed_out'' else ''throttled_out'',
         set_field string_alt ''throttling'' ''state'' (if ok then ''allowed'' else ''suppressed'') msg)]"
  using assms by (auto simp: enforcer_on_message_def split: option.splits)

lemma builder_on_marked_request:
  assumes "request_of nm ts_field i msg ts" and "builder_lookup_filed_names b = [nm]"
    and "time_stamp_field_name b = ts_field" and "umap_find (throttlers b) i = Some th"
  shows "builder_on_message (set_field string_alt ''throttling'' ''state'' st msg) b = Ok (feed_one ts st i b, [])"
proof -
  let ?m = "set_field string_alt ''throttling'' ''state'' st msg"
  have id: "lookup_id ?m nm = Some i" using assms(1) by (simp add: lookup_id_def request_of_def)
  show ?thesis
    using assms builder_on_message_effect_of [of ?m b ts st]
    by (simp add: request_of_def lookups_readable_def id feeds_def umap_contains_def List.map_filter_def)
qed

lemma throttle_round_step:
  assumes "request_of nm ts_field i msg ts" and "loop_at nm ts_field i t ok s"
  shows "\<exists>s'. throttle_round msg s = Ok (s', ok) \<and>
    loop_at nm ts_field i (event_state (ts, ok) t) (is_allowed (event_state (ts, ok) t)) s'"
proof -
  obtain e b where s: "s = (e, b)" by (cases s)
  define st where "st = (if ok then ''allowed'' else ''suppressed'')"
  have e: "enforcer_on_message msg e = Ok [(if ok then ''allowed_out'' else ''throttled_out'',
      set_field string_alt ''throttling'' ''state'' st msg)]"
    using assms by (auto simp: loop_at_def s request_of_def st_def enforcer_on_request)
  have b: "builder_on_message (set_field string_alt ''throttling'' ''state'' st msg) b = Ok (feed_one ts st i b, [])"
    using assms by (auto simp: loop_at_def s intro!: builder_on_marked_request)
  have th: "throttler_event ts st (SlidingLogThrottler t) = SlidingLogThrottler (event_state (ts, ok) t)"
    by (auto simp: throttler_event_def st_def event_state_def)
  show ?thesis
    using assms(2)
    by (simp add: throttle_round_def s e b builder_on_flush_message_def flush_updates_eq loop_at_def
        feed_one_def th um.find_assign on_throttle_state_message_def)
qed

lemma throttle_rounds_are_admissions:
  assumes "list_all2 (request_of nm ts_field i) msgs tss" and "sorted (w # map fst evs @ tss)"
    and "loop_at nm ts_field i (sliding.feed evs (new_sliding_log_throttler w n))
      (evs = [] \<or> is_allowed (sliding.feed evs (new_sliding_log_throttler w n))) s"
  shows "\<exists>s'. throttle_rounds msgs s = Ok (s', admissions w n evs tss)"
  using assms
proof (induction msgs tss arbitrary: evs s rule: list_all2_induct)
  case Nil
  then show ?case by simp
next
  case (Cons msg msgs ts tss)
  define t where "t = sliding.feed evs (new_sliding_log_throttler w n)"
  define ok where "ok = (evs = [] \<or> length (in_window w (fst (last evs)) (counted evs)) \<le> unat n)"
  have "evs = [] \<or> is_allowed t \<longleftrightarrow> ok"
  proof (cases evs rule: rev_cases)
    case (snoc evs' e)
    then have "sorted (w # map fst (evs' @ [(fst e, snd e)]))"
      using Cons.prems(1) by (auto simp: sorted_append)
    from verdict_exact [OF this, of n] show ?thesis by (simp add: t_def ok_def snoc)
  qed (simp add: ok_def)
  then have "loop_at nm ts_field i t ok s" using Cons.prems(2) by (simp add: t_def)
  from throttle_round_step [OF Cons.hyps(1) this] obtain s' where
    s': "throttle_round msg s = Ok (s', ok)"
      "loop_at nm ts_field i (event_state (ts, ok) t) (is_allowed (event_state (ts, ok) t)) s'" by blast
  have "\<exists>s''. throttle_rounds msgs s' = Ok (s'', admissions w n (evs @ [(ts, ok)]) tss)"
    using Cons.prems(1) s'(2) by (intro Cons.IH) (simp_all add: t_def feed_append)
  then show ?case using s'(1) by (auto simp: Let_def simp flip: ok_def)
qed

text \<open>
  The closed loop is a sliding window limiter. For one client whose requests come in order of their
  time stamps, starting with a freshly configured throttler, no round ends the process, and the requests
  let through are exactly those the abstract limiter admits.
\<close>

theorem control_loop_refines_limiter:
  assumes "list_all2 (request_of nm ts_field i) msgs tss" and "sorted (w # tss)"
    and "enforcer_lookup_filed_names e = [nm]" and "umap_find (enforcer_states e) i = None"
    and "builder_lookup_filed_names b = [nm]" and "time_stamp_field_name b = ts_field"
    and "updated_throttlers b = []"
    and "umap_find (throttlers b) i = Some (SlidingLogThrottler (new_sliding_log_throttler w n))"
  shows "\<exists>s'. throttle_rounds msgs (e, b) = Ok (s', admissions w n [] tss)"
  using throttle_rounds_are_admissions [OF assms(1), of w "[]"] assms(2-) by (simp add: loop_at_def)

definition example_loop :: throttle_loop where
  "example_loop = (new_throttling_enforcer [''key''],
     (new_throttle_state_builder [''key''] ''time'' 1)
       \<lparr>throttlers := [(''c1'', SlidingLogThrottler (new_sliding_log_throttler 10 1))]\<rparr>)"

theorem control_loop_refines_limiter_witness:
  "\<exists>s'. throttle_rounds [example_request, example_request, example_request] example_loop
     = Ok (s', [True, True, False])"
proof -
  have "\<exists>s'. throttle_rounds [example_request, example_request, example_request] example_loop
     = Ok (s', admissions 10 1 [] [100, 100, 100])"
    unfolding example_loop_def
    by (rule control_loop_refines_limiter [where nm = "''key''" and ts_field = "''time''" and i = "''c1''"])
      (simp_all add: request_of_def example_request_fields new_throttling_enforcer_def
        new_throttle_state_builder_def umap_find_def)
  then show ?thesis by (simp add: in_window_def counted_def)
qed

text \<open>A burst: every request carries the same time stamp.\<close>

lemma burst_counted:
  "in_window w ts (counted (replicate k (ts, True) @ replicate j (ts, False))) =
     (if ts - w \<le> ts then replicate k ts else [])"
  by (simp add: in_window_def counted_def filter_replicate)

lemma burst_admissions:
  fixes ts w n :: u64
  assumes "w \<le> ts" and "k \<le> unat n + 1" and "k \<le> unat n \<longrightarrow> j = 0"
  shows "admissions w n (replicate k (ts, True) @ replicate j (ts, False)) (replicate m ts) =
    map (\<lambda>x. k + x \<le> unat n) [0..<m]"
  using assms(2,3)
proof (induction m arbitrary: k j)
  case (Suc m)
  let ?evs = "replicate k (ts, True) @ replicate j (ts, False)"
  have le: "ts - w \<le> ts" using assms(1) by (simp add: word_sub_le)
  have "(?evs = [] \<or> length (in_window w (fst (last ?evs)) (counted ?evs)) \<le> unat n) \<longleftrightarrow> k \<le> unat n"
  proof (cases "?evs = []")
    case False
    then have "fst (last ?evs) = ts" by (auto simp: last_append)
    moreover have "length (in_window w ts (counted ?evs)) = k" using le by (simp only: burst_counted) simp
    ultimately show ?thesis using False by auto
  qed auto
  then have step: "admissions w n ?evs (replicate (Suc m) ts) =
      (k \<le> unat n) # admissions w n (?evs @ [(ts, k \<le> unat n)]) (replicate m ts)"
    by (simp only: replicate_Suc admissions.simps Let_def)
  have upt: "map (\<lambda>x. k + x \<le> unat n) [0..<Suc m] = (k \<le> unat n) # map (\<lambda>x. Suc k + x \<le> unat n) [0..<m]"
    by (simp add: upt_conv_Cons del: upt_Suc) (simp add: map_Suc_upt [symmetric] o_def del: upt_Suc)
  show ?case
  proof (cases "k \<le> unat n")
    case True
    then have "?evs @ [(ts, k \<le> unat n)] = replicate (Suc k) (ts, True) @ replicate 0 (ts, False)"
      using Suc.prems(2) by (simp add: replicate_append_same)
    then show ?thesis using step upt Suc.IH [of "Suc k" 0] True by simp
  next
    case False
    then have evs: "?evs @ [(ts, k \<le> unat n)] = replicate k (ts, True) @ replicate (Suc j) (ts, False)"
      by (simp add: replicate_append_same)
    have "map (\<lambda>x. Suc k + x \<le> unat n) [0..<m] = map (\<lambda>x. k + x \<le> unat n) [0..<m]"
      using False by simp
    then show ?thesis using step upt evs Suc.IH [of k "Suc j"] False Suc.prems by simp
  qed
qed simp

text \<open>
  The limit is off by one: of a burst of \<open>m\<close> requests in one instant the loop lets through the first
  \<open>n + 1\<close>, one more than the configured count \<open>n\<close>, and suppresses the rest.
\<close>

theorem burst_admits_one_too_many:
  assumes "list_all2 (request_of nm ts_field i) msgs (replicate m ts)" and "w \<le> ts"
    and "enforcer_lookup_filed_names e = [nm]" and "umap_find (enforcer_states e) i = None"
    and "builder_lookup_filed_names b = [nm]" and "time_stamp_field_name b = ts_field"
    and "updated_throttlers b = []"
    and "umap_find (throttlers b) i = Some (SlidingLogThrottler (new_sliding_log_throttler w n))"
  shows "\<exists>s'. throttle_rounds msgs (e, b) = Ok (s', map (\<lambda>k. k < unat n + 1) [0..<m])"
proof -
  have "\<exists>s'. throttle_rounds msgs (e, b) = Ok (s', admissions w n [] (replicate m ts))"
    using throttle_rounds_are_admissions [OF assms(1), of w "[]"] assms(2-) by (simp add: loop_at_def)
  then show ?thesis using burst_admissions [OF assms(2), of 0 n 0 m] by (simp add: less_Suc_eq_le)
qed

lemma list_all2_replicate_request:
  "list_all2 (request_of nm f i) [m1, m2] (replicate 2 ts) \<longleftrightarrow> request_of nm f i m1 ts \<and> request_of nm f i m2 ts"
  by (simp add: numeral_2_eq_2)

theorem burst_admits_one_too_many_witness:
  "\<exists>s'. throttle_rounds [example_request, example_request] example_loop = Ok (s', [True, True])"
proof -
  have "\<exists>s'. throttle_rounds [example_request, example_request] example_loop
     = Ok (s', map (\<lambda>k. k < unat (1 :: u64) + 1) [0..<2])"
    unfolding example_loop_def
    by (rule burst_admits_one_too_many [where nm = "''key''" and ts_field = "''time''" and i = "''c1''"
        and ts = 100 and w = 10])
      (simp_all add: request_of_def example_request_fields new_throttling_enforcer_def
        new_throttle_state_builder_def umap_find_def list_all2_replicate_request)
  then show ?thesis by (simp add: upt_rec)
qed

end
