(* ===== verification/Request_Validation.thy ===== *)
theory Request_Validation
  imports Key_Value_Store Dynamic_Message Base_Stage
begin

text \<open>
  \<open>src/stages/http_validation_stages\<close>: the validators of a request's headers, query parameters and
  path parameters, the section validators that run them over the entries of a typed group, and
  \<open>HttpRequestValidationStage\<close>. Validators are mutable objects: each call returns the new object.
  The three section classes have equal code; each is written out and proved equal
  to the first. Logging is left out.
\<close>

section \<open>Exceptions\<close>

text \<open>
  The exception classes of the file, which no validator throws: verdicts are flags. Their constructors take the key and
  the error; the text of a path or request exception speaks of a header.
\<close>

datatype validator_exception =
    HeaderValidatorException string string
  | QueryValidatorException string string
  | PathValidatorException string string
  | RequestValidatorException string string

fun validator_exception_what :: "validator_exception \<Rightarrow> string" where
  "validator_exception_what (HeaderValidatorException header_key err) =
     ''Validator error in header '' @ header_key @ ''['' @ err @ '']''"
| "validator_exception_what (QueryValidatorException query_key err) =
     ''Validator error in query '' @ query_key @ ''['' @ err @ '']''"
| "validator_exception_what (PathValidatorException header_key err) =
     ''Validator error in header '' @ header_key @ ''['' @ err @ '']''"
| "validator_exception_what (RequestValidatorException header_key err) =
     ''Validator error in header '' @ header_key @ ''['' @ err @ '']''"

lemma validator_exception_texts:
  "validator_exception_what (PathValidatorException k e) = validator_exception_what (HeaderValidatorException k e)"
  "validator_exception_what (QueryValidatorException k e) \<noteq> validator_exception_what (HeaderValidatorException k' e')"
  by simp_all

section \<open>Validators\<close>

definition isdigit :: "char \<Rightarrow> bool" where
  "isdigit c \<longleftrightarrow> 48 \<le> (of_char c :: nat) \<and> (of_char c :: nat) \<le> 57"

text \<open>The objects behind a validator pointer, with their \<open>_valid\<close> flag.\<close>

datatype validator =
    CompulsoryValidator bool
  | Int64TypeValidator bool
  | DoubleTypeValidator bool

definition int64_visit :: "string \<Rightarrow> bool" where
  "int64_visit str_value = list_all isdigit str_value"

definition double_visit :: "string \<Rightarrow> bool" where
  "double_visit str_value =
     (if count_list str_value (CHR ''.'') = 1 then
        (case str_find (CHR ''.'') str_value of
           Some position \<Rightarrow> list_all isdigit (str_substr str_value 0 position) \<and>
             list_all isdigit (str_substr str_value (position + 1) (length str_value))
         | None \<Rightarrow> False)
      else False)"

fun validator_visit :: "string \<Rightarrow> string \<Rightarrow> validator \<Rightarrow> validator" where
  "validator_visit key val (CompulsoryValidator _) = CompulsoryValidator True"
| "validator_visit key val (Int64TypeValidator _) = Int64TypeValidator (int64_visit val)"
| "validator_visit key val (DoubleTypeValidator _) = DoubleTypeValidator (double_visit val)"

fun is_validated :: "validator \<Rightarrow> bool" where
  "is_validated (CompulsoryValidator valid) = valid"
| "is_validated (Int64TypeValidator valid) = valid"
| "is_validated (DoubleTypeValidator valid) = valid"

fun validator_reset :: "validator \<Rightarrow> validator" where
  "validator_reset (CompulsoryValidator _) = CompulsoryValidator False"
| "validator_reset (Int64TypeValidator _) = Int64TypeValidator True"
| "validator_reset (DoubleTypeValidator _) = DoubleTypeValidator True"

section \<open>Section validators\<close>

text \<open>The multimap from keys to validators; equal keys may occur.\<close>

type_synonym section_validator = "(string \<times> validator) list"

definition add_compulsory_validator :: "string \<Rightarrow> section_validator \<Rightarrow> section_validator" where
  "add_compulsory_validator key vs = vs @ [(key, CompulsoryValidator False)]"

text \<open>The template argument \<open>data_t\<close> matters by its kind only.\<close>

datatype data_kind = Integral | Floating_point | Other_kind

definition add_data_type_validator :: "data_kind \<Rightarrow> string \<Rightarrow> section_validator \<Rightarrow> section_validator" where
  "add_data_type_validator data_t key vs =
     (if data_t = Integral then vs @ [(key, Int64TypeValidator True)]
      else if data_t = Floating_point then vs @ [(key, DoubleTypeValidator True)]
      else vs)"

definition visit_entry :: "string \<times> string \<Rightarrow> section_validator \<Rightarrow> section_validator" where
  "visit_entry entry vs =
     map (\<lambda>(k, v). if k = fst entry then (k, validator_visit (fst entry) (snd entry) v) else (k, v)) vs"

fun visit_entries :: "(string \<times> string) list \<Rightarrow> section_validator \<Rightarrow> section_validator" where
  "visit_entries [] vs = vs"
| "visit_entries (entry # entries) vs = visit_entries entries (visit_entry entry vs)"

definition section_validate :: "(string \<times> string) list \<Rightarrow> section_validator \<Rightarrow> section_validator \<times> bool" where
  "section_validate entries vs =
     (let vs' = visit_entries entries (map (\<lambda>(k, v). (k, validator_reset v)) vs) in
      (vs', list_all (\<lambda>(k, v). is_validated v) vs'))"

text \<open>\<open>QueryValidator\<close> and its wrapper.\<close>

fun query_validator_visit :: "string \<Rightarrow> string \<Rightarrow> validator \<Rightarrow> validator" where
  "query_validator_visit key val (CompulsoryValidator _) = CompulsoryValidator True"
| "query_validator_visit key val (Int64TypeValidator _) = Int64TypeValidator (int64_visit val)"
| "query_validator_visit key val (DoubleTypeValidator _) = DoubleTypeValidator (double_visit val)"

fun query_visit_entries :: "(string \<times> string) list \<Rightarrow> section_validator \<Rightarrow> section_validator" where
  "query_visit_entries [] vs = vs"
| "query_visit_entries ((s_key, s_value) # entries) vs =
     query_visit_entries entries
       (map (\<lambda>(k, v). if k = s_key then (k, query_validator_visit s_key s_value v) else (k, v)) vs)"

definition query_validate :: "(string \<times> string) list \<Rightarrow> section_validator \<Rightarrow> section_validator \<times> bool" where
  "query_validate entries vs =
     (let vs' = query_visit_entries entries (map (\<lambda>(k, v). (k, validator_reset v)) vs) in
      (vs', list_all (\<lambda>(k, v). is_validated v) vs'))"

definition query_add_compulsory_validator :: "string \<Rightarrow> section_validator \<Rightarrow> section_validator" where
  "query_add_compulsory_validator query_key vs = vs @ [(query_key, CompulsoryValidator False)]"

definition query_add_data_type_validator ::
  "data_kind \<Rightarrow> string \<Rightarrow> section_validator \<Rightarrow> section_validator"
where
  "query_add_data_type_validator data_t query_key vs =
     (if data_t = Integral then vs @ [(query_key, Int64TypeValidator True)]
      else if data_t = Floating_point then vs @ [(query_key, DoubleTypeValidator True)]
      else vs)"

text \<open>\<open>PathValidator\<close> and its wrapper.\<close>

fun path_validator_visit :: "string \<Rightarrow> string \<Rightarrow> validator \<Rightarrow> validator" where
  "path_validator_visit key val (CompulsoryValidator _) = CompulsoryValidator True"
| "path_validator_visit key val (Int64TypeValidator _) = Int64TypeValidator (int64_visit val)"
| "path_validator_visit key val (DoubleTypeValidator _) = DoubleTypeValidator (double_visit val)"

fun path_visit_entries :: "(string \<times> string) list \<Rightarrow> section_validator \<Rightarrow> section_validator" where
  "path_visit_entries [] vs = vs"
| "path_visit_entries ((s_key, s_value) # entries) vs =
     path_visit_entries entries
       (map (\<lambda>(k, v). if k = s_key then (k, path_validator_visit s_key s_value v) else (k, v)) vs)"

definition path_validate :: "(string \<times> string) list \<Rightarrow> section_validator \<Rightarrow> section_validator \<times> bool" where
  "path_validate entries vs =
     (let vs' = path_visit_entries entries (map (\<lambda>(k, v). (k, validator_reset v)) vs) in
      (vs', list_all (\<lambda>(k, v). is_validated v) vs'))"

definition path_add_compulsory_validator :: "string \<Rightarrow> section_validator \<Rightarrow> section_validator" where
  "path_add_compulsory_validator path_key vs = vs @ [(path_key, CompulsoryValidator False)]"

definition path_add_data_type_validator ::
  "data_kind \<Rightarrow> string \<Rightarrow> section_validator \<Rightarrow> section_validator"
where
  "path_add_data_type_validator data_t path_key vs =
     (if data_t = Integral then vs @ [(path_key, Int64TypeValidator True)]
      else if data_t = Floating_point then vs @ [(path_key, DoubleTypeValidator True)]
      else vs)"

record request_validator =
  header_validator :: section_validator
  query_validator :: section_validator
  path_validator :: section_validator

section \<open>\<open>HttpRequestValidationStage\<close>\<close>

text \<open>
  The store maps specification keys to the validator objects, which validation mutates. (Two keys may
  hold one object; \<open>section_validate\<close> resets it first, so no decision depends on that.)
\<close>

record http_request_validation_stage =
  validation_spec_store :: "request_validator key_complex_value_store"
  validator_key_combinations :: "string \<times> string"
  header_combinations :: string
  path_combinations :: string
  query_combinations :: string

definition new_http_request_validation_stage ::
  "request_validator key_complex_value_store \<Rightarrow> string \<times> string \<Rightarrow> string \<Rightarrow> string \<Rightarrow> string
     \<Rightarrow> http_request_validation_stage"
where
  "new_http_request_validation_stage store key_combinations headers paths queries =
     \<lparr>validation_spec_store = store, validator_key_combinations = key_combinations,
      header_combinations = headers, path_combinations = paths, query_combinations = queries\<rparr>"

text \<open>The last handler throws a copy of the static type \<open>std::runtime_error\<close>.\<close>

definition get_validation_spec ::
  "cxx_runtime \<Rightarrow> 'z dynamic_message_scheme \<Rightarrow> request_validator key_complex_value_store \<Rightarrow> string \<Rightarrow> string
     \<Rightarrow> (string \<times> request_validator) option cxx"
where
  "get_validation_spec rt msg store lookup_group lookup_name =
     catch_if is_runtime_error
       (\<lambda>ex. Throw (case ex of FieldGroupDoesNotExistException g \<Rightarrow> FieldGroupDoesNotExistException g
              | FieldNameDoesNotExistException g n \<Rightarrow> FieldNameDoesNotExistException g n
              | _ \<Rightarrow> Runtime_error (exn_what rt ex)))
       (and_then (get_field string_alt msg lookup_group lookup_name) (\<lambda>spec_key.
          if complex_contains store spec_key
          then and_then (get_value store spec_key) (\<lambda>v. Ok (Some (spec_key, v)))
          else Ok None))"

definition evaluate_validity ::
  "'z dynamic_message_scheme \<Rightarrow> request_validator \<Rightarrow> string \<Rightarrow> string \<Rightarrow> string
     \<Rightarrow> (request_validator \<times> bool) cxx"
where
  "evaluate_validity msg validator header_group path_group query_group =
     and_then (get_typed_group string_alt msg header_group) (\<lambda>hs.
     and_then (get_typed_group string_alt msg path_group) (\<lambda>ps.
     and_then (get_typed_group string_alt msg query_group) (\<lambda>qs.
     and_then (field_group_values string_alt hs) (\<lambda>headers.
       let (hv, h_ok) = section_validate headers (header_validator validator);
           validator1 = validator\<lparr>header_validator := hv\<rparr> in
       if \<not> h_ok then Ok (validator1, False)
       else and_then (field_group_values string_alt ps) (\<lambda>paths.
         let (pv, p_ok) = path_validate paths (path_validator validator1);
             validator2 = validator1\<lparr>path_validator := pv\<rparr> in
         if \<not> p_ok then Ok (validator2, False)
         else and_then (field_group_values string_alt qs) (\<lambda>queries.
           let (qv, q_ok) = query_validate queries (query_validator validator2);
               validator3 = validator2\<lparr>query_validator := qv\<rparr> in
           if \<not> q_ok then Ok (validator3, False) else Ok (validator3, True)))))))"

definition validation_on_message ::
  "cxx_runtime \<Rightarrow> 'z dynamic_message_scheme \<Rightarrow> http_request_validation_stage
     \<Rightarrow> (http_request_validation_stage \<times> 'z dynamic_message_scheme emission list) cxx"
where
  "validation_on_message rt msg st =
     noexcept
       (and_then (get_validation_spec rt msg (validation_spec_store st)
            (fst (validator_key_combinations st)) (snd (validator_key_combinations st))) (\<lambda>spec.
          and_then
            (case spec of
               None \<Rightarrow> Ok (st, True)
             | Some (spec_key, v) \<Rightarrow>
                 and_then (evaluate_validity msg v (header_combinations st) (path_combinations st)
                     (query_combinations st)) (\<lambda>(v', validity).
                   Ok (st\<lparr>validation_spec_store := add_value spec_key v' (validation_spec_store st)\<rparr>, validity)))
            (\<lambda>(st', validity).
               Ok (st', [(if validity then ''valid_requests_out'' else ''invalid_requests_out'', msg)]))))"

section \<open>The contract of a validator\<close>

text \<open>
  What a section relies on: after a reset and some visits, a validator answers for the last value
  visited (or for the absence of the key), whatever happened to the object before.
\<close>

locale key_validator =
  fixes visit :: "string \<Rightarrow> 'v \<Rightarrow> 'v" and validated :: "'v \<Rightarrow> bool" and reset :: "'v \<Rightarrow> 'v"
    and accepts :: "'v \<Rightarrow> string option \<Rightarrow> bool"
  assumes validated_reset: "validated (reset v) \<longleftrightarrow> accepts v None"
    and validated_visit: "validated (visit s v) \<longleftrightarrow> accepts v (Some s)"
    and accepts_visit: "accepts (visit s v) = accepts v"
    and accepts_reset: "accepts (reset v) = accepts v"
begin

lemma accepts_visits: "accepts (fold visit ss v) = accepts v"
  by (induction ss arbitrary: v) (simp_all add: accepts_visit)

lemma validated_visits:
  "validated (fold visit ss (reset v)) \<longleftrightarrow> accepts v (if ss = [] then None else Some (last ss))"
  by (cases ss rule: rev_cases) (simp_all add: validated_reset validated_visit accepts_visits accepts_reset)

lemma validated_fresh: "accepts v = accepts v' \<Longrightarrow>
  validated (fold visit ss (reset v)) = validated (fold visit ss (reset v'))"
  by (simp add: validated_visits)

end

text \<open>The specification of a decimal number: two runs of digits around one point.\<close>

definition is_decimal :: "string \<Rightarrow> bool" where
  "is_decimal s \<longleftrightarrow> (\<exists>a b. s = a @ CHR ''.'' # b \<and> list_all isdigit a \<and> list_all isdigit b)"

lemma isdigit_point [simp]: "\<not> isdigit (CHR ''.'')"
  by (simp add: isdigit_def)

lemma digits_no_point: "list_all isdigit s \<Longrightarrow> CHR ''.'' \<notin> set s"
  by (auto simp: list_all_iff)

lemma double_visit_iff: "double_visit s \<longleftrightarrow> is_decimal s"
proof
  assume "double_visit s"
  then obtain i where i: "str_find (CHR ''.'') s = Some i"
    "list_all isdigit (take i s)" "list_all isdigit (drop (Suc i) s)"
    by (auto simp: double_visit_def str_substr_def split: if_splits option.splits)
  with str_find_Some_decomp [OF i(1)] show "is_decimal s" by (auto simp: is_decimal_def)
next
  assume "is_decimal s"
  then obtain a b where s: "s = a @ CHR ''.'' # b" and d: "list_all isdigit a" "list_all isdigit b"
    by (auto simp: is_decimal_def)
  then show "double_visit s"
    using digits_no_point [OF d(1)] digits_no_point [OF d(2)]
    by (simp add: double_visit_def s str_find_split str_substr_def count_list_0_iff)
qed

fun validator_accepts :: "validator \<Rightarrow> string option \<Rightarrow> bool" where
  "validator_accepts (CompulsoryValidator _) val = (val \<noteq> None)"
| "validator_accepts (Int64TypeValidator _) val = (\<forall>s. val = Some s \<longrightarrow> list_all isdigit s)"
| "validator_accepts (DoubleTypeValidator _) val = (\<forall>s. val = Some s \<longrightarrow> is_decimal s)"

interpretation keyed: key_validator "validator_visit k" is_validated validator_reset validator_accepts
proof unfold_locales
  fix v s
  show "is_validated (validator_reset v) \<longleftrightarrow> validator_accepts v None" by (cases v) auto
  show "is_validated (validator_visit k s v) \<longleftrightarrow> validator_accepts v (Some s)"
    by (cases v) (auto simp: int64_visit_def double_visit_iff)
  show "validator_accepts (validator_visit k s v) = validator_accepts v" by (cases v) auto
  show "validator_accepts (validator_reset v) = validator_accepts v" by (cases v) auto
qed

section \<open>What a section accepts\<close>

definition section_accepts :: "section_validator \<Rightarrow> (string \<Rightarrow> string option) \<Rightarrow> bool" where
  "section_accepts vs request \<longleftrightarrow> list_all (\<lambda>(k, v). validator_accepts v (request k)) vs"

definition values_of :: "string \<Rightarrow> (string \<times> string) list \<Rightarrow> string list" where
  "values_of k entries = map snd (filter (\<lambda>e. fst e = k) entries)"

lemma visit_entries_fold:
  "visit_entries entries vs = map (\<lambda>(k, v). (k, fold (validator_visit k) (values_of k entries) v)) vs"
  by (induction entries arbitrary: vs) (auto simp: values_of_def visit_entry_def)

lemma values_of_distinct:
  "distinct (map fst entries) \<Longrightarrow> values_of k entries = (case map_of entries k of None \<Rightarrow> [] | Some x \<Rightarrow> [x])"
proof (induction entries)
  case (Cons e entries)
  then show ?case
    by (cases e) (auto simp: values_of_def filter_empty_conv image_iff split: option.splits)
qed (simp add: values_of_def)

lemma section_validate_accepts:
  assumes "distinct (map fst entries)"
  shows "snd (section_validate entries vs) \<longleftrightarrow> section_accepts vs (map_of entries)"
proof -
  have "is_validated (fold (validator_visit k) (values_of k entries) (validator_reset v)) \<longleftrightarrow>
      validator_accepts v (map_of entries k)" for k v
    by (simp add: keyed.validated_visits values_of_distinct [OF assms] split: option.splits)
  then show ?thesis
    by (simp add: section_validate_def section_accepts_def visit_entries_fold list_all_iff split_beta Let_def)
qed

text \<open>What survives validation: the keys and kinds of the validators.\<close>

definition section_shape :: "section_validator \<Rightarrow> section_validator" where
  "section_shape vs = map (\<lambda>(k, v). (k, validator_reset v)) vs"

lemma validator_reset_visits [simp]:
  "validator_reset (fold (validator_visit k) ss v) = validator_reset v"
proof (induction ss arbitrary: v)
  case (Cons s ss)
  then show ?case by (cases v) simp_all
qed simp

lemma validator_reset_reset [simp]: "validator_reset (validator_reset v) = validator_reset v"
  by (cases v) simp_all

lemma section_validate_shape: "section_shape (fst (section_validate entries vs)) = section_shape vs"
  by (simp add: section_validate_def section_shape_def visit_entries_fold Let_def split_beta)

lemma section_accepts_shape: "section_accepts (section_shape vs) = section_accepts vs"
  by (auto simp: section_accepts_def section_shape_def list_all_iff keyed.accepts_reset fun_eq_iff)

text \<open>
  C15: A section validator decides its specification: with distinct keys it passes exactly when every
  compulsory key is present, every present integer key holds digits only, and every present decimal key
  holds digits around one point. The answer depends neither on the order of the entries nor
  on what the validator objects have seen before, and validation keeps their keys and kinds.
\<close>

theorem section_validator_correct:
  assumes "distinct (map fst entries)"
  shows "(snd (section_validate entries vs) \<longleftrightarrow> section_accepts vs (map_of entries)) \<and>
    (set entries' = set entries \<and> distinct (map fst entries') \<and> section_shape vs' = section_shape vs \<longrightarrow>
       snd (section_validate entries' vs') = snd (section_validate entries vs)) \<and>
    section_shape (fst (section_validate entries vs)) = section_shape vs"
proof (intro conjI impI)
  assume same: "set entries' = set entries \<and> distinct (map fst entries') \<and> section_shape vs' = section_shape vs"
  then have "map_of entries' = map_of entries"
    using map_of_inject_set [OF _ assms] by blast
  then show "snd (section_validate entries' vs') = snd (section_validate entries vs)"
    using same section_accepts_shape [of vs] section_accepts_shape [of vs']
    by (simp add: section_validate_accepts assms)
qed (simp_all add: section_validate_accepts assms section_validate_shape)

theorem section_validator_correct_witness:
  "\<not> snd (section_validate [(''id'', ''12a''), (''host'', ''h'')]
      [(''host'', CompulsoryValidator False), (''id'', Int64TypeValidator True)])"
  using section_validator_correct [of "[(''id'', ''12a''), (''host'', ''h'')]"
      "[(''host'', CompulsoryValidator False), (''id'', Int64TypeValidator True)]"]
  by (simp add: section_accepts_def isdigit_def)

section \<open>What the stage decides\<close>

lemma query_path_visit: "query_validator_visit = validator_visit" "path_validator_visit = validator_visit"
proof -
  have "query_validator_visit key val v = validator_visit key val v"
    "path_validator_visit key val v = validator_visit key val v" for key val v
    by (cases v; simp)+
  then show "query_validator_visit = validator_visit" "path_validator_visit = validator_visit" by blast+
qed

lemma query_path_visit_entries: "query_visit_entries entries vs = visit_entries entries vs"
    "path_visit_entries entries vs = visit_entries entries vs"
  by (induction entries arbitrary: vs) (auto simp: visit_entry_def query_path_visit cong: if_cong)

lemma query_path_validate [simp]: "query_validate = section_validate" "path_validate = section_validate"
  by (simp_all add: fun_eq_iff query_validate_def path_validate_def section_validate_def query_path_visit_entries)

lemma query_path_add [simp]:
  "query_add_compulsory_validator = add_compulsory_validator" "path_add_compulsory_validator = add_compulsory_validator"
  "query_add_data_type_validator = add_data_type_validator" "path_add_data_type_validator = add_data_type_validator"
  by (simp_all add: fun_eq_iff query_add_compulsory_validator_def path_add_compulsory_validator_def
      query_add_data_type_validator_def path_add_data_type_validator_def
      add_compulsory_validator_def add_data_type_validator_def)

text \<open>What the building operations add to a specification.\<close>

lemma add_compulsory_accepts:
  "section_accepts (add_compulsory_validator key vs) request \<longleftrightarrow> section_accepts vs request \<and> request key \<noteq> None"
  by (auto simp: section_accepts_def add_compulsory_validator_def)

lemma add_data_type_accepts:
  "section_accepts (add_data_type_validator data_t key vs) request \<longleftrightarrow> section_accepts vs request \<and>
     (\<forall>s. request key = Some s \<longrightarrow>
        (case data_t of Integral \<Rightarrow> list_all isdigit s | Floating_point \<Rightarrow> is_decimal s | Other_kind \<Rightarrow> True))"
  by (cases data_t) (auto simp: section_accepts_def add_data_type_validator_def)

definition request_accepts ::
  "request_validator \<Rightarrow> 'z dynamic_message_scheme \<Rightarrow> http_request_validation_stage \<Rightarrow> bool"
where
  "request_accepts v msg st \<longleftrightarrow>
     section_accepts (header_validator v) (group_view msg (header_combinations st)) \<and>
     section_accepts (path_validator v) (group_view msg (path_combinations st)) \<and>
     section_accepts (query_validator v) (group_view msg (query_combinations st))"

lemma evaluate_validity_decides:
  assumes "dm_wf msg" and "has_string_group msg (header_combinations st)"
    and "has_string_group msg (path_combinations st)" and "has_string_group msg (query_combinations st)"
  shows "\<exists>v'. evaluate_validity msg v (header_combinations st) (path_combinations st) (query_combinations st)
    = Ok (v', request_accepts v msg st)"
proof -
  note rd = group_readable [OF assms(1)]
  obtain hs where hs: "get_typed_group string_alt msg (header_combinations st) = Ok hs"
    using assms(2) by (rule has_string_groupE)
  obtain ps where ps: "get_typed_group string_alt msg (path_combinations st) = Ok ps"
    using assms(3) by (rule has_string_groupE)
  obtain qs where qs: "get_typed_group string_alt msg (query_combinations st) = Ok qs"
    using assms(4) by (rule has_string_groupE)
  obtain h where h: "field_group_values string_alt hs = Ok h" "distinct (map fst h)"
    "map_of h = group_view msg (header_combinations st)" using rd [OF hs] by blast
  obtain p where p: "field_group_values string_alt ps = Ok p" "distinct (map fst p)"
    "map_of p = group_view msg (path_combinations st)" using rd [OF ps] by blast
  obtain q where q: "field_group_values string_alt qs = Ok q" "distinct (map fst q)"
    "map_of q = group_view msg (query_combinations st)" using rd [OF qs] by blast
  show ?thesis
    by (simp add: evaluate_validity_def hs ps qs h p q split_beta Let_def section_validate_accepts
        request_accepts_def)
qed

lemma evaluate_validity_refuses:
  assumes "\<not> (has_string_group msg hg \<and> has_string_group msg pg \<and> has_string_group msg qg)"
  shows "\<exists>e. evaluate_validity msg v hg pg qg = Throw e"
  using assms get_typed_group_not_Fault
  by (cases "get_typed_group string_alt msg hg"; cases "get_typed_group string_alt msg pg";
      cases "get_typed_group string_alt msg qg")
    (auto simp: evaluate_validity_def has_string_group_def)

lemma get_validation_spec_Ok:
  "get_field string_alt msg g n = Ok key \<Longrightarrow>
   get_validation_spec rt msg store g n = Ok (map_option (Pair key) (umap_find store key))"
  by (auto simp: get_validation_spec_def complex_contains_def get_value_def umap_contains_def
      split: option.splits)

lemma get_validation_spec_Throw:
  "get_field string_alt msg g n = Throw e \<Longrightarrow> \<exists>e. get_validation_spec rt msg store g n = Throw e"
  by (simp add: get_validation_spec_def)

text \<open>
  C7: The validation stage forwards every request exactly once and unchanged. A request whose
  specification key is not in the store is valid; otherwise, when its three groups exist, it is valid exactly
  if its headers, path parameters and query parameters satisfy the specification stored under the key.
  A request without the key field, or with a specification but without one of its groups, ends the process.
\<close>

theorem request_validation_decides:
  assumes "dm_wf msg"
  shows "(get_field string_alt msg (fst (validator_key_combinations st)) (snd (validator_key_combinations st)) = Ok key \<longrightarrow>
     (umap_find (validation_spec_store st) key = None \<longrightarrow>
        validation_on_message rt msg st = Ok (st, [(''valid_requests_out'', msg)])) \<and>
     (\<forall>v. umap_find (validation_spec_store st) key = Some v \<longrightarrow>
        (if has_string_group msg (header_combinations st) \<and> has_string_group msg (path_combinations st) \<and>
            has_string_group msg (query_combinations st)
         then \<exists>st'. validation_on_message rt msg st =
           Ok (st', [(if request_accepts v msg st then ''valid_requests_out'' else ''invalid_requests_out'', msg)])
         else \<exists>e. validation_on_message rt msg st = Fault (Terminate e)))) \<and>
   (get_field string_alt msg (fst (validator_key_combinations st)) (snd (validator_key_combinations st)) = Throw e \<longrightarrow>
     (\<exists>e. validation_on_message rt msg st = Fault (Terminate e)))"
proof (intro conjI impI allI)
  assume key: "get_field string_alt msg (fst (validator_key_combinations st)) (snd (validator_key_combinations st)) = Ok key"
  show "validation_on_message rt msg st = Ok (st, [(''valid_requests_out'', msg)])"
    if "umap_find (validation_spec_store st) key = None"
    using that by (simp add: validation_on_message_def get_validation_spec_Ok [OF key])
  fix v
  assume v: "umap_find (validation_spec_store st) key = Some v"
  let ?groups = "has_string_group msg (header_combinations st) \<and> has_string_group msg (path_combinations st) \<and>
    has_string_group msg (query_combinations st)"
  have "?groups \<Longrightarrow> \<exists>st'. validation_on_message rt msg st =
      Ok (st', [(if request_accepts v msg st then ''valid_requests_out'' else ''invalid_requests_out'', msg)])"
    using evaluate_validity_decides [OF assms, of st v]
    by (auto simp: validation_on_message_def get_validation_spec_Ok [OF key] v)
  moreover have "\<exists>e. validation_on_message rt msg st = Fault (Terminate e)" if "\<not> ?groups"
    using evaluate_validity_refuses [OF that, of v]
    by (auto simp: validation_on_message_def get_validation_spec_Ok [OF key] v)
  ultimately show "if ?groups then \<exists>st'. validation_on_message rt msg st =
      Ok (st', [(if request_accepts v msg st then ''valid_requests_out'' else ''invalid_requests_out'', msg)])
    else \<exists>e. validation_on_message rt msg st = Fault (Terminate e)" by simp
next
  assume "get_field string_alt msg (fst (validator_key_combinations st)) (snd (validator_key_combinations st)) = Throw e"
  from get_validation_spec_Throw [OF this, of rt "validation_spec_store st"]
  show "\<exists>e. validation_on_message rt msg st = Fault (Terminate e)"
    by (auto simp: validation_on_message_def)
qed

section \<open>What a run of requests keeps\<close>

text \<open>
  Two states of the stage with the same specifications: the validator objects may differ in what they have seen. They
  judge every request alike, and validation goes from one to another.
\<close>

definition validator_shape :: "request_validator \<Rightarrow> request_validator" where
  "validator_shape v = \<lparr>header_validator = section_shape (header_validator v),
     query_validator = section_shape (query_validator v), path_validator = section_shape (path_validator v)\<rparr>"

definition same_specs :: "http_request_validation_stage \<Rightarrow> http_request_validation_stage \<Rightarrow> bool" where
  "same_specs st st' \<longleftrightarrow> validator_key_combinations st' = validator_key_combinations st \<and>
     header_combinations st' = header_combinations st \<and> path_combinations st' = path_combinations st \<and>
     query_combinations st' = query_combinations st \<and>
     map_option validator_shape \<circ> umap_find (validation_spec_store st') =
       map_option validator_shape \<circ> umap_find (validation_spec_store st)"

definition valid_request :: "'z dynamic_message_scheme \<Rightarrow> http_request_validation_stage \<Rightarrow> bool" where
  "valid_request msg st =
     (case get_field string_alt msg (fst (validator_key_combinations st)) (snd (validator_key_combinations st)) of
        Ok key \<Rightarrow> (case umap_find (validation_spec_store st) key of None \<Rightarrow> True | Some v \<Rightarrow> request_accepts v msg st)
      | _ \<Rightarrow> False)"

definition judgeable :: "'z dynamic_message_scheme \<Rightarrow> http_request_validation_stage \<Rightarrow> bool" where
  "judgeable msg st =
     (case get_field string_alt msg (fst (validator_key_combinations st)) (snd (validator_key_combinations st)) of
        Ok key \<Rightarrow> umap_find (validation_spec_store st) key = None \<or>
          dm_wf msg \<and> has_string_group msg (header_combinations st) \<and> has_string_group msg (path_combinations st) \<and>
          has_string_group msg (query_combinations st)
      | _ \<Rightarrow> False)"

lemma same_specs_refl [simp]: "same_specs st st"
  by (simp add: same_specs_def)

lemma same_specs_trans: "same_specs st st' \<Longrightarrow> same_specs st' st'' \<Longrightarrow> same_specs st st''"
  by (simp add: same_specs_def)

lemma request_accepts_shape: "validator_shape v' = validator_shape v \<Longrightarrow> request_accepts v' msg st = request_accepts v msg st"
  unfolding request_accepts_def validator_shape_def
  by (metis request_validator.ext_inject section_accepts_shape)

lemma same_specs_judge:
  assumes "same_specs st st'"
  shows "valid_request msg st' = valid_request msg st" and "judgeable msg st' = judgeable msg st"
proof -
  have find: "map_option validator_shape (umap_find (validation_spec_store st') k) =
      map_option validator_shape (umap_find (validation_spec_store st) k)" for k
    using assms by (simp add: same_specs_def fun_eq_iff)
  have accepts: "request_accepts v msg st' = request_accepts v msg st" for v
    using assms by (simp add: same_specs_def request_accepts_def)
  have same: "(case umap_find (validation_spec_store st') k of None \<Rightarrow> True | Some v \<Rightarrow> request_accepts v msg st') =
      (case umap_find (validation_spec_store st) k of None \<Rightarrow> True | Some v \<Rightarrow> request_accepts v msg st)" for k
    unfolding accepts using find [of k] by (auto split: option.splits dest: request_accepts_shape)
  have "(umap_find (validation_spec_store st') k = None) = (umap_find (validation_spec_store st) k = None)" for k
    using find [of k] by (metis option.map_disc_iff)
  then show "valid_request msg st' = valid_request msg st" "judgeable msg st' = judgeable msg st"
    using assms by (simp_all only: valid_request_def judgeable_def same same_specs_def)
qed

lemma evaluate_validity_shape:
  "evaluate_validity msg v hg pg qg = Ok (v', b) \<Longrightarrow> validator_shape v' = validator_shape v"
  by (auto simp: evaluate_validity_def and_then_Ok_iff Let_def split_beta validator_shape_def section_validate_shape
      split: if_splits)

lemma validation_judges:
  assumes "judgeable msg st"
  shows "\<exists>st'. validation_on_message rt msg st =
      Ok (st', [(if valid_request msg st then ''valid_requests_out'' else ''invalid_requests_out'', msg)]) \<and> same_specs st st'"
proof -
  obtain key where key: "get_field string_alt msg (fst (validator_key_combinations st)) (snd (validator_key_combinations st)) = Ok key"
    using assms by (auto simp: judgeable_def split: outcome.splits)
  show ?thesis
  proof (cases "umap_find (validation_spec_store st) key")
    case None
    then show ?thesis by (simp add: validation_on_message_def get_validation_spec_Ok [OF key] valid_request_def key)
  next
    case (Some v)
    then obtain v' where v': "evaluate_validity msg v (header_combinations st) (path_combinations st) (query_combinations st)
        = Ok (v', request_accepts v msg st)"
      using evaluate_validity_decides [of msg st v] assms by (auto simp: judgeable_def key)
    let ?st = "st\<lparr>validation_spec_store := add_value key v' (validation_spec_store st)\<rparr>"
    have "same_specs st ?st"
      using evaluate_validity_shape [OF v'] by (auto simp: same_specs_def fun_eq_iff add_value_def um.find_assign Some)
    then show ?thesis
      by (simp add: validation_on_message_def get_validation_spec_Ok [OF key] valid_request_def key Some v')
  qed
qed

text \<open>A well-formed request that cannot be judged ends the process.\<close>

lemma unjudgeable_ends:
  assumes "dm_wf msg" and "\<not> judgeable msg st"
  shows "\<exists>e. validation_on_message rt msg st = Fault (Terminate e)"
proof (cases "get_field string_alt msg (fst (validator_key_combinations st)) (snd (validator_key_combinations st))")
  case (Ok key)
  then obtain v where v: "umap_find (validation_spec_store st) key = Some v" using assms by (auto simp: judgeable_def)
  then have "\<not> (has_string_group msg (header_combinations st) \<and> has_string_group msg (path_combinations st) \<and>
      has_string_group msg (query_combinations st))" using assms by (auto simp: judgeable_def Ok)
  from evaluate_validity_refuses [OF this, of v] show ?thesis
    by (auto simp: validation_on_message_def get_validation_spec_Ok [OF Ok] v)
next
  case (Throw e)
  from get_validation_spec_Throw [OF this, of rt "validation_spec_store st"] show ?thesis by (auto simp: validation_on_message_def)
qed simp

definition example_validation_stage :: http_request_validation_stage where
  "example_validation_stage = new_http_request_validation_stage
     [(''spec'', \<lparr>header_validator = add_compulsory_validator ''host'' [], query_validator = [], path_validator = []\<rparr>)]
     (''info'', ''spec_key'') ''http_headers'' ''http_headers'' ''http_headers''"

definition example_http_message :: dynamic_message where
  "example_http_message = set_field string_alt ''info'' ''spec_key'' ''spec'' example_headers"

lemma example_http_message_facts:
  "dm_wf example_http_message"
  "get_field string_alt example_http_message ''info'' ''spec_key'' = Ok ''spec''"
  "has_string_group example_http_message ''http_headers''"
  "group_view example_http_message ''http_headers'' ''host'' = Some ''h''"
  by (simp_all add: example_http_message_def set_field_wf example_headers_wf)
    (simp_all add: has_string_group_def get_typed_group_def group_view_def get_typed_field_def
      example_headers_def umap_find_def string_alt_def std_get_def)

theorem request_validation_decides_witness:
  "\<exists>st'. validation_on_message example_runtime example_http_message example_validation_stage
     = Ok (st', [(''valid_requests_out'', example_http_message)])"
  using request_validation_decides [OF example_http_message_facts(1), of example_validation_stage "''spec''" example_runtime]
  by (simp add: example_validation_stage_def new_http_request_validation_stage_def example_http_message_facts
      umap_find_def request_accepts_def add_compulsory_validator_def section_accepts_def)

end
