(* ===== verification/Filter_Stage.thy ===== *)
theory Filter_Stage
  imports Key_Value_Store Dynamic_Message Base_Stage
begin

text \<open>
  \<open>src/stages/filter_stage/filter_present_absent_stage.h\<close>: \<open>FilterPresentAbsentStage<if_present>\<close>, the
  white list (\<open>if_present\<close>) and the black list over sets of strings kept in the key value store.
  Every exception is caught and reported in the message. Logging is left out.
\<close>

section \<open>State and handler\<close>

text \<open>A combination names the field with the key of the set and the field with the value.\<close>

type_synonym field_combination = "(string \<times> string) \<times> (string \<times> string)"

record filter_stage =
  filter_store :: key_value_store
  field_combinations :: "field_combination list"

definition new_filter_stage :: "key_value_store \<Rightarrow> field_combination list \<Rightarrow> filter_stage" where
  "new_filter_stage store combinations = \<lparr>filter_store = store, field_combinations = combinations\<rparr>"

text \<open>The loop over the combinations; \<open>filtered\<close> is its local variable.\<close>

fun filter_loop ::
  "bool \<Rightarrow> key_value_store \<Rightarrow> 'z dynamic_message_scheme \<Rightarrow> field_combination list \<Rightarrow> bool \<Rightarrow> bool cxx"
where
  "filter_loop if_present store msg [] filtered = Ok filtered"
| "filter_loop if_present store msg ((set_lookup, value_lookup) # rest) filtered =
     and_then (get_field string_alt msg (fst set_lookup) (snd set_lookup)) (\<lambda>set_key.
     and_then (get_field string_alt msg (fst value_lookup) (snd value_lookup)) (\<lambda>val.
       if \<not> set_key_exist store set_key then filter_loop if_present store msg rest filtered
       else and_then (contains_in_set kv_string_alt store set_key val) (\<lambda>value_in_set.
         filter_loop if_present store msg rest
           (if if_present \<and> \<not> value_in_set then True
            else if \<not> if_present \<and> value_in_set then True
            else filtered))))"

definition filter_exception_out ::
  "cxx_runtime \<Rightarrow> 'z dynamic_message_scheme \<Rightarrow> exn \<Rightarrow> 'z dynamic_message_scheme emission list cxx"
where
  "filter_exception_out rt msg e =
     Ok [(''exception_out'', set_field string_alt ''exceptions'' ''FilterPresentAbsentStage'' (exn_what rt e) msg)]"

definition filter_on_message ::
  "cxx_runtime \<Rightarrow> bool \<Rightarrow> 'z dynamic_message_scheme \<Rightarrow> filter_stage \<Rightarrow> 'z dynamic_message_scheme emission list cxx"
where
  "filter_on_message rt if_present msg st =
     noexcept
       (catch_if is_std_exception
          (\<lambda>e. if is_key_missing e then filter_exception_out rt msg e else filter_exception_out rt msg e)
          (and_then (filter_loop if_present (filter_store st) msg (field_combinations st) False) (\<lambda>filtered.
             Ok [(if filtered then ''filtered'' else ''out'', msg)])))"

section \<open>What a combination decides\<close>

text \<open>
  The answer of one combination: \<open>None\<close> when its set does not exist, which turns the check off.
\<close>

definition membership :: "key_value_store \<Rightarrow> 'z dynamic_message_scheme \<Rightarrow> field_combination \<Rightarrow> bool option cxx" where
  "membership store msg comb =
     and_then (get_field string_alt msg (fst (fst comb)) (snd (fst comb))) (\<lambda>set_key.
     and_then (get_field string_alt msg (fst (snd comb)) (snd (snd comb))) (\<lambda>val.
       if set_key_exist store set_key
       then and_then (contains_in_set kv_string_alt store set_key val) (\<lambda>ans. Ok (Some ans))
       else Ok None))"

lemma filter_loop_membership:
  "filter_loop p store msg (c # cs) filtered =
     and_then (membership store msg c) (\<lambda>m.
       filter_loop p store msg cs (filtered \<or> m = Some (\<not> p)))"
proof -
  obtain g k where c: "c = (g, k)" by (cases c)
  show ?thesis
    unfolding c membership_def filter_loop.simps fst_conv snd_conv and_then_assoc
    by (intro and_then_cong) (cases p; auto intro!: and_then_cong)
qed

lemma filter_loop_Ok:
  "list_all (\<lambda>c. \<exists>m. membership store msg c = Ok m) cs \<Longrightarrow>
   filter_loop p store msg cs filtered =
     Ok (filtered \<or> (\<exists>c \<in> set cs. membership store msg c = Ok (Some (\<not> p))))"
  by (induction cs arbitrary: filtered)
    (auto simp: filter_loop_membership simp del: filter_loop.simps(2))

lemma filter_loop_Throw:
  "list_all (\<lambda>c. \<exists>m. membership store msg c = Ok m) pre \<Longrightarrow> membership store msg c = Throw e \<Longrightarrow>
   filter_loop p store msg (pre @ c # post) filtered = Throw e"
  by (induction pre arbitrary: filtered)
    (auto simp: filter_loop_membership simp del: filter_loop.simps(2))

lemma membership_outcome:
  "(\<exists>m. membership store msg c = Ok m) \<or> (\<exists>e. membership store msg c = Throw e \<and> is_std_exception e)"
proof (cases "membership store msg c")
  case (Throw e)
  then show ?thesis
    by (auto simp: membership_def and_then_Throw_iff get_field_throws_std kv_sets.contains_throws_std
        split: if_splits)
next
  case (Fault f)
  then show ?thesis
    by (auto simp: membership_def and_then_Fault_iff kv_sets.contains_not_Fault split: if_splits)
qed simp

lemma list_split_first: "\<not> list_all P xs \<Longrightarrow> \<exists>pre x post. xs = pre @ x # post \<and> list_all P pre \<and> \<not> P x"
proof -
  assume "\<not> list_all P xs"
  then have "\<exists>x \<in> set xs. \<not> P x" by (simp add: list_all_iff)
  from split_list_first_prop [OF this] show ?thesis by (auto simp: list_all_iff)
qed

lemma filtering_combinations:
  "list_all (\<lambda>c. \<exists>m. membership store msg c = Ok m) cs \<Longrightarrow>
   (\<forall>c \<in> set cs. membership store msg c \<in> {Ok None, Ok (Some p)}) \<longleftrightarrow>
   \<not> (\<exists>c \<in> set cs. membership store msg c = Ok (Some (\<not> p)))"
proof (induction cs)
  case (Cons c cs)
  then obtain m where "membership store msg c = Ok m" by auto
  then show ?case using Cons by (cases m) auto
qed simp

text \<open>
  C26: The white list forwards a request exactly when, for every combination whose set exists, the value is
  in the set; the black list exactly when no value is in its set. A combination whose set
  does not exist never filters.
\<close>

theorem filter_decision:
  assumes "list_all (\<lambda>c. \<exists>m. membership (filter_store st) msg c = Ok m) (field_combinations st)"
  shows "filter_on_message rt True msg st =
      Ok [(if \<forall>c \<in> set (field_combinations st). membership (filter_store st) msg c \<in> {Ok None, Ok (Some True)}
           then ''out'' else ''filtered'', msg)] \<and>
    filter_on_message rt False msg st =
      Ok [(if \<forall>c \<in> set (field_combinations st). membership (filter_store st) msg c \<in> {Ok None, Ok (Some False)}
           then ''out'' else ''filtered'', msg)]"
  using assms filtering_combinations [OF assms] by (simp add: filter_on_message_def filter_loop_Ok)

definition example_filter :: filter_stage where
  "example_filter = \<lparr>filter_store = empty_store\<lparr>set_value_keys := [(''numbers'', (T_string, [KV_string ''v'']))]\<rparr>,
     field_combinations = [((''info'', ''set''), (''info'', ''value''))]\<rparr>"

definition example_filter_message :: "string \<Rightarrow> dynamic_message" where
  "example_filter_message v = set_field string_alt ''info'' ''value'' v
     (set_field string_alt ''info'' ''set'' ''numbers'' empty_message)"

lemma example_filter_membership:
  "membership (filter_store example_filter) (example_filter_message v) ((''info'', ''set''), (''info'', ''value''))
     = Ok (Some (v = ''v''))"
proof -
  have "get_field string_alt (example_filter_message v) ''info'' ''set'' = Ok ''numbers''"
    unfolding example_filter_message_def by (rule get_field_set_Ok_iff [THEN iffD2]) simp_all
  moreover have "get_field string_alt (example_filter_message v) ''info'' ''value'' = Ok v"
    by (simp add: example_filter_message_def)
  ultimately show ?thesis
    by (simp add: membership_def example_filter_def set_key_exist_def umap_contains_def contains_in_set_def
        umap_find_def) (simp add: kv_string_alt_def)
qed

theorem filter_decision_witness:
  "filter_on_message example_runtime True (example_filter_message ''w'') example_filter
     = Ok [(''filtered'', example_filter_message ''w'')] \<and>
   filter_on_message example_runtime False (example_filter_message ''w'') example_filter
     = Ok [(''out'', example_filter_message ''w'')]"
proof -
  have combs: "field_combinations example_filter = [((''info'', ''set''), (''info'', ''value''))]"
    by (simp add: example_filter_def)
  show ?thesis
    using filter_decision [of example_filter "example_filter_message ''w''" example_runtime]
    by (simp add: combs example_filter_membership)
qed

text \<open>
  The stage never ends the process and answers every message exactly once. The first
  combination that cannot be decided (a missing group, field or a value of another type, a set of another
  type) sends the message to \<open>exception_out\<close>, with the error text in its field
  \<open>exceptions\<close>/\<open>FilterPresentAbsentStage\<close>, even if an earlier combination had already filtered it.
\<close>

theorem filter_is_total:
  "(\<exists>port msg'. filter_on_message rt p msg st = Ok [(port, msg')]) \<and>
   (\<forall>pre c post e. field_combinations st = pre @ c # post \<and>
      list_all (\<lambda>c. \<exists>m. membership (filter_store st) msg c = Ok m) pre \<and>
      membership (filter_store st) msg c = Throw e \<longrightarrow>
      filter_on_message rt p msg st = Ok [(''exception_out'',
        set_field string_alt ''exceptions'' ''FilterPresentAbsentStage'' (exn_what rt e) msg)])"
proof -
  have failing: "filter_on_message rt p msg st = Ok [(''exception_out'',
      set_field string_alt ''exceptions'' ''FilterPresentAbsentStage'' (exn_what rt e) msg)]"
    if "field_combinations st = pre @ c # post" "list_all (\<lambda>c. \<exists>m. membership (filter_store st) msg c = Ok m) pre"
      "membership (filter_store st) msg c = Throw e" for pre c post e
    using that filter_loop_Throw [OF that(2,3)] membership_outcome [of "filter_store st" msg c]
    by (simp add: filter_on_message_def filter_exception_out_def)
  have "\<exists>port msg'. filter_on_message rt p msg st = Ok [(port, msg')]"
  proof (cases "list_all (\<lambda>c. \<exists>m. membership (filter_store st) msg c = Ok m) (field_combinations st)")
    case True
    then show ?thesis by (simp add: filter_on_message_def filter_loop_Ok)
  next
    case False
    from list_split_first [OF this] obtain pre c post e where
      "field_combinations st = pre @ c # post" "list_all (\<lambda>c. \<exists>m. membership (filter_store st) msg c = Ok m) pre"
      "membership (filter_store st) msg c = Throw e"
      using membership_outcome by blast
    then show ?thesis using failing by blast
  qed
  then show ?thesis using failing by blast
qed

theorem filter_is_total_witness:
  "filter_on_message example_runtime True empty_message example_filter = Ok [(''exception_out'',
     set_field string_alt ''exceptions'' ''FilterPresentAbsentStage''
       (exn_what example_runtime (FieldGroupDoesNotExistException ''info'')) empty_message)]"
proof -
  have combs: "field_combinations example_filter = [((''info'', ''set''), (''info'', ''value''))]"
    by (simp add: example_filter_def)
  have "membership (filter_store example_filter) empty_message ((''info'', ''set''), (''info'', ''value''))
      = Throw (FieldGroupDoesNotExistException ''info'')"
    by (simp add: membership_def get_field_def empty_message_def)
  then show ?thesis
    using filter_is_total [of example_runtime True empty_message example_filter]
    by (auto simp: combs dest: spec [of _ "[]"])
qed

end
