(* ===== verification/Load_Balancers.thy ===== *)
theory Load_Balancers
  imports Key_Value_Store Dynamic_Message Base_Stage
begin

text \<open>
  \<open>src/stages/load_balancer_stages\<close>: \<open>RoundRobinLoadBalancerStage\<close>, which picks a back end of a pool kept
  in the key value store, and \<open>InProcessRoundRobinLoadBalancerStage\<close>, which spreads messages over its own
  sources with an atomic counter; its handler is modelled both as one call and as the
  atomic steps of calls that overlap.
\<close>

section \<open>\<open>RoundRobinLoadBalancerStage\<close>\<close>

record round_robin_load_balancer =
  pool_lookup_field :: "string \<times> string"
  balancer_store :: key_value_store
  last_selection_index :: "(string, u8) umap"

definition new_round_robin_load_balancer :: "string \<times> string \<Rightarrow> key_value_store \<Rightarrow> round_robin_load_balancer" where
  "new_round_robin_load_balancer lookup store =
     \<lparr>pool_lookup_field = lookup, balancer_store = store, last_selection_index = []\<rparr>"

text \<open>The new index: \<open>++index\<close> at eight bits, the remainder at 32 bits, the conversion back.\<close>

definition next_index :: "u8 \<Rightarrow> u32 \<Rightarrow> u8" where
  "next_index index end_point_count = ucast ((ucast (index + 1) :: u32) mod end_point_count)"

text \<open>The reads and writes after the index is stored.\<close>

definition select_endpoint ::
  "key_value_store \<Rightarrow> string \<Rightarrow> u8 \<Rightarrow> 'z dynamic_message_scheme \<Rightarrow> 'z dynamic_message_scheme cxx"
where
  "select_endpoint store backend_pool_key index msg =
     and_then (get_at_list kv_string_alt store backend_pool_key (ucast index)) (\<lambda>endpoint_key.
     and_then (kv_get kv_string_alt store (endpoint_key @ ''/host'')) (\<lambda>endpoint_host.
     and_then (kv_get kv_string_alt store (endpoint_key @ ''/port'')) (\<lambda>endpoint_port.
       Ok (set_field string_alt ''load_balancing'' ''endpoint_port'' endpoint_port
         (set_field string_alt ''load_balancing'' ''endpoint_host'' endpoint_host msg)))))"

text \<open>
  The empty handler of \<open>std::exception\<close>: the message is dropped, and the state is the one at the throw,
  before or after the index was written. A remainder by zero is undefined.
\<close>

definition round_robin_on_message ::
  "'z dynamic_message_scheme \<Rightarrow> round_robin_load_balancer
     \<Rightarrow> (round_robin_load_balancer \<times> 'z dynamic_message_scheme emission list) cxx"
where
  "round_robin_on_message msg st =
     noexcept
       (catch_if is_std_exception (\<lambda>ex. Ok (st, []))
         (and_then (get_field string_alt msg (fst (pool_lookup_field st)) (snd (pool_lookup_field st))) (\<lambda>backend_pool_key.
          and_then (get_list_count (balancer_store st) backend_pool_key) (\<lambda>count.
            let end_point_count = of_nat count :: u32 in
            if end_point_count = 0 then Fault (Undefined ''remainder by zero'')
            else
              let index = next_index (umap_subscript 0 (last_selection_index st) backend_pool_key) end_point_count;
                  st' = st\<lparr>last_selection_index := umap_insert_or_assign backend_pool_key index (last_selection_index st)\<rparr> in
              catch_if is_std_exception (\<lambda>ex. Ok (st', []))
                (and_then (select_endpoint (balancer_store st) backend_pool_key index msg) (\<lambda>msg'.
                   Ok (st', [(''out'', msg')])))))))"

subsection \<open>Indices\<close>

lemma unat_next_index:
  assumes "0 < n" and "n < 2 ^ 32"
  shows "unat (next_index i (of_nat n)) = (unat i + 1) mod 256 mod n"
proof -
  have u: "unat (ucast (i + 1) :: u32) = (unat i + 1) mod 256"
    by (simp add: unsigned_ucast_eq take_bit_nat_eq_self unat_word_ariths take_bit_eq_mod)
  have "unat ((ucast (i + 1) :: u32) mod of_nat n) = (unat i + 1) mod 256 mod n"
    using assms(2) by (simp add: unat_mod u)
  moreover have "(unat i + 1) mod 256 mod n < 256"
    using mod_less_eq_dividend [of "(unat i + 1) mod 256" n] by (rule le_less_trans) simp
  ultimately show ?thesis by (simp add: next_index_def unsigned_ucast_eq take_bit_nat_eq_self)
qed

lemma next_index_in_range:
  assumes "0 < n" and "n < 2 ^ 32"
  shows "unat (next_index i (of_nat n)) < n" and "unat (next_index i (of_nat n)) < 256"
  using assms(1) unat_next_index [OF assms, of i] unsigned_less [of "next_index i (of_nat n)", where 'a = nat]
  by simp_all

lemma next_index_cycles:
  assumes "0 < n" and "n \<le> 256" and "unat i < n"
  shows "unat (next_index i (of_nat n)) = (unat i + 1) mod n"
proof (cases "unat i + 1 < 256")
  case True
  then show ?thesis using unat_next_index [of n i] assms by simp
next
  case False
  then have "n = 256" "unat i + 1 = 256" using assms unsigned_less [of i, where 'a = nat] by auto
  then show ?thesis using unat_next_index [of n i] by simp
qed

subsection \<open>Selection\<close>

definition endpoint_message ::
  "string \<Rightarrow> string \<Rightarrow> 'z dynamic_message_scheme \<Rightarrow> 'z dynamic_message_scheme"
where
  "endpoint_message host port msg =
     set_field string_alt ''load_balancing'' ''endpoint_port'' port
       (set_field string_alt ''load_balancing'' ''endpoint_host'' host msg)"

text \<open>A configured pool: its end points in order, each with the values of its two keys.\<close>

definition pool_configured :: "key_value_store \<Rightarrow> string \<Rightarrow> (string \<times> string \<times> string) list \<Rightarrow> bool" where
  "pool_configured store key es \<longleftrightarrow>
     list_view store key = Some (T_string, map (\<lambda>(e, host, port). KV_string e) es) \<and>
     list_all (\<lambda>(e, host, port). kv_get kv_string_alt store (e @ ''/host'') = Ok host \<and>
       kv_get kv_string_alt store (e @ ''/port'') = Ok port) es"

definition pool_index :: "round_robin_load_balancer \<Rightarrow> string \<Rightarrow> nat" where
  "pool_index st key = unat (umap_subscript 0 (last_selection_index st) key)"

definition pool_endpoint :: "(string \<times> string \<times> string) list \<Rightarrow> nat \<Rightarrow> 'z dynamic_message_scheme \<Rightarrow> 'z dynamic_message_scheme"
where
  "pool_endpoint es i msg = (case es ! i of (e, host, port) \<Rightarrow> endpoint_message host port msg)"

lemma std_get_kv_string [simp]: "std_get kv_string_alt (KV_string e) = Ok e"
  by (simp add: kv_string_alt_def std_get_def)

lemma unat_ucast_u8_u32 [simp]: "unat (ucast (i :: u8) :: u32) = unat i"
proof -
  have "unat i < 2 ^ 32" using unsigned_less [of i, where 'a = nat] by simp
  then show ?thesis by (simp add: unsigned_ucast_eq take_bit_nat_eq_self)
qed

lemma select_endpoint_configured:
  assumes "pool_configured store key es" and "unat i < length es"
  shows "select_endpoint store key i msg = Ok (pool_endpoint es (unat i) msg)"
proof -
  obtain e host port where nth: "es ! unat i = (e, host, port)" by (cases "es ! unat i")
  have "alt_type kv_string_alt = T_string" by (simp add: kv_string_alt_def)
  then have "get_at_list kv_string_alt store key (ucast i) = Ok e"
    using assms by (simp add: pool_configured_def list_reads nth)
  moreover have "kv_get kv_string_alt store (e @ ''/host'') = Ok host \<and> kv_get kv_string_alt store (e @ ''/port'') = Ok port"
    using assms nth by (auto simp: pool_configured_def list_all_length)
  ultimately show ?thesis
    by (simp add: select_endpoint_def pool_endpoint_def nth endpoint_message_def)
qed

lemma round_robin_step:
  assumes "get_field string_alt msg (fst (pool_lookup_field st)) (snd (pool_lookup_field st)) = Ok key"
    and "pool_configured (balancer_store st) key es" and "es \<noteq> []" and "length es \<le> 256"
    and "pool_index st key < length es"
  shows "\<exists>st'. round_robin_on_message msg st =
      Ok (st', [(''out'', pool_endpoint es ((pool_index st key + 1) mod length es) msg)]) \<and>
    pool_index st' key = (pool_index st key + 1) mod length es \<and>
    balancer_store st' = balancer_store st \<and> pool_lookup_field st' = pool_lookup_field st \<and>
    (\<forall>k. k \<noteq> key \<longrightarrow> pool_index st' k = pool_index st k)"
proof -
  define i where "i = next_index (umap_subscript 0 (last_selection_index st) key) (of_nat (length es))"
  have i: "unat i = (pool_index st key + 1) mod length es"
    unfolding i_def pool_index_def using assms by (intro next_index_cycles) (simp_all add: pool_index_def)
  have pos: "0 < length es" using assms(3) by simp
  have "unat i < length es" using pos by (simp add: i)
  from select_endpoint_configured [OF assms(2) this]
  have sel: "select_endpoint (balancer_store st) key i msg =
      Ok (pool_endpoint es ((pool_index st key + 1) mod length es) msg)" for msg :: "'a dynamic_message_scheme"
    by (simp add: i)
  have "unat (of_nat (length es) :: u32) \<noteq> 0" using assms(3,4) by simp
  then have nz: "(of_nat (length es) :: u32) \<noteq> 0" by (metis unat_0)
  have "get_list_count (balancer_store st) key = Ok (length es)"
    using assms(2) by (simp add: pool_configured_def list_reads)
  then have run: "round_robin_on_message msg st = Ok (st\<lparr>last_selection_index :=
       umap_insert_or_assign key i (last_selection_index st)\<rparr>,
       [(''out'', pool_endpoint es ((pool_index st key + 1) mod length es) msg)])"
    using assms(1) nz by (simp add: round_robin_on_message_def Let_def sel flip: i_def)
  show ?thesis
    by (rule exI, rule conjI, rule run) (simp add: pool_index_def umap_subscript_def i um.find_assign)
qed

fun round_robin_run ::
  "'z dynamic_message_scheme list \<Rightarrow> round_robin_load_balancer
     \<Rightarrow> (round_robin_load_balancer \<times> 'z dynamic_message_scheme emission list) cxx"
where
  "round_robin_run [] st = Ok (st, [])"
| "round_robin_run (msg # msgs) st =
     and_then (round_robin_on_message msg st) (\<lambda>(st', out).
       and_then (round_robin_run msgs st') (\<lambda>(st'', out'). Ok (st'', out @ out')))"

text \<open>
  C19: A pool of at most 256 end points is used in turn. Messages for the pool are all forwarded, the
  first to the end point after the last one used (the second one at the start), each next one to the next
  end point in list order, back to the first after the last, marked with its host and port.
\<close>

theorem round_robin_cycles:
  assumes "list_all (\<lambda>msg. get_field string_alt msg (fst (pool_lookup_field st)) (snd (pool_lookup_field st)) = Ok key) msgs"
    and "pool_configured (balancer_store st) key es" and "es \<noteq> []" and "length es \<le> 256"
    and "pool_index st key < length es"
  shows "\<exists>st'. round_robin_run msgs st = Ok (st',
      map (\<lambda>(k, msg). (''out'', pool_endpoint es ((pool_index st key + k) mod length es) msg)) (enumerate 1 msgs))"
proof -
  have "\<exists>st'. round_robin_run msgs st = Ok (st',
      map (\<lambda>(k, msg). (''out'', pool_endpoint es ((j + k) mod length es) msg)) (enumerate n msgs))"
    if "pool_index st key = (j + n - 1) mod length es" "0 < n" for j n
    using assms that
  proof (induction msgs arbitrary: st n)
    case Nil
    then show ?case by simp
  next
    case (Cons msg msgs)
    have idx: "((j + n - 1) mod length es + 1) mod length es = (j + n) mod length es"
      using Cons.prems(7) mod_add_left_eq [of "j + n - 1" "length es" 1] by simp
    have "get_field string_alt msg (fst (pool_lookup_field st)) (snd (pool_lookup_field st)) = Ok key"
      using Cons.prems(1) by simp
    from round_robin_step [OF this Cons.prems(2-5)] obtain st' where
      st': "round_robin_on_message msg st = Ok (st', [(''out'', pool_endpoint es ((j + n) mod length es) msg)])"
        "pool_index st' key = (j + n) mod length es"
        "balancer_store st' = balancer_store st" "pool_lookup_field st' = pool_lookup_field st"
      unfolding Cons.prems(6) idx by blast
    have "\<exists>st''. round_robin_run msgs st' = Ok (st'',
        map (\<lambda>(k, msg). (''out'', pool_endpoint es ((j + k) mod length es) msg)) (enumerate (Suc n) msgs))"
      using Cons.prems(1-5) by (intro Cons.IH) (simp_all add: st')
    then show ?case by (auto simp: st'(1))
  qed
  from this [of "pool_index st key" 1] show ?thesis using assms(5) by simp
qed

definition example_balancer :: round_robin_load_balancer where
  "example_balancer = new_round_robin_load_balancer (''info'', ''pool'')
     \<lparr>single_value_keys = [(''a/host'', KV_string ''h1''), (''a/port'', KV_string ''1''),
        (''b/host'', KV_string ''h2''), (''b/port'', KV_string ''2'')],
      list_value_keys = [(''p'', (T_string, [KV_string ''a'', KV_string ''b'']))], set_value_keys = []\<rparr>"

definition example_endpoints :: "(string \<times> string \<times> string) list" where
  "example_endpoints = [(''a'', ''h1'', ''1''), (''b'', ''h2'', ''2'')]"

lemma example_pool: "pool_configured (balancer_store example_balancer) ''p'' example_endpoints"
  by (simp add: pool_configured_def example_endpoints_def example_balancer_def kv_get_def
      new_round_robin_load_balancer_def list_view_def umap_find_def std_get_def kv_string_alt_def)

theorem round_robin_cycles_witness:
  "\<exists>st'. round_robin_run (replicate 2 (set_field string_alt ''info'' ''pool'' ''p'' empty_message)) example_balancer =
     Ok (st', map (\<lambda>(k, msg). (''out'', pool_endpoint example_endpoints (k mod 2) msg))
       (enumerate 1 (replicate 2 (set_field string_alt ''info'' ''pool'' ''p'' empty_message))))"
proof -
  have "pool_lookup_field example_balancer = (''info'', ''pool'')" "pool_index example_balancer ''p'' = 0"
    "example_endpoints \<noteq> []" "length example_endpoints = 2"
    by (simp_all add: example_balancer_def new_round_robin_load_balancer_def pool_index_def umap_subscript_def
        example_endpoints_def)
  then show ?thesis
    using round_robin_cycles [OF _ example_pool, of "replicate 2 (set_field string_alt ''info'' ''pool'' ''p'' empty_message)"]
    by (simp add: list_all_iff)
qed

lemma select_endpoint_outcome:
  assumes "get_list_count store key = Ok n" and "unat i < n"
  shows "(\<exists>msg'. select_endpoint store key i msg = Ok msg') \<or>
    (\<exists>e. select_endpoint store key i msg = Throw e \<and> is_std_exception e)"
proof -
  have kv: "(\<exists>v. kv_get kv_string_alt store k = Ok v) \<or>
      (\<exists>e. kv_get kv_string_alt store k = Throw e \<and> is_std_exception e)" for k
    by (auto simp: kv_get_def std_get_def split: option.splits)
  have "(\<exists>e. get_at_list kv_string_alt store key (ucast i) = Ok e) \<or>
      get_at_list kv_string_alt store key (ucast i) = Throw Bad_variant_access"
    using kv_lists.at_in_range [OF assms(1), of "ucast i"] assms(2) by auto
  then show ?thesis
  proof (elim disjE exE)
    fix e
    assume e: "get_at_list kv_string_alt store key (ucast i) = Ok e"
    show ?thesis
      using kv [of "e @ ''/host''"] kv [of "e @ ''/port''"] by (auto simp: select_endpoint_def e)
  qed (simp add: select_endpoint_def)
qed

text \<open>
  The stage survives every message: on a well-formed store it never divides by zero, reads past a
  list or lets an exception out; it forwards the message at most once and writes no index but that of the
  message's pool, to a position below both the pool's size and 256. End points of a larger pool from position
  256 on are therefore never used.
\<close>

theorem round_robin_is_safe:
  assumes "kv_wf (balancer_store st)"
    and "\<forall>key n. get_list_count (balancer_store st) key = Ok n \<longrightarrow> n < 2 ^ 32"
  shows "\<exists>st' out. round_robin_on_message msg st = Ok (st', out) \<and> length out \<le> 1 \<and>
    (st' \<noteq> st \<or> out \<noteq> [] \<longrightarrow> (\<exists>key n.
       get_field string_alt msg (fst (pool_lookup_field st)) (snd (pool_lookup_field st)) = Ok key \<and>
       get_list_count (balancer_store st) key = Ok n \<and> pool_index st' key < min n 256 \<and>
       (\<forall>key'. key' \<noteq> key \<longrightarrow> pool_index st' key' = pool_index st key') \<and>
       balancer_store st' = balancer_store st))"
proof (cases "get_field string_alt msg (fst (pool_lookup_field st)) (snd (pool_lookup_field st))")
  case (Ok key)
  show ?thesis
  proof (cases "get_list_count (balancer_store st) key")
    case count: (Ok n)
    define i where "i = next_index (umap_subscript 0 (last_selection_index st) key) (of_nat n)"
    define st' where "st' = st\<lparr>last_selection_index := umap_insert_or_assign key i (last_selection_index st)\<rparr>"
    have n: "0 < n" "n < 2 ^ 32" using kv_lists.count_pos [OF assms(1) count] assms(2) count by auto
    have i: "unat i < n" "unat i < 256" unfolding i_def by (rule next_index_in_range [OF n])+
    have "unat (of_nat n :: u32) \<noteq> 0" using n by simp
    then have nz: "(of_nat n :: u32) \<noteq> 0" by (metis unat_0)
    have facts: "pool_index st' key = unat i" "\<forall>key'. key' \<noteq> key \<longrightarrow> pool_index st' key' = pool_index st key'"
      "balancer_store st' = balancer_store st"
      by (simp_all add: st'_def pool_index_def umap_subscript_def)
    have run: "round_robin_on_message msg st = noexcept (catch_if is_std_exception (\<lambda>ex. Ok (st, []))
        (catch_if is_std_exception (\<lambda>ex. Ok (st', []))
          (and_then (select_endpoint (balancer_store st) key i msg) (\<lambda>msg'. Ok (st', [(''out'', msg')])))))"
      using nz by (simp add: round_robin_on_message_def Ok count Let_def i_def st'_def)
    show ?thesis
      using select_endpoint_outcome [OF count i(1), of msg] i facts Ok count by (auto simp: run)
  next
    case (Throw e)
    then show ?thesis using kv_lists.count_result [of "balancer_store st" key]
      by (auto simp: round_robin_on_message_def Ok)
  next
    case (Fault f)
    then show ?thesis using kv_lists.count_result [of "balancer_store st" key] by auto
  qed
next
  case (Throw e)
  then show ?thesis using get_field_throws_std [OF Throw] by (simp add: round_robin_on_message_def)
next
  case (Fault f)
  then show ?thesis by simp
qed

theorem round_robin_is_safe_witness:
  "\<exists>st' out. round_robin_on_message empty_message (new_round_robin_load_balancer (''info'', ''pool'') empty_store)
     = Ok (st', out) \<and> length out \<le> 1"
proof -
  have "\<forall>key n. get_list_count empty_store key = Ok n \<longrightarrow> n < 2 ^ 32"
    by (simp add: get_list_count_def empty_store_def)
  then show ?thesis
    using round_robin_is_safe [of "new_round_robin_load_balancer (''info'', ''pool'') empty_store" empty_message]
      kv_wf_empty
    by (auto simp: new_round_robin_load_balancer_def)
qed

section \<open>\<open>InProcessRoundRobinLoadBalancerStage\<close>\<close>

definition in_process_sources :: "nat \<Rightarrow> string list" where
  "in_process_sources outbound_count = map (\<lambda>i. ''message_out_'' @ nat_to_string i) [0..<outbound_count]"

text \<open>\<open>_sources[i]\<close>: reading past the array is undefined.\<close>

definition source_at :: "nat \<Rightarrow> i16 \<Rightarrow> nat cxx" where
  "source_at outbound_count index =
     (if 0 \<le> sint index \<and> sint index < int outbound_count then Ok (nat (sint index))
      else Fault (Undefined ''source index out of range''))"

text \<open>A call that no other call overlaps: the new \<open>_index\<close> and the source the message went to.\<close>

definition in_process_on_message :: "nat \<Rightarrow> i16 \<Rightarrow> (i16 \<times> nat) cxx" where
  "in_process_on_message outbound_count index =
     and_then (source_at outbound_count index) (\<lambda>target_source.
       let previous_value = index; index1 = index + 1;
           index2 = (if sint previous_value = int outbound_count - 1 then 0 else index1) in
       Ok (index2, target_source))"

fun in_process_calls :: "nat \<Rightarrow> nat \<Rightarrow> i16 \<Rightarrow> (i16 \<times> nat list) cxx" where
  "in_process_calls outbound_count 0 index = Ok (index, [])"
| "in_process_calls outbound_count (Suc m) index =
     and_then (in_process_on_message outbound_count index) (\<lambda>(index', src).
       and_then (in_process_calls outbound_count m index') (\<lambda>(index'', srcs). Ok (index'', src # srcs)))"

subsection \<open>Overlapping calls\<close>

text \<open>
  The position of a caller in the handler: before the load, with its source, with the previous value
  \<open>fetch_add\<close> gave it, about to send, and done.
\<close>

datatype caller = Entered | Selected nat | Counted nat i16 | Sending nat | Returned

record in_process_state =
  atomic_index :: i16
  callers :: "caller list"
  sent_to :: "nat list"

text \<open>The next atomic step of caller \<open>t\<close>.\<close>

definition in_process_step :: "nat \<Rightarrow> nat \<Rightarrow> in_process_state \<Rightarrow> in_process_state cxx" where
  "in_process_step outbound_count t s =
     (case callers s ! t of
        Entered \<Rightarrow> and_then (source_at outbound_count (atomic_index s)) (\<lambda>src.
          Ok (s\<lparr>callers := (callers s)[t := Selected src]\<rparr>))
      | Selected src \<Rightarrow> Ok (s\<lparr>atomic_index := atomic_index s + 1,
          callers := (callers s)[t := Counted src (atomic_index s)]\<rparr>)
      | Counted src previous_value \<Rightarrow> Ok (s\<lparr>
          atomic_index := (if sint previous_value = int outbound_count - 1 then 0 else atomic_index s),
          callers := (callers s)[t := Sending src]\<rparr>)
      | Sending src \<Rightarrow> Ok (s\<lparr>callers := (callers s)[t := Returned], sent_to := sent_to s @ [src]\<rparr>)
      | Returned \<Rightarrow> Ok s)"

fun in_process_schedule :: "nat \<Rightarrow> nat list \<Rightarrow> in_process_state \<Rightarrow> in_process_state cxx" where
  "in_process_schedule outbound_count [] s = Ok s"
| "in_process_schedule outbound_count (t # ts) s =
     and_then (in_process_step outbound_count t s) (in_process_schedule outbound_count ts)"

definition all_entered :: "nat \<Rightarrow> in_process_state" where
  "all_entered n = \<lparr>atomic_index = 0, callers = replicate n Entered, sent_to = []\<rparr>"

lemma sint_small [simp]: "k < 2 ^ 15 \<Longrightarrow> sint (of_nat k :: i16) = int k"
proof -
  assume "k < 2 ^ 15"
  then have "signed_take_bit 15 (int k) = int k"
    by (intro signed_take_bit_int_eq_self) simp_all
  then show ?thesis by (simp add: signed_of_nat)
qed

lemma in_process_on_message_at:
  assumes "i < n" and "n \<le> 2 ^ 15"
  shows "in_process_on_message n (of_nat i) = Ok (of_nat (Suc i mod n), i)"
proof -
  have "sint (of_nat i :: i16) = int i" using assms by (intro sint_small) simp
  then show ?thesis
    using assms(1) by (cases "Suc i = n") (auto simp: in_process_on_message_def source_at_def Let_def algebra_simps)
qed

text \<open>
  C21: As long as calls do not overlap, the in-process balancer serves its sources in strict rotation,
  starting with the first, for ever: the counter never leaves the array.
\<close>

theorem in_process_rotation:
  assumes "0 < n" and "n \<le> 2 ^ 15"
  shows "in_process_calls n m 0 = Ok (of_nat (m mod n), map (\<lambda>k. k mod n) [0..<m])"
proof -
  have "in_process_calls n m (of_nat (j mod n)) =
      Ok (of_nat ((j + m) mod n), map (\<lambda>k. k mod n) [j..<j + m])" for j
  proof (induction m arbitrary: j)
    case (Suc m)
    have "j mod n < n" using assms(1) by simp
    from in_process_on_message_at [OF this assms(2)]
    have "in_process_on_message n (of_nat (j mod n)) = Ok (of_nat (Suc j mod n), j mod n)"
      by (simp add: mod_Suc_eq)
    then show ?case
      using Suc.IH [of "Suc j"] by (simp add: upt_conv_Cons del: upt_Suc)
  qed simp
  from this [of 0] show ?thesis by simp
qed

theorem in_process_rotation_witness: "in_process_calls 3 5 0 = Ok (2, [0, 1, 2, 0, 1])"
  using in_process_rotation [of 3 5] by (simp add: upt_rec)

lemma schedule_append:
  "in_process_schedule n (ts @ us) s = and_then (in_process_schedule n ts s) (in_process_schedule n us)"
proof (induction ts arbitrary: s)
  case (Cons t ts)
  then have "in_process_schedule n (ts @ us) = (\<lambda>s. and_then (in_process_schedule n ts s) (in_process_schedule n us))"
    by (simp add: fun_eq_iff)
  then show ?case by simp
qed simp

text \<open>Four steps of one caller in a row are one call.\<close>

lemma schedule_one_call:
  assumes "t < length (callers s)" and "callers s ! t = Entered"
  shows "in_process_schedule n [t, t, t, t] s =
    and_then (in_process_on_message n (atomic_index s)) (\<lambda>(index, src).
      Ok (s\<lparr>atomic_index := index, callers := (callers s)[t := Returned], sent_to := sent_to s @ [src]\<rparr>))"
  using assms by (cases "source_at n (atomic_index s)")
    (simp_all add: in_process_step_def in_process_on_message_def Let_def)

lemma schedule_calls:
  assumes "k < n" and "n \<le> 2 ^ 15" and "k \<le> m"
  shows "in_process_schedule n (concat (map (\<lambda>t. [t, t, t, t]) [0..<k])) (all_entered m) =
    Ok \<lparr>atomic_index = of_nat k, callers = replicate k Returned @ replicate (m - k) Entered, sent_to = [0..<k]\<rparr>"
  using assms
proof (induction k)
  case (Suc k)
  define s where "s = \<lparr>atomic_index = (of_nat k :: i16),
    callers = replicate k Returned @ replicate (m - k) Entered, sent_to = [0..<k]\<rparr>"
  have "replicate (m - k) Entered = Entered # replicate (m - Suc k) Entered"
    using Suc.prems(3) by (metis Suc_diff_Suc Suc_le_eq replicate_Suc)
  then have cs: "callers s = replicate k Returned @ Entered # replicate (m - Suc k) Entered"
    by (simp add: s_def)
  have "in_process_schedule n [k, k, k, k] s = and_then (in_process_on_message n (atomic_index s)) (\<lambda>(index, src).
      Ok (s\<lparr>atomic_index := index, callers := (callers s)[k := Returned], sent_to := sent_to s @ [src]\<rparr>))"
    by (rule schedule_one_call) (simp_all add: cs nth_append)
  also have "\<dots> = Ok (s\<lparr>atomic_index := of_nat (Suc k),
      callers := (callers s)[k := Returned], sent_to := sent_to s @ [k]\<rparr>)"
    using in_process_on_message_at [of k n] Suc.prems by (simp add: s_def)
  also have "(callers s)[k := Returned] = replicate (Suc k) Returned @ replicate (m - Suc k) Entered"
    unfolding cs by (simp add: list_update_append replicate_app_Cons_same)
  finally have step: "in_process_schedule n [k, k, k, k] s = Ok \<lparr>atomic_index = of_nat (Suc k),
      callers = replicate (Suc k) Returned @ replicate (m - Suc k) Entered, sent_to = [0..<Suc k]\<rparr>"
    by (simp add: s_def)
  show ?case
    using Suc.IH Suc.prems step by (simp add: schedule_append s_def)
qed (simp add: all_entered_def)

text \<open>
  C20: The stage is not thread safe. After \<open>n - 1\<close> complete calls, let a caller load and
  increment the counter, and let a second caller enter before the first stores zero: the second one reads the
  array of sources at position \<open>n\<close>, past its end. This holds for every number of sources.
\<close>

theorem in_process_race:
  assumes "0 < n" and "n < 2 ^ 15"
  shows "in_process_schedule n (concat (map (\<lambda>t. [t, t, t, t]) [0..<n - 1]) @ [n - 1, n - 1, n]) (all_entered (n + 1))
    = Fault (Undefined ''source index out of range'')"
proof -
  define s where "s = \<lparr>atomic_index = (of_nat (n - 1) :: i16),
    callers = replicate (n - 1) Returned @ [Entered, Entered], sent_to = [0..<n - 1]\<rparr>"
  have "replicate (n + 1 - (n - 1)) Entered = [Entered, Entered]"
    using assms(1) by (simp add: numeral_2_eq_2 Suc_diff_le)
  then have before: "in_process_schedule n (concat (map (\<lambda>t. [t, t, t, t]) [0..<n - 1])) (all_entered (n + 1)) = Ok s"
    using schedule_calls [of "n - 1" n "n + 1"] assms by (simp add: s_def)
  have "sint (of_nat (n - 1) :: i16) = int (n - 1)" using assms by (intro sint_small) simp
  then have in_range: "source_at n (of_nat (n - 1)) = Ok (n - 1)" using assms(1) by (simp add: source_at_def)
  have "sint (of_nat n :: i16) = int n" using assms by (intro sint_small) simp
  moreover have "(of_nat (n - 1) :: i16) + 1 = of_nat n"
    using assms(1) by (metis Suc_pred' add.commute of_nat_Suc)
  ultimately have out: "source_at n ((of_nat (n - 1) :: i16) + 1) = Fault (Undefined ''source index out of range'')"
    by (simp add: source_at_def)
  have "\<not> n < n - 1" "n - (n - 1) = 1" using assms(1) by simp_all
  then have "callers s ! (n - 1) = Entered" "callers s ! n = Entered" "n < length (callers s)" "n - 1 \<noteq> n"
    using assms(1) by (auto simp: s_def nth_append)
  moreover have "atomic_index s = of_nat (n - 1)" by (simp add: s_def)
  ultimately have "in_process_schedule n [n - 1, n - 1, n] s = Fault (Undefined ''source index out of range'')"
    using in_range out by (simp add: in_process_step_def del: of_nat_diff One_nat_def)
  then show ?thesis by (simp only: schedule_append before and_then.simps)
qed

theorem in_process_race_witness:
  "in_process_schedule 1 [0, 0, 1] (all_entered 2) = Fault (Undefined ''source index out of range'')"
proof -
  have "(1::nat) < 2 ^ 15" by simp
  from in_process_race [OF zero_less_one this] show ?thesis by (simp add: one_add_one [symmetric] del: one_add_one)
qed

end
