(* ===== verification/Throttle_Loop.thy ===== *)
theory Throttle_Loop
  imports Throttling_Enforcer
begin

text \<open>
  The enforcer and the state builder as one client sees them, whatever other clients send in between and
  whenever the builder is flushed: an abstract limiter over the client's own requests and the flushes, and the
  invariant that ties the two stages to it. The stages may be connected in any way that hands each marked
  request to the builder and each state message to the enforcer.
\<close>

section \<open>The limiter\<close>

text \<open>The verdict on a log of requests, each with whether it was let through.\<close>

definition within :: "u64 \<Rightarrow> u64 \<Rightarrow> (u64 \<times> bool) list \<Rightarrow> bool" where
  "within w n evs \<longleftrightarrow> evs = [] \<or> length (in_window w (fst (last evs)) (counted evs)) \<le> unat n"

text \<open>
  The limiter decides by the verdict of the last flush: \<open>ok\<close> is that verdict, \<open>evs\<close> the log so far. The result is the
  log of the events.
\<close>

datatype client_event = Arrives u64 | Flushed

fun limiter :: "u64 \<Rightarrow> u64 \<Rightarrow> bool \<Rightarrow> (u64 \<times> bool) list \<Rightarrow> client_event list \<Rightarrow> (u64 \<times> bool) list" where
  "limiter w n ok evs [] = []"
| "limiter w n ok evs (Arrives ts # es) = (ts, ok) # limiter w n ok (evs @ [(ts, ok)]) es"
| "limiter w n ok evs (Flushed # es) = limiter w n (within w n evs) evs es"

fun arrivals :: "client_event list \<Rightarrow> u64 list" where
  "arrivals [] = []"
| "arrivals (Arrives ts # es) = ts # arrivals es"
| "arrivals (Flushed # es) = arrivals es"

lemma limiter_stamps: "map fst (limiter w n ok evs es) = arrivals es"
  by (induction w n ok evs es rule: limiter.induct) simp_all

text \<open>Flushed after every request, it is the limiter of the closed loop.\<close>

lemma limiter_admissions:
  "map snd (limiter w n ok evs (concat (map (\<lambda>ts. [Flushed, Arrives ts]) tss))) = admissions w n evs tss"
  by (induction tss arbitrary: ok evs) (simp_all add: within_def Let_def)

text \<open>Between two flushes it does not limit.\<close>

lemma limiter_unflushed:
  "limiter w n ok evs (map Arrives tss @ es) = map (\<lambda>ts. (ts, ok)) tss @ limiter w n ok (evs @ map (\<lambda>ts. (ts, ok)) tss) es"
  by (induction tss arbitrary: evs) simp_all

section \<open>The two stages\<close>

text \<open>
  The stages when the client \<open>i\<close> has the log \<open>evs\<close> and was last told \<open>ok\<close>: its throttler has been fed the log, and if none
  of its verdicts waits to be published then the enforcer knows the current one.
\<close>

definition client_at ::
  "string list \<Rightarrow> string \<Rightarrow> string \<Rightarrow> u64 \<Rightarrow> u64 \<Rightarrow> (u64 \<times> bool) list \<Rightarrow> bool \<Rightarrow> throttling_enforcer \<Rightarrow> throttle_state_builder \<Rightarrow> bool"
where
  "client_at nms ts_field i w n evs ok e b \<longleftrightarrow>
     enforcer_lookup_filed_names e = nms \<and> builder_lookup_filed_names b = nms \<and> time_stamp_field_name b = ts_field \<and>
     umap_find (throttlers b) i = Some (SlidingLogThrottler (sliding.feed evs (new_sliding_log_throttler w n))) \<and>
     (umap_find (enforcer_states e) i \<noteq> Some False) = ok \<and> verdicts_fresh b \<and>
     (i \<in> fst ` set (updated_throttlers b) \<longrightarrow> evs \<noteq> []) \<and>
     (i \<notin> fst ` set (updated_throttlers b) \<longrightarrow>
        ok = (evs = [] \<or> is_allowed (sliding.feed evs (new_sliding_log_throttler w n))))"

definition mark_of :: "bool \<Rightarrow> string" where
  "mark_of ok = (if ok then ''allowed'' else ''suppressed'')"

lemma client_at_start:
  assumes "enforcer_lookup_filed_names e = nms" and "builder_lookup_filed_names b = nms"
    and "time_stamp_field_name b = ts_field" and "updated_throttlers b = []"
    and "umap_find (throttlers b) i = Some (SlidingLogThrottler (new_sliding_log_throttler w n))"
    and "umap_find (enforcer_states e) i \<noteq> Some False"
  shows "client_at nms ts_field i w n [] True e b"
  using assms by (simp add: client_at_def verdicts_fresh_def)

text \<open>
  A request that has the ids \<open>ids\<close> in its lookup fields: the enforcer lets it through if it knows of none that refuses.
\<close>

definition asks_for :: "string list \<Rightarrow> string \<Rightarrow> string list \<Rightarrow> 'z dynamic_message_scheme \<Rightarrow> u64 \<Rightarrow> bool" where
  "asks_for nms ts_field ids msg ts \<longleftrightarrow>
     map (\<lambda>nm. get_field string_alt msg ''http_info'' nm) nms = map Ok ids \<and> get_field int64_alt msg ''info'' ts_field = Ok ts"

lemma asks_for_one: "asks_for [nm] ts_field [i] msg ts = request_of nm ts_field i msg ts"
  by (simp add: asks_for_def request_of_def)

lemma asks_for_ids: "asks_for nms ts_field ids msg ts \<Longrightarrow> List.map_filter (lookup_id msg) nms = ids"
proof -
  have "map (\<lambda>nm. get_field string_alt msg ''http_info'' nm) nms = map Ok ids \<Longrightarrow> List.map_filter (lookup_id msg) nms = ids"
    by (induction nms arbitrary: ids) (auto simp: List.map_filter_def lookup_id_def)
  then show "asks_for nms ts_field ids msg ts \<Longrightarrow> ?thesis" by (simp add: asks_for_def)
qed

lemma asks_for_readable: "asks_for nms ts_field ids msg ts \<Longrightarrow> lookups_readable msg nms"
proof -
  have "map (\<lambda>nm. get_field string_alt msg ''http_info'' nm) nms = map Ok ids \<Longrightarrow> lookups_readable msg nms"
    by (induction nms arbitrary: ids) (auto simp: lookups_readable_def lookup_id_def)
  then show "asks_for nms ts_field ids msg ts \<Longrightarrow> ?thesis" by (simp add: asks_for_def)
qed

definition lets_through :: "throttling_enforcer \<Rightarrow> string list \<Rightarrow> bool" where
  "lets_through e ids \<longleftrightarrow> list_all (\<lambda>i. umap_find (enforcer_states e) i \<noteq> Some False) ids"

lemma enforcer_marks:
  assumes "asks_for nms ts_field ids msg ts" and "enforcer_lookup_filed_names e = nms"
  shows "enforcer_on_message msg e =
    Ok [(if lets_through e ids then ''allowed_out'' else ''throttled_out'',
      set_field string_alt ''throttling'' ''state'' (mark_of (lets_through e ids)) msg)]"
proof -
  have "map (\<lambda>nm. get_field string_alt msg ''http_info'' nm) nms = map Ok ids \<Longrightarrow>
      enforcer_loop msg (enforcer_states e) nms =
        Ok [(if lets_through e ids then ''allowed_out'' else ''throttled_out'',
          set_field string_alt ''throttling'' ''state'' (mark_of (lets_through e ids)) msg)]"
    by (induction nms arbitrary: ids) (auto simp: lets_through_def mark_of_def split: option.splits)
  then show ?thesis using assms by (simp add: enforcer_on_message_def asks_for_def)
qed

text \<open>The three events: a request of the client, a request of another one, a flush.\<close>

lemma client_request:
  assumes "client_at nms ts_field i w n evs ok e b"
  shows "client_at nms ts_field i w n (evs @ [(ts, through)]) ok e (feed_one ts (mark_of through) i b)"
proof -
  have "throttler_event ts (mark_of through) (SlidingLogThrottler t) = SlidingLogThrottler (event_state (ts, through) t)" for t
    by (simp add: throttler_event_def mark_of_def event_state_def)
  then show ?thesis
    using assms feed_one_fresh [of b ts "mark_of through" i]
    by (simp add: client_at_def feed_one_def um.find_assign feed_append)
qed

lemma other_request:
  assumes "client_at nms ts_field i w n evs ok e b" and "j \<noteq> i"
  shows "client_at nms ts_field i w n evs ok e (feed_one ts s j b)"
  using assms feed_one_fresh [of b ts s j] by (auto simp: client_at_def feed_one_def um.find_assign split: option.splits)

lemma client_requests:
  "client_at nms ts_field i w n evs ok e b \<Longrightarrow>
   client_at nms ts_field i w n (evs @ replicate (count_list ids i) (ts, through)) ok e (fold (feed_one ts (mark_of through)) ids b)"
proof (induction ids arbitrary: evs b)
  case (Cons j ids)
  show ?case
  proof (cases "j = i")
    case True
    then show ?thesis using Cons.IH [OF client_request [OF Cons.prems]] by simp
  next
    case False
    then show ?thesis using Cons.IH [OF other_request [OF Cons.prems False]] by simp
  qed
qed simp

lemma fed_verdict:
  assumes "sorted (w # map fst evs)"
  shows "(evs = [] \<or> is_allowed (sliding.feed evs (new_sliding_log_throttler w n))) = within w n evs"
proof (cases evs rule: rev_cases)
  case (snoc evs' e)
  have "sorted (w # map fst (evs' @ [(fst e, snd e)]))" using assms by (simp add: snoc)
  from verdict_exact [OF this, of n] show ?thesis by (simp add: within_def snoc)
qed (simp add: within_def)

lemma client_flush:
  assumes "client_at nms ts_field i w n evs ok e b" and "sorted (w # map fst evs)"
  shows "client_at nms ts_field i w n evs (within w n evs)
    (on_throttle_state_message \<lparr>throttler_states = updated_throttlers b\<rparr> e) (b\<lparr>updated_throttlers := []\<rparr>)"
proof -
  let ?e = "on_throttle_state_message \<lparr>throttler_states = updated_throttlers b\<rparr> e"
  have found: "umap_find (enforcer_states ?e) i =
      (case map_of (rev (updated_throttlers b)) i of Some s \<Rightarrow> Some s | None \<Rightarrow> umap_find (enforcer_states e) i)"
    by (simp add: on_throttle_state_message_find map_add_def)
  have "(umap_find (enforcer_states ?e) i \<noteq> Some False) = within w n evs"
  proof (cases "map_of (rev (updated_throttlers b)) i")
    case None
    then have "i \<notin> fst ` set (updated_throttlers b)" by (simp add: map_of_eq_None_iff)
    then show ?thesis using assms(1) None by (simp add: found client_at_def fed_verdict [OF assms(2), symmetric])
  next
    case (Some s)
    then have "verdict b i = Some s" using assms(1) by (simp add: client_at_def verdicts_freshD)
    then have "s = is_allowed (sliding.feed evs (new_sliding_log_throttler w n))"
      using assms(1) by (simp add: client_at_def verdict_def)
    moreover have "evs \<noteq> []" using Some assms(1) by (force simp: client_at_def dest: map_of_SomeD)
    ultimately show ?thesis by (simp add: found Some flip: fed_verdict [OF assms(2)])
  qed
  moreover have "enforcer_lookup_filed_names ?e = enforcer_lookup_filed_names e"
    by (simp add: on_throttle_state_message_def)
  ultimately show ?thesis
    using assms(1) by (simp add: client_at_def verdicts_fresh_def fed_verdict [OF assms(2)])
qed

end
