(* ===== verification/Http_Server.thy ===== *)
theory Http_Server
  imports Dynamic_Message Async_Config Base_Stage "HOL-Library.Signed_Division"
begin

text \<open>
  \<open>src/stages/http_server_stage\<close>: the parsers of query strings and route templates, the configurator
  sink that installs routes, the handler a GET route installs, which turns a request of the web server
  library into a message, and the handler of responses. The library (uWebSockets) appears through the
  values its calls return: a request is the record of what its getters give, and installing a route or
  writing a response is a parameter or a returned action. Logging is left out.
\<close>

section \<open>Parsers\<close>

text \<open>\<open>query_data\<close> is a \<open>std::map\<close>; its order plays no role, its keys are unique.\<close>

definition add_query_pair :: "string \<Rightarrow> (string, string) umap \<Rightarrow> (string, string) umap" where
  "add_query_pair query_pair query_data =
     (case str_find (CHR ''='') query_pair of
        Some pos_equal \<Rightarrow>
          umap_insert_or_assign (str_substr query_pair 0 pos_equal)
            (str_substr query_pair (pos_equal + 1) (length query_pair - 1)) query_data
      | None \<Rightarrow> umap_insert_or_assign query_pair (str_substr query_pair 0 (length query_pair - 1)) query_data)"

text \<open>
  For \<open>npos\<close> the code computes \<open>substr(npos + 1, length - 1)\<close>, which starts at 0. The length minus
  one of an empty pair wraps around, and the substring of an empty string is empty either way.
\<close>

function extract_query_loop :: "string \<Rightarrow> (string, string) umap \<Rightarrow> (string, string) umap" where
  "extract_query_loop query_url query_data =
     (if query_url = [] then query_data
      else case str_find (CHR ''&'') query_url of
        Some pos_and \<Rightarrow>
          extract_query_loop (str_substr query_url (pos_and + 1) (length query_url - 1))
            (add_query_pair (str_substr query_url 0 pos_and) query_data)
      | None \<Rightarrow> add_query_pair (str_substr query_url 0 (length query_url)) query_data)"
  by pat_completeness auto
termination
  by (relation "measure (\<lambda>(s, d). length s)") (auto simp: str_substr_def dest: str_find_Some_decomp(3))

declare extract_query_loop.simps [simp del]

definition extract_query :: "string \<Rightarrow> (string, string) umap" where
  "extract_query query_url = extract_query_loop query_url []"

text \<open>The loop that cuts the words off a path that ends with the delimiter.\<close>

function path_words :: "string \<Rightarrow> string list" where
  "path_words resource_path_str =
     (case str_find (CHR ''/'') resource_path_str of
        Some position \<Rightarrow> take position resource_path_str # path_words (drop (position + 1) resource_path_str)
      | None \<Rightarrow> [])"
  by pat_completeness auto
termination
  by (relation "measure length") (auto dest: str_find_Some_decomp(3))

declare path_words.simps [simp del]

text \<open>\<open>word[0]\<close> of an empty word is the terminating NUL.\<close>

definition extract_path_parameters :: "string \<Rightarrow> string list" where
  "extract_path_parameters resource_path =
     map tl (filter (\<lambda>word. word \<noteq> [] \<and> hd word = CHR '':'') (path_words (resource_path @ ''/'')))"

section \<open>Routes\<close>

text \<open>\<open>AddRouteConfigMessage\<close>; the method is the code of the enum variable.\<close>

record add_route_config_message =
  route_key_1 :: string
  route_key_2 :: string
  resource :: string
  route_method :: i32

text \<open>What the getters of the library's request and response and the clock return.\<close>

record uws_request =
  uws_headers :: "(string \<times> string) list"
  uws_query :: string
  uws_parameter :: "nat \<Rightarrow> string"
  uws_header :: "string \<Rightarrow> string"

record uws_response =
  uws_address :: u64
  remote_address :: string

record timespec =
  tv_sec :: i64
  tv_nsec :: i64

definition to_millies :: "timespec \<Rightarrow> u64" where
  "to_millies ts = word_of_int (sint (tv_nsec ts) sdiv 1000000) + tv_sec ts * 1000"

text \<open>The loops that write a typed group; an exception leaves the loop.\<close>

fun set_typed_fields ::
  "string \<Rightarrow> (string \<times> string) list \<Rightarrow> 'z dynamic_message_scheme \<Rightarrow> 'z dynamic_message_scheme cxx"
where
  "set_typed_fields grp [] msg = Ok msg"
| "set_typed_fields grp ((k, v) # kvs) msg =
     and_then (set_typed_field string_alt grp k v msg) (set_typed_fields grp kvs)"

definition path_arguments :: "uws_request \<Rightarrow> string list \<Rightarrow> (string \<times> string) list" where
  "path_arguments req names = map (\<lambda>(i, name). (name, uws_parameter req i)) (enumerate 0 names)"

text \<open>The function \<open>on_add_route_get\<close> installs: the message it builds from the one the factory made.\<close>

definition on_get_request ::
  "add_route_config_message \<Rightarrow> uws_response \<Rightarrow> uws_request \<Rightarrow> timespec
     \<Rightarrow> http_request_message \<Rightarrow> http_request_message cxx"
where
  "on_get_request cfg res req time_stamp created =
     (let msg1 = set_field void_ptr_alt ''__HttpServerStage__'' ''uws_response'' (uws_address res) created;
          msg2 = set_field int32_alt ''http_info'' ''method'' (route_method cfg) msg1;
          msg3 = set_field string_alt ''http_info'' ''route_key_1'' (route_key_1 cfg) msg2;
          msg4 = set_field string_alt ''http_info'' ''route_key_2'' (route_key_2 cfg) msg3;
          msg5 = set_field string_alt ''http_info'' ''resource_path'' (resource cfg) msg4;
          msg6 = set_field int64_alt ''info'' ''request_time'' (to_millies time_stamp) msg5;
          msg7 = fst (create_typed_group string_alt ''http_headers'' msg6) in
      and_then (set_typed_fields ''http_headers'' (uws_headers req) msg7) (\<lambda>msg8.
        let msg9 = fst (create_typed_group string_alt ''query_parameters'' msg8) in
        and_then (set_typed_fields ''query_parameters'' (extract_query (uws_query req)) msg9) (\<lambda>msg10.
          let msg11 = fst (create_typed_group string_alt ''path_parameters'' msg10) in
          and_then (set_typed_fields ''path_parameters''
              (path_arguments req (extract_path_parameters (resource cfg))) msg11) (\<lambda>msg12.
            Ok (set_field string_alt ''http_info'' ''access_token'' (uws_header req ''authorization'')
              (set_field string_alt ''http_info'' ''sender_user_agent'' (uws_header req ''user-agent'')
                (set_field string_alt ''http_info'' ''sender_ip_6'' (remote_address res) msg12)))))))"

text \<open>The \<open>onData\<close> callback: the request is sent on when its last chunk has arrived.\<close>

definition on_request_data :: "bool \<Rightarrow> http_request_message \<Rightarrow> http_request_message emission list" where
  "on_request_data is_last msg = (if is_last then [(''http_request_out'', msg)] else [])"

section \<open>The configurator\<close>

text \<open>
  The stage: the library's application, which \<open>start\<close> creates, and how often the route counter, which
  \<open>start\<close> creates too, was increased. \<open>server_get\<close> is the library's \<open>get\<close>.
\<close>

record 'srv http_server_stage =
  http_server :: "'srv option"
  http_route_counter :: nat

definition new_http_server_stage :: "'srv http_server_stage" where
  "new_http_server_stage = \<lparr>http_server = None, http_route_counter = 0\<rparr>"

definition http_server_start :: "'srv \<Rightarrow> 'srv http_server_stage \<Rightarrow> 'srv http_server_stage" where
  "http_server_start app st = st\<lparr>http_server := Some app, http_route_counter := 0\<rparr>"

definition on_add_route_get ::
  "(add_route_config_message \<Rightarrow> 'srv \<Rightarrow> 'srv cxx) \<Rightarrow> add_route_config_message \<Rightarrow> 'srv http_server_stage
     \<Rightarrow> 'srv http_server_stage cxx"
where
  "on_add_route_get server_get cfg st =
     (case http_server st of
        None \<Rightarrow> Fault (Undefined ''the server is not started'')
      | Some srv \<Rightarrow> and_then (server_get cfg srv) (\<lambda>srv'. Ok (st\<lparr>http_server := Some srv'\<rparr>)))"

text \<open>The handlers of the other methods have empty bodies.\<close>

definition on_add_route_other :: "add_route_config_message \<Rightarrow> 'srv http_server_stage \<Rightarrow> 'srv http_server_stage cxx" where
  "on_add_route_other cfg st = Ok st"

definition add_to_route_counter :: "'srv http_server_stage \<Rightarrow> 'srv http_server_stage cxx" where
  "add_to_route_counter st =
     (case http_server st of
        None \<Rightarrow> Fault (Undefined ''the server is not started'')
      | Some srv \<Rightarrow> Ok (st\<lparr>http_route_counter := http_route_counter st + 1\<rparr>))"

definition route_dispatch ::
  "(add_route_config_message \<Rightarrow> 'srv \<Rightarrow> 'srv cxx) \<Rightarrow> add_route_config_message \<Rightarrow> promise
     \<Rightarrow> 'srv http_server_stage \<Rightarrow> ('srv http_server_stage \<times> promise) cxx"
where
  "route_dispatch server_get cfg p st =
     (if route_method cfg = http_method_code GET
      then and_then (on_add_route_get server_get cfg st) (\<lambda>st'. Ok (st', p))
      else if list_ex (\<lambda>m. route_method cfg = http_method_code m) [HEAD, POST, PUT, DELETE, CONNECT, OPTIONS, TRACE]
      then and_then (on_add_route_other cfg st) (\<lambda>st'. Ok (st', p))
      else and_then (on_error (Runtime_error ''Unknown http method type'') p) (\<lambda>p'. Ok (st, p')))"

text \<open>
  The \<open>std::exception\<close> handler returns; the other one falls through to the counter. The outcome of
  the \<open>try\<close> statement is the state, the promise, and whether it returned.
\<close>

definition configurator_on_message ::
  "(add_route_config_message \<Rightarrow> 'srv \<Rightarrow> 'srv cxx) \<Rightarrow> add_route_config_message \<Rightarrow> promise
     \<Rightarrow> 'srv http_server_stage \<Rightarrow> ('srv http_server_stage \<times> promise) cxx"
where
  "configurator_on_message server_get cfg p st =
     noexcept
       (and_then
         (catch_if (\<lambda>ex. \<not> is_std_exception ex)
           (\<lambda>ex. and_then (on_error (Runtime_error ''Unknown error occurred'') p) (\<lambda>p'. Ok (st, p', False)))
           (catch_if is_std_exception
             (\<lambda>ex. and_then (on_error ex p) (\<lambda>p'. Ok (st, p', True)))
             (and_then (route_dispatch server_get cfg p st) (\<lambda>(st', p').
                and_then (on_complete p') (\<lambda>p''. Ok (st', p'', False))))))
         (\<lambda>(st', p', returned). if returned then Ok (st', p')
            else and_then (add_to_route_counter st') (\<lambda>st''. Ok (st'', p'))))"

section \<open>Responses\<close>

datatype response_action = WriteStatus string | End_response string

text \<open>The handler: the response object of the library, by its address, and what is done to it.\<close>

definition server_on_response :: "http_response_message \<Rightarrow> (u64 \<times> response_action list) cxx" where
  "server_on_response response =
     noexcept
       (and_then (get_field void_ptr_alt (request_message response) ''__HttpServerStage__'' ''uws_response'') (\<lambda>res.
          if return_code response = 500
          then Ok (res, [WriteStatus ''429 Too Many Requests'', End_response (response_body response)])
          else Ok (res, [End_response (response_body response)])))"

section \<open>Query strings\<close>

text \<open>A query as it is written: parameters with and without a value, separated by ampersands.\<close>

fun render_item :: "string \<times> string option \<Rightarrow> string" where
  "render_item (k, None) = k"
| "render_item (k, Some v) = k @ CHR ''='' # v"

fun render_query :: "(string \<times> string option) list \<Rightarrow> string" where
  "render_query [] = []"
| "render_query [x] = render_item x"
| "render_query (x # y # xs) = render_item x @ CHR ''&'' # render_query (y # xs)"

fun query_item_ok :: "string \<times> string option \<Rightarrow> bool" where
  "query_item_ok (k, v) \<longleftrightarrow> CHR ''='' \<notin> set k \<and> CHR ''&'' \<notin> set k \<and> (\<forall>s. v = Some s \<longrightarrow> CHR ''&'' \<notin> set s)"

fun parsed_item :: "string \<times> string option \<Rightarrow> string \<times> string" where
  "parsed_item (k, Some v) = (k, v)"
| "parsed_item (k, None) = (k, butlast k)"

lemma add_query_item:
  assumes "query_item_ok x"
  shows "add_query_pair (render_item x) d = umap_insert_or_assign (fst (parsed_item x)) (snd (parsed_item x)) d"
proof (cases x)
  case (Pair k v)
  then show ?thesis
    using assms by (cases v) (auto simp: add_query_pair_def str_substr_def str_find_split butlast_conv_take)
qed

lemma render_item_no_amp: "query_item_ok x \<Longrightarrow> CHR ''&'' \<notin> set (render_item x)"
  by (cases x; cases "snd x") auto

lemma render_query_ne: "xs \<noteq> [] \<Longrightarrow> render_item (last xs) \<noteq> [] \<Longrightarrow> render_query xs \<noteq> []"
  by (induction xs rule: render_query.induct) auto

lemma extract_query_loop_render:
  assumes "list_all query_item_ok items" and "items \<noteq> []" and "render_item (last items) \<noteq> []"
  shows "umap_find (extract_query_loop (render_query items) d) = umap_find d ++ map_of (rev (map parsed_item items))"
  using assms
proof (induction items arbitrary: d rule: render_query.induct)
  case (2 x)
  then show ?case
    using render_item_no_amp [of x]
    by (cases "parsed_item x")
      (auto simp: extract_query_loop.simps [of "render_item x"] str_substr_def add_query_item um.find_assign
        fun_eq_iff map_add_def)
next
  case (3 x y xs)
  have amp: "str_find (CHR ''&'') (render_item x @ CHR ''&'' # render_query (y # xs)) = Some (length (render_item x))"
    using 3 render_item_no_amp [of x] by (intro str_find_split) simp
  have "extract_query_loop (render_query (x # y # xs)) d =
      extract_query_loop (render_query (y # xs)) (umap_insert_or_assign (fst (parsed_item x)) (snd (parsed_item x)) d)"
    using 3 amp by (simp add: extract_query_loop.simps [of "render_item x @ _"] str_substr_def add_query_item)
  then show ?case using 3 by (cases "parsed_item x") (simp add: um.find_assign)
qed simp

lemma extract_query_loop_wf: "umap_wf d \<Longrightarrow> umap_wf (extract_query_loop s d)"
proof (induction s d rule: extract_query_loop.induct)
  case (1 s d)
  then show ?case
    by (subst extract_query_loop.simps)
      (auto simp: add_query_pair_def um.wf_assign split: option.splits)
qed

lemma extract_query_wf: "umap_wf (extract_query s)"
  by (simp add: extract_query_def extract_query_loop_wf um.wf_empty)

text \<open>
  C24: Parsing a query string. Every parameter written \<open>k=v\<close> is read back with its value (further equals
  signs belong to it), the last one wins when a key is repeated; but a parameter written without \<open>=\<close>
  is given its own name less the last character as its value.
\<close>

theorem extract_query_of_render:
  assumes "list_all query_item_ok items" and "items \<noteq> []" and "render_item (last items) \<noteq> []"
  shows "umap_find (extract_query (render_query items)) = map_of (rev (map parsed_item items))"
  using extract_query_loop_render [OF assms, of "[]"] by (simp add: extract_query_def fun_eq_iff map_add_def split: option.splits)

theorem extract_query_of_render_witness:
  "umap_find (extract_query ''id=1&debug'') = [''id'' \<mapsto> ''1'', ''debug'' \<mapsto> ''debu'']"
  using extract_query_of_render [of "[(''id'', Some ''1''), (''debug'', None)]"] by (simp add: fun_eq_iff)

section \<open>Requests\<close>

lemma set_typed_fields_effect:
  assumes "has_string_group msg grp"
  shows "\<exists>msg'. set_typed_fields grp kvs msg = Ok msg' \<and> has_string_group msg' grp \<and>
    group_view msg' grp = group_view msg grp ++ map_of (rev kvs) \<and> field_values msg' = field_values msg \<and>
    (\<forall>g. g \<noteq> grp \<longrightarrow> umap_find (typed_field_groups msg') g = umap_find (typed_field_groups msg) g)"
  using assms
proof (induction kvs arbitrary: msg)
  case (Cons kv kvs)
  obtain k v where kv: "kv = (k, v)" by (cases kv)
  obtain msg1 where msg1: "set_typed_field string_alt grp k v msg = Ok msg1" "has_string_group msg1 grp"
    "group_view msg1 grp = (group_view msg grp)(k \<mapsto> v)" "field_values msg1 = field_values msg"
    "\<forall>g. g \<noteq> grp \<longrightarrow> umap_find (typed_field_groups msg1) g = umap_find (typed_field_groups msg) g"
    using set_typed_string [OF Cons.prems, of k v] by blast
  have upd: "(group_view msg grp)(k \<mapsto> v) ++ map_of (rev kvs) = group_view msg grp ++ map_of (rev (kv # kvs))"
    by (simp add: kv map_add_def fun_eq_iff split: option.splits)
  show ?case using Cons.IH [OF msg1(2)] msg1(1,4,5)
    unfolding msg1(3) upd by (auto simp: kv)
qed simp

text \<open>Creating a group and filling it, as the request handler does three times.\<close>

lemma fill_new_group:
  assumes "umap_find (typed_field_groups msg) grp = None"
  shows "\<exists>msg'. set_typed_fields grp kvs (fst (create_typed_group string_alt grp msg)) = Ok msg' \<and>
    has_string_group msg' grp \<and> group_view msg' grp = map_of (rev kvs) \<and> field_values msg' = field_values msg \<and>
    (\<forall>g. g \<noteq> grp \<longrightarrow> umap_find (typed_field_groups msg') g = umap_find (typed_field_groups msg) g)"
  using set_typed_fields_effect [OF create_string_group(1) [OF assms], of kvs] create_string_group(2-) [OF assms]
  by auto

lemma map_of_rev_distinct: "distinct (map fst xs) \<Longrightarrow> map_of (rev xs) = map_of xs"
  by (rule map_of_inject_set [THEN iffD2]) (simp_all add: rev_map [symmetric])

definition fill_groups ::
  "(string \<times> string) list \<Rightarrow> (string \<times> string) list \<Rightarrow> (string \<times> string) list
     \<Rightarrow> 'z dynamic_message_scheme \<Rightarrow> 'z dynamic_message_scheme cxx"
where
  "fill_groups hs qs ps m =
     and_then (set_typed_fields ''http_headers'' hs (fst (create_typed_group string_alt ''http_headers'' m))) (\<lambda>m1.
     and_then (set_typed_fields ''query_parameters'' qs (fst (create_typed_group string_alt ''query_parameters'' m1))) (\<lambda>m2.
     set_typed_fields ''path_parameters'' ps (fst (create_typed_group string_alt ''path_parameters'' m2))))"

lemma fill_groups_effect:
  assumes "\<And>g. umap_find (typed_field_groups m) g = None"
  shows "\<exists>m'. fill_groups hs qs ps m = Ok m' \<and> field_values m' = field_values m \<and>
    group_view m' ''http_headers'' = map_of (rev hs) \<and> group_view m' ''query_parameters'' = map_of (rev qs) \<and>
    group_view m' ''path_parameters'' = map_of (rev ps)"
proof -
  obtain m1 where m1: "set_typed_fields ''http_headers'' hs (fst (create_typed_group string_alt ''http_headers'' m)) = Ok m1"
    "group_view m1 ''http_headers'' = map_of (rev hs)" "field_values m1 = field_values m"
    "\<forall>g. g \<noteq> ''http_headers'' \<longrightarrow> umap_find (typed_field_groups m1) g = None"
    using fill_new_group [OF assms, of "''http_headers''" hs] by (auto simp: assms)
  then have "umap_find (typed_field_groups m1) ''query_parameters'' = None" by simp
  from fill_new_group [OF this, of qs]
  obtain m2 where m2: "set_typed_fields ''query_parameters'' qs (fst (create_typed_group string_alt ''query_parameters'' m1)) = Ok m2"
    "group_view m2 ''query_parameters'' = map_of (rev qs)" "field_values m2 = field_values m1"
    "\<forall>g. g \<noteq> ''query_parameters'' \<longrightarrow> umap_find (typed_field_groups m2) g = umap_find (typed_field_groups m1) g"
    by auto
  then have "umap_find (typed_field_groups m2) ''path_parameters'' = None" using m1(4) by simp
  from fill_new_group [OF this, of ps]
  obtain m3 where m3: "set_typed_fields ''path_parameters'' ps (fst (create_typed_group string_alt ''path_parameters'' m2)) = Ok m3"
    "group_view m3 ''path_parameters'' = map_of (rev ps)" "field_values m3 = field_values m2"
    "\<forall>g. g \<noteq> ''path_parameters'' \<longrightarrow> umap_find (typed_field_groups m3) g = umap_find (typed_field_groups m2) g"
    by auto
  have "group_view m3 ''http_headers'' = group_view m1 ''http_headers''"
    "group_view m3 ''query_parameters'' = group_view m2 ''query_parameters''"
    using m2(4) m3(4) group_view_typed_groups [of m3 "''http_headers''" m1]
      group_view_typed_groups [of m3 "''query_parameters''" m2] by simp_all
  then show ?thesis using m1(1-3) m2(1-3) m3(1-3) by (simp add: fill_groups_def)
qed

lemma get_field_cong: "field_values m = field_values m' \<Longrightarrow> get_field alt m g k = get_field alt m' g k"
  by (simp add: get_field_def)

text \<open>The fields the handler sets before and after the typed groups.\<close>

definition request_fields :: "add_route_config_message \<Rightarrow> uws_response \<Rightarrow> timespec \<Rightarrow> http_request_message \<Rightarrow> http_request_message" where
  "request_fields cfg res ts created =
     set_field int64_alt ''info'' ''request_time'' (to_millies ts)
    (set_field string_alt ''http_info'' ''resource_path'' (resource cfg)
    (set_field string_alt ''http_info'' ''route_key_2'' (route_key_2 cfg)
    (set_field string_alt ''http_info'' ''route_key_1'' (route_key_1 cfg)
    (set_field int32_alt ''http_info'' ''method'' (route_method cfg)
    (set_field void_ptr_alt ''__HttpServerStage__'' ''uws_response'' (uws_address res) created)))))"

definition sender_fields :: "uws_response \<Rightarrow> uws_request \<Rightarrow> http_request_message \<Rightarrow> http_request_message" where
  "sender_fields res req m =
     set_field string_alt ''http_info'' ''access_token'' (uws_header req ''authorization'')
    (set_field string_alt ''http_info'' ''sender_user_agent'' (uws_header req ''user-agent'')
    (set_field string_alt ''http_info'' ''sender_ip_6'' (remote_address res) m))"

lemma on_get_request_parts:
  "on_get_request cfg res req ts created =
     and_then (fill_groups (uws_headers req) (extract_query (uws_query req))
       (path_arguments req (extract_path_parameters (resource cfg))) (request_fields cfg res ts created))
     (\<lambda>m. Ok (sender_fields res req m))"
  by (simp add: on_get_request_def fill_groups_def Let_def sender_fields_def request_fields_def)

lemma on_get_request_filled:
  assumes "typed_field_groups created = []"
  obtains m where "on_get_request cfg res req ts created = Ok (sender_fields res req m)"
    and "field_values m = field_values (request_fields cfg res ts created)"
    and "group_view m ''http_headers'' = map_of (rev (uws_headers req))"
    and "group_view m ''query_parameters'' = map_of (rev (extract_query (uws_query req)))"
    and "group_view m ''path_parameters'' = map_of (rev (path_arguments req (extract_path_parameters (resource cfg))))"
proof -
  have "umap_find (typed_field_groups (request_fields cfg res ts created)) g = None" for g
    by (simp add: request_fields_def assms)
  from fill_groups_effect [OF this, of "uws_headers req" "extract_query (uws_query req)"
      "path_arguments req (extract_path_parameters (resource cfg))"] that
  show thesis by (auto simp: on_get_request_parts)
qed

lemma sender_fields_other [simp]:
  "group_view (sender_fields res req m) = group_view m"
  "g \<noteq> ''http_info'' \<Longrightarrow> get_field alt (sender_fields res req m) g k = get_field alt m g k"
  by (simp_all add: sender_fields_def fun_eq_iff)

text \<open>The response object is the one of the request.\<close>

lemma request_response_object:
  assumes "field_values m = field_values (request_fields cfg res ts created)"
  shows "get_field void_ptr_alt (sender_fields res req m) ''__HttpServerStage__'' ''uws_response'' = Ok (uws_address res)"
  by (simp add: get_field_cong [OF assms] request_fields_def get_field_set_same [OF void_ptr.variant_alternative_axioms])

lemma request_route_keys:
  assumes "field_values m = field_values (request_fields cfg res ts created)"
  shows "get_field string_alt (sender_fields res req m) ''http_info'' ''route_key_1'' = Ok (route_key_1 cfg)"
    and "get_field string_alt (sender_fields res req m) ''http_info'' ''route_key_2'' = Ok (route_key_2 cfg)"
  by (simp_all add: get_field_cong [OF assms] sender_fields_def request_fields_def get_field_set_Ok_iff)

lemma request_time_stamp:
  assumes "field_values m = field_values (request_fields cfg res ts created)"
  shows "get_field int64_alt (sender_fields res req m) ''info'' ''request_time'' = Ok (to_millies ts)"
  by (simp add: get_field_cong [OF assms] request_fields_def get_field_set_same [OF int64.variant_alternative_axioms])

lemma set_typed_fields_wf:
  "dm_wf msg \<Longrightarrow> set_typed_fields grp kvs msg = Ok msg' \<Longrightarrow> dm_wf msg'"
proof (induction kvs arbitrary: msg)
  case (Cons kv kvs)
  then show ?case
    by (cases kv) (auto simp: and_then_Ok_iff dest: set_typed_field_wf [OF str.variant_alternative_axioms])
qed simp

lemma on_get_request_wf:
  assumes "dm_wf created" and "on_get_request cfg res req ts created = Ok msg"
  shows "dm_wf msg"
  using assms
  by (auto simp: on_get_request_parts fill_groups_def and_then_Ok_iff sender_fields_def request_fields_def
      intro!: wf_intros elim!: set_typed_fields_wf [rotated])

text \<open>
  C25: A GET request becomes a message with all its parts, and the response finds its way back. From a
  message without typed groups the handler builds one whose fields give the method, the route, the time, and the sender's address, user agent and
  access token; its three groups are the headers (the last of equal names), the parsed query and the path
  parameters under the names of the route template; it is well formed if the message was; and the response
  handler applies a response for it to the very response object of the request.
\<close>

theorem get_request_message:
  assumes "typed_field_groups created = []"
  shows "\<exists>msg. on_get_request cfg res req ts created = Ok msg \<and>
    get_field int32_alt msg ''http_info'' ''method'' = Ok (route_method cfg) \<and>
    get_field string_alt msg ''http_info'' ''route_key_1'' = Ok (route_key_1 cfg) \<and>
    get_field string_alt msg ''http_info'' ''route_key_2'' = Ok (route_key_2 cfg) \<and>
    get_field string_alt msg ''http_info'' ''resource_path'' = Ok (resource cfg) \<and>
    get_field int64_alt msg ''info'' ''request_time'' = Ok (to_millies ts) \<and>
    get_field string_alt msg ''http_info'' ''sender_ip_6'' = Ok (remote_address res) \<and>
    get_field string_alt msg ''http_info'' ''sender_user_agent'' = Ok (uws_header req ''user-agent'') \<and>
    get_field string_alt msg ''http_info'' ''access_token'' = Ok (uws_header req ''authorization'') \<and>
    (dm_wf created \<longrightarrow> dm_wf msg) \<and>
    group_view msg ''http_headers'' = map_of (rev (uws_headers req)) \<and>
    group_view msg ''query_parameters'' = umap_find (extract_query (uws_query req)) \<and>
    group_view msg ''path_parameters'' = map_of (rev (path_arguments req (extract_path_parameters (resource cfg)))) \<and>
    (\<forall>code body. server_on_response \<lparr>field_values = [], typed_field_groups = [], return_code = code,
       response_body = body, request_message = msg\<rparr> = Ok (uws_address res,
       (if code = 500 then [WriteStatus ''429 Too Many Requests''] else []) @ [End_response body]))"
proof -
  obtain m where m: "on_get_request cfg res req ts created = Ok (sender_fields res req m)"
    "field_values m = field_values (request_fields cfg res ts created)"
    "group_view m ''http_headers'' = map_of (rev (uws_headers req))"
    "group_view m ''query_parameters'' = map_of (rev (extract_query (uws_query req)))"
    "group_view m ''path_parameters'' = map_of (rev (path_arguments req (extract_path_parameters (resource cfg))))"
    by (rule on_get_request_filled [OF assms])
  have query: "map_of (rev (extract_query (uws_query req))) = umap_find (extract_query (uws_query req))"
    using map_of_rev_distinct [of "extract_query (uws_query req)"] extract_query_wf [of "uws_query req"]
    by (simp add: umap_wf_def umap_find_def fun_eq_iff)
  note reads = get_field_cong [OF m(2)]
  have wf: "dm_wf created \<longrightarrow> dm_wf (sender_fields res req m)" using on_get_request_wf m(1) by blast
  show ?thesis
    by (rule exI, rule conjI, rule m(1), intro conjI wf)
      (simp_all add: m(3-5) query reads server_on_response_def sender_fields_def request_fields_def
        get_field_set_Ok_iff get_field_set_same [OF int32.variant_alternative_axioms]
        get_field_set_same [OF int64.variant_alternative_axioms]
        get_field_set_same [OF void_ptr.variant_alternative_axioms])
qed

definition example_route :: add_route_config_message where
  "example_route = \<lparr>route_key_1 = ''k1'', route_key_2 = ''k2'', resource = ''/users/:id'',
     route_method = http_method_code GET\<rparr>"

definition example_uws_request :: uws_request where
  "example_uws_request = \<lparr>uws_headers = [(''host'', ''h'')], uws_query = ''a=1'', uws_parameter = (\<lambda>i. ''7''),
     uws_header = (\<lambda>name. if name = ''authorization'' then ''Bearer t'' else ''agent'')\<rparr>"

definition new_request_message :: http_request_message where
  "new_request_message = \<lparr>field_values = [], typed_field_groups = [], request_body = []\<rparr>"

lemma example_path: "extract_path_parameters ''/users/:id'' = [''id'']"
  by (simp add: extract_path_parameters_def path_words.simps)

theorem get_request_message_witness:
  "\<exists>msg. on_get_request example_route \<lparr>uws_address = 42, remote_address = []\<rparr> example_uws_request
      \<lparr>tv_sec = 1, tv_nsec = 5000000\<rparr> new_request_message = Ok msg \<and>
    group_view msg ''path_parameters'' ''id'' = Some ''7'' \<and> dm_wf msg \<and>
    get_field string_alt msg ''http_info'' ''access_token'' = Ok ''Bearer t'' \<and>
    get_field string_alt msg ''http_info'' ''sender_user_agent'' = Ok ''agent'' \<and>
    server_on_response \<lparr>field_values = [], typed_field_groups = [], return_code = 500, response_body = ''b'',
      request_message = msg\<rparr> = Ok (42, [WriteStatus ''429 Too Many Requests'', End_response ''b''])"
proof -
  have "typed_field_groups new_request_message = []" "dm_wf new_request_message"
    by (simp_all add: new_request_message_def dm_wf_def umap_wf_def)
  from this(2) get_request_message [OF this(1), of example_route "\<lparr>uws_address = 42, remote_address = []\<rparr>" example_uws_request
      "\<lparr>tv_sec = 1, tv_nsec = 5000000\<rparr>"]
  show ?thesis
    by (auto simp: example_route_def example_uws_request_def example_path path_arguments_def)
qed

text \<open>
  C29: Configuring routes, once the server is started. A GET route is installed by the library and
  counted, and the promise holds a value; if the library throws a \<open>std::exception\<close> the promise holds it and
  nothing is counted, while any other thrown object is reported but counted as an installed route. The
  other known methods are reported as successful and counted although no route is installed. A method
  code outside the enum resolves the promise twice, which ends the process.
\<close>

theorem route_configuration:
  assumes "http_server st = Some srv"
  shows "(route_method cfg = http_method_code GET \<longrightarrow>
      (\<forall>srv'. server_get cfg srv = Ok srv' \<longrightarrow> configurator_on_message server_get cfg Pending st =
         Ok (\<lparr>http_server = Some srv', http_route_counter = http_route_counter st + 1\<rparr>, Has_value)) \<and>
      (\<forall>e. server_get cfg srv = Throw e \<longrightarrow> configurator_on_message server_get cfg Pending st =
         (if is_std_exception e then Ok (st, Has_exception e)
          else Ok (st\<lparr>http_route_counter := http_route_counter st + 1\<rparr>,
            Has_exception (Runtime_error ''Unknown error occurred''))))) \<and>
    (\<forall>m. m \<noteq> GET \<and> route_method cfg = http_method_code m \<longrightarrow> configurator_on_message server_get cfg Pending st =
         Ok (st\<lparr>http_route_counter := http_route_counter st + 1\<rparr>, Has_value)) \<and>
    (route_method cfg \<notin> range http_method_code \<longrightarrow>
       configurator_on_message server_get cfg Pending st = Fault (Terminate Future_error))"
proof -
  have others: "list_ex (\<lambda>m. c = http_method_code m) [HEAD, POST, PUT, DELETE, CONNECT, OPTIONS, TRACE] \<longleftrightarrow>
      c \<in> range http_method_code \<and> c \<noteq> http_method_code GET" for c
    unfolding list_ex_iff by (auto simp del: http_method_code.simps) (metis http_methods.exhaust)
  have other_inj: "http_method_code m = http_method_code GET \<longleftrightarrow> m = GET" for m by (rule http_method_code_inject)
  show ?thesis
    unfolding configurator_on_message_def route_dispatch_def others
    using assms
    by (cases st) (auto simp: on_add_route_get_def on_add_route_other_def add_to_route_counter_def other_inj
        simp del: http_method_code.simps)
qed

definition example_server :: "nat http_server_stage" where
  "example_server = http_server_start 7 new_http_server_stage"

theorem route_configuration_witness:
  "configurator_on_message (\<lambda>cfg srv. Ok (Suc srv)) (example_route\<lparr>route_method := 9\<rparr>) Pending example_server
     = Fault (Terminate Future_error)"
proof -
  have "http_server example_server = Some 7" by (simp add: example_server_def http_server_start_def)
  moreover have "(9 :: i32) \<notin> range http_method_code"
  proof
    assume "(9 :: i32) \<in> range http_method_code"
    then obtain m where "9 = http_method_code m" by blast
    then show False by (cases m) simp_all
  qed
  ultimately show ?thesis
    using route_configuration [of example_server 7 "example_route\<lparr>route_method := 9\<rparr>" "\<lambda>cfg srv. Ok (Suc srv)"]
    by simp
qed

end
