(* ===== verification/Http_Connection.thy ===== *)
theory Http_Connection
  imports Prelude
begin

text \<open>
  \<open>src/stages/http_dispatcher_stage/details\<close>: a connection to a back end and its state machine
  \<open>HTTPConnectionStateMachine\<close>. The asynchronous operations of the network library appear as the list of
  operations the connection has started and not yet completed; completing one is an event, and the
  callback the machine then calls is handed back to the caller, together with the machine's new
  state. Time-outs and the buffers of the stream are left to the library.
\<close>

section \<open>State\<close>

datatype STATE_ID =
    not_connected | resolving | resolved | connecting | connected | writing | reading
  | writing_and_reading | error_state

text \<open>The values of the enumeration, which index the array of state handlers, and the names the debugging helper gives them.\<close>

fun state_id_code :: "STATE_ID \<Rightarrow> int" where
  "state_id_code not_connected = 0"
| "state_id_code resolving = 1"
| "state_id_code resolved = 2"
| "state_id_code connecting = 3"
| "state_id_code connected = 4"
| "state_id_code writing = 5"
| "state_id_code reading = 6"
| "state_id_code writing_and_reading = 7"
| "state_id_code error_state = 8"

definition to_str :: "int \<Rightarrow> string" where
  "to_str state_id =
     (if state_id = state_id_code not_connected then ''not_connected''
      else if state_id = state_id_code resolving then ''resolving''
      else if state_id = state_id_code resolved then ''resolved''
      else if state_id = state_id_code connecting then ''connecting''
      else if state_id = state_id_code connected then ''connected''
      else if state_id = state_id_code writing then ''writing''
      else if state_id = state_id_code reading then ''reading''
      else if state_id = state_id_code writing_and_reading then ''writing_and_reading''
      else if state_id = state_id_code error_state then ''error''
      else ''unknown'')"

text \<open>The array has nine elements, so every state has its handler; the names tell the states apart.\<close>

lemma state_id_code_bound: "0 \<le> state_id_code s \<and> state_id_code s < 9"
  by (cases s) simp_all

lemma to_str_inject: "to_str (state_id_code s) = to_str (state_id_code s') \<longleftrightarrow> s = s'"
  by (cases s; cases s') (simp_all add: to_str_def)

lemma to_str_unknown: "to_str i = ''unknown'' \<longleftrightarrow> i \<notin> {0..8}"
  by (auto simp: to_str_def)

text \<open>
  An operation in flight with the two callbacks its completion handler captured. \<open>'cb\<close> are callbacks without
  argument, \<open>'rd\<close> those that take a response, \<open>'ecb\<close> those that take an error code.
\<close>

datatype ('req, 'cb, 'rd, 'ecb) async_op =
    Async_resolve 'cb 'ecb
  | Async_connect 'cb 'ecb
  | Async_write 'req 'cb 'ecb
  | Async_read 'rd 'ecb

record ('req, 'cb, 'rd, 'ecb) connection =
  current_state :: STATE_ID
  write_queue :: "('req \<times> 'cb \<times> 'ecb) list"
  read_queue :: "('rd \<times> 'ecb) list"
  in_flight :: "('req, 'cb, 'rd, 'ecb) async_op list"

definition new_connection :: "('req, 'cb, 'rd, 'ecb) connection" where
  "new_connection = \<lparr>current_state = not_connected, write_queue = [], read_queue = [], in_flight = []\<rparr>"

definition start_op ::
  "('req, 'cb, 'rd, 'ecb) async_op \<Rightarrow> ('req, 'cb, 'rd, 'ecb) connection \<Rightarrow> ('req, 'cb, 'rd, 'ecb) connection"
where
  "start_op op c = c\<lparr>in_flight := in_flight c @ [op]\<rparr>"

section \<open>Handlers of the states\<close>

text \<open>Each returns the connection and the next state.\<close>

definition not_connected_resolve ::
  "'cb \<Rightarrow> 'ecb \<Rightarrow> ('req, 'cb, 'rd, 'ecb) connection \<Rightarrow> ('req, 'cb, 'rd, 'ecb) connection \<times> STATE_ID"
where
  "not_connected_resolve cb ecb c = (start_op (Async_resolve cb ecb) c, resolving)"

definition resolving_on_resolve ::
  "('req, 'cb, 'rd, 'ecb) connection \<Rightarrow> ('req, 'cb, 'rd, 'ecb) connection \<times> STATE_ID"
where
  "resolving_on_resolve c = (c, resolved)"

definition resolving_on_resolve_failed ::
  "('req, 'cb, 'rd, 'ecb) connection \<Rightarrow> ('req, 'cb, 'rd, 'ecb) connection \<times> STATE_ID"
where
  "resolving_on_resolve_failed c = (c, error_state)"

definition connecting_on_connect ::
  "('req, 'cb, 'rd, 'ecb) connection \<Rightarrow> ('req, 'cb, 'rd, 'ecb) connection \<times> STATE_ID"
where
  "connecting_on_connect c = (c, connected)"

definition connecting_on_connect_failed ::
  "('req, 'cb, 'rd, 'ecb) connection \<Rightarrow> ('req, 'cb, 'rd, 'ecb) connection \<times> STATE_ID"
where
  "connecting_on_connect_failed c = (c, not_connected)"

definition resolved_connect ::
  "'cb \<Rightarrow> 'ecb \<Rightarrow> ('req, 'cb, 'rd, 'ecb) connection \<Rightarrow> ('req, 'cb, 'rd, 'ecb) connection \<times> STATE_ID"
where
  "resolved_connect cb ecb c = (start_op (Async_connect cb ecb) c, connecting)"

definition connected_read ::
  "'rd \<Rightarrow> 'ecb \<Rightarrow> ('req, 'cb, 'rd, 'ecb) connection \<Rightarrow> ('req, 'cb, 'rd, 'ecb) connection \<times> STATE_ID"
where
  "connected_read cb ecb c = (start_op (Async_read cb ecb) c, reading)"

definition connected_write ::
  "'req \<Rightarrow> 'cb \<Rightarrow> 'ecb \<Rightarrow> ('req, 'cb, 'rd, 'ecb) connection \<Rightarrow> ('req, 'cb, 'rd, 'ecb) connection \<times> STATE_ID"
where
  "connected_write req cb ecb c = (start_op (Async_write req cb ecb) c, writing)"

definition writing_write ::
  "'req \<Rightarrow> 'cb \<Rightarrow> 'ecb \<Rightarrow> ('req, 'cb, 'rd, 'ecb) connection \<Rightarrow> ('req, 'cb, 'rd, 'ecb) connection \<times> STATE_ID"
where
  "writing_write req cb ecb c = (c\<lparr>write_queue := write_queue c @ [(req, cb, ecb)]\<rparr>, writing)"

text \<open>\<open>if (!queue.empty()) queue.pop()\<close> on a list is \<open>tl\<close>; the front element stays queued while it is sent.\<close>

definition pop_write :: "('req, 'cb, 'rd, 'ecb) connection \<Rightarrow> ('req, 'cb, 'rd, 'ecb) connection" where
  "pop_write c = (if write_queue c \<noteq> [] then c\<lparr>write_queue := tl (write_queue c)\<rparr> else c)"

definition pop_read :: "('req, 'cb, 'rd, 'ecb) connection \<Rightarrow> ('req, 'cb, 'rd, 'ecb) connection" where
  "pop_read c = (if read_queue c \<noteq> [] then c\<lparr>read_queue := tl (read_queue c)\<rparr> else c)"

definition writing_on_write ::
  "('req, 'cb, 'rd, 'ecb) connection \<Rightarrow> ('req, 'cb, 'rd, 'ecb) connection \<times> STATE_ID"
where
  "writing_on_write c =
     (let c1 = pop_write c in
      case write_queue c1 of
        (req, cb, ecb) # _ \<Rightarrow> (start_op (Async_write req cb ecb) c1, writing)
      | [] \<Rightarrow> (c1, connected))"

definition writing_on_write_error ::
  "('req, 'cb, 'rd, 'ecb) connection \<Rightarrow> ('req, 'cb, 'rd, 'ecb) connection \<times> STATE_ID"
where
  "writing_on_write_error c = (pop_write c, resolved)"

definition writing_read ::
  "'rd \<Rightarrow> 'ecb \<Rightarrow> ('req, 'cb, 'rd, 'ecb) connection \<Rightarrow> ('req, 'cb, 'rd, 'ecb) connection \<times> STATE_ID"
where
  "writing_read cb ecb c = (start_op (Async_read cb ecb) c, writing_and_reading)"

definition reading_read ::
  "'rd \<Rightarrow> 'ecb \<Rightarrow> ('req, 'cb, 'rd, 'ecb) connection \<Rightarrow> ('req, 'cb, 'rd, 'ecb) connection \<times> STATE_ID"
where
  "reading_read cb ecb c = (c\<lparr>read_queue := read_queue c @ [(cb, ecb)]\<rparr>, reading)"

definition reading_on_read ::
  "('req, 'cb, 'rd, 'ecb) connection \<Rightarrow> ('req, 'cb, 'rd, 'ecb) connection \<times> STATE_ID"
where
  "reading_on_read c =
     (let c1 = pop_read c in
      case read_queue c1 of
        (cb, ecb) # _ \<Rightarrow> (start_op (Async_read cb ecb) c1, reading)
      | [] \<Rightarrow> (c1, connected))"

definition reading_on_read_error ::
  "('req, 'cb, 'rd, 'ecb) connection \<Rightarrow> ('req, 'cb, 'rd, 'ecb) connection \<times> STATE_ID"
where
  "reading_on_read_error c = (pop_read c, resolved)"

definition reading_write ::
  "'req \<Rightarrow> 'cb \<Rightarrow> 'ecb \<Rightarrow> ('req, 'cb, 'rd, 'ecb) connection \<Rightarrow> ('req, 'cb, 'rd, 'ecb) connection \<times> STATE_ID"
where
  "reading_write req cb ecb c = (start_op (Async_write req cb ecb) c, writing_and_reading)"

definition both_write ::
  "'req \<Rightarrow> 'cb \<Rightarrow> 'ecb \<Rightarrow> ('req, 'cb, 'rd, 'ecb) connection \<Rightarrow> ('req, 'cb, 'rd, 'ecb) connection \<times> STATE_ID"
where
  "both_write req cb ecb c = (c\<lparr>write_queue := write_queue c @ [(req, cb, ecb)]\<rparr>, writing_and_reading)"

definition both_read ::
  "'rd \<Rightarrow> 'ecb \<Rightarrow> ('req, 'cb, 'rd, 'ecb) connection \<Rightarrow> ('req, 'cb, 'rd, 'ecb) connection \<times> STATE_ID"
where
  "both_read cb ecb c = (c\<lparr>read_queue := read_queue c @ [(cb, ecb)]\<rparr>, writing_and_reading)"

definition both_on_write ::
  "('req, 'cb, 'rd, 'ecb) connection \<Rightarrow> ('req, 'cb, 'rd, 'ecb) connection \<times> STATE_ID"
where
  "both_on_write c =
     (let c1 = pop_write c in
      case write_queue c1 of
        (req, cb, ecb) # _ \<Rightarrow> (start_op (Async_write req cb ecb) c1, writing_and_reading)
      | [] \<Rightarrow> (c1, reading))"

definition both_on_write_error ::
  "('req, 'cb, 'rd, 'ecb) connection \<Rightarrow> ('req, 'cb, 'rd, 'ecb) connection \<times> STATE_ID"
where
  "both_on_write_error c = (pop_write c, resolved)"

definition both_on_read ::
  "('req, 'cb, 'rd, 'ecb) connection \<Rightarrow> ('req, 'cb, 'rd, 'ecb) connection \<times> STATE_ID"
where
  "both_on_read c =
     (let c1 = pop_read c in
      case read_queue c1 of
        (cb, ecb) # _ \<Rightarrow> (start_op (Async_read cb ecb) c1, writing_and_reading)
      | [] \<Rightarrow> (c1, writing))"

definition both_on_read_error ::
  "('req, 'cb, 'rd, 'ecb) connection \<Rightarrow> ('req, 'cb, 'rd, 'ecb) connection \<times> STATE_ID"
where
  "both_on_read_error c = (pop_read c, resolved)"

section \<open>The machine\<close>

text \<open>Calls go to the handler of the current state. \<open>BaseState\<close>, whose every handler is this one, keeps the state.\<close>

definition base_state_default ::
  "STATE_ID \<Rightarrow> ('req, 'cb, 'rd, 'ecb) connection \<Rightarrow> ('req, 'cb, 'rd, 'ecb) connection \<times> STATE_ID"
where
  "base_state_default state_id c = (c, state_id)"

definition enter ::
  "('req, 'cb, 'rd, 'ecb) connection \<times> STATE_ID \<Rightarrow> ('req, 'cb, 'rd, 'ecb) connection"
where
  "enter r = (fst r)\<lparr>current_state := snd r\<rparr>"

definition sm_resolve :: "'cb \<Rightarrow> 'ecb \<Rightarrow> ('req, 'cb, 'rd, 'ecb) connection \<Rightarrow> ('req, 'cb, 'rd, 'ecb) connection" where
  "sm_resolve cb ecb c = enter (case current_state c of
     not_connected \<Rightarrow> not_connected_resolve cb ecb c | s \<Rightarrow> base_state_default s c)"

definition sm_connect :: "'cb \<Rightarrow> 'ecb \<Rightarrow> ('req, 'cb, 'rd, 'ecb) connection \<Rightarrow> ('req, 'cb, 'rd, 'ecb) connection" where
  "sm_connect cb ecb c = enter (case current_state c of
     resolved \<Rightarrow> resolved_connect cb ecb c | s \<Rightarrow> base_state_default s c)"

definition sm_write :: "'req \<Rightarrow> 'cb \<Rightarrow> 'ecb \<Rightarrow> ('req, 'cb, 'rd, 'ecb) connection \<Rightarrow> ('req, 'cb, 'rd, 'ecb) connection" where
  "sm_write req cb ecb c = enter (case current_state c of
     connected \<Rightarrow> connected_write req cb ecb c
   | writing \<Rightarrow> writing_write req cb ecb c
   | reading \<Rightarrow> reading_write req cb ecb c
   | writing_and_reading \<Rightarrow> both_write req cb ecb c
   | s \<Rightarrow> base_state_default s c)"

definition sm_read :: "'rd \<Rightarrow> 'ecb \<Rightarrow> ('req, 'cb, 'rd, 'ecb) connection \<Rightarrow> ('req, 'cb, 'rd, 'ecb) connection" where
  "sm_read cb ecb c = enter (case current_state c of
     connected \<Rightarrow> connected_read cb ecb c
   | writing \<Rightarrow> writing_read cb ecb c
   | reading \<Rightarrow> reading_read cb ecb c
   | writing_and_reading \<Rightarrow> both_read cb ecb c
   | s \<Rightarrow> base_state_default s c)"

definition sm_on_resolve :: "('req, 'cb, 'rd, 'ecb) connection \<Rightarrow> ('req, 'cb, 'rd, 'ecb) connection" where
  "sm_on_resolve c = enter (case current_state c of resolving \<Rightarrow> resolving_on_resolve c | s \<Rightarrow> base_state_default s c)"

definition sm_on_resolve_failed :: "('req, 'cb, 'rd, 'ecb) connection \<Rightarrow> ('req, 'cb, 'rd, 'ecb) connection" where
  "sm_on_resolve_failed c = enter (case current_state c of resolving \<Rightarrow> resolving_on_resolve_failed c | s \<Rightarrow> base_state_default s c)"

definition sm_on_connect :: "('req, 'cb, 'rd, 'ecb) connection \<Rightarrow> ('req, 'cb, 'rd, 'ecb) connection" where
  "sm_on_connect c = enter (case current_state c of connecting \<Rightarrow> connecting_on_connect c | s \<Rightarrow> base_state_default s c)"

definition sm_on_connect_failed :: "('req, 'cb, 'rd, 'ecb) connection \<Rightarrow> ('req, 'cb, 'rd, 'ecb) connection" where
  "sm_on_connect_failed c = enter (case current_state c of connecting \<Rightarrow> connecting_on_connect_failed c | s \<Rightarrow> base_state_default s c)"

definition sm_on_write :: "('req, 'cb, 'rd, 'ecb) connection \<Rightarrow> ('req, 'cb, 'rd, 'ecb) connection" where
  "sm_on_write c = enter (case current_state c of
     writing \<Rightarrow> writing_on_write c | writing_and_reading \<Rightarrow> both_on_write c | s \<Rightarrow> base_state_default s c)"

definition sm_on_write_error :: "('req, 'cb, 'rd, 'ecb) connection \<Rightarrow> ('req, 'cb, 'rd, 'ecb) connection" where
  "sm_on_write_error c = enter (case current_state c of
     writing \<Rightarrow> writing_on_write_error c | writing_and_reading \<Rightarrow> both_on_write_error c | s \<Rightarrow> base_state_default s c)"

definition sm_on_read :: "('req, 'cb, 'rd, 'ecb) connection \<Rightarrow> ('req, 'cb, 'rd, 'ecb) connection" where
  "sm_on_read c = enter (case current_state c of
     reading \<Rightarrow> reading_on_read c | writing_and_reading \<Rightarrow> both_on_read c | s \<Rightarrow> base_state_default s c)"

definition sm_on_read_error :: "('req, 'cb, 'rd, 'ecb) connection \<Rightarrow> ('req, 'cb, 'rd, 'ecb) connection" where
  "sm_on_read_error c = enter (case current_state c of
     reading \<Rightarrow> reading_on_read_error c | writing_and_reading \<Rightarrow> both_on_read_error c | s \<Rightarrow> base_state_default s c)"

text \<open>An operation leaves the list of operations in flight when it completes.\<close>

definition finish_op :: "nat \<Rightarrow> ('req, 'cb, 'rd, 'ecb) connection \<Rightarrow> ('req, 'cb, 'rd, 'ecb) connection" where
  "finish_op i c = c\<lparr>in_flight := take i (in_flight c) @ drop (Suc i) (in_flight c)\<rparr>"

lemmas state_handlers =
  not_connected_resolve_def resolving_on_resolve_def resolving_on_resolve_failed_def resolved_connect_def
  connecting_on_connect_def connecting_on_connect_failed_def connected_read_def connected_write_def writing_write_def
  writing_on_write_def writing_on_write_error_def writing_read_def reading_read_def reading_on_read_def
  reading_on_read_error_def reading_write_def both_write_def both_read_def both_on_write_def
  both_on_write_error_def both_on_read_def both_on_read_error_def base_state_default_def

lemmas machine_calls = sm_resolve_def sm_connect_def sm_write_def sm_read_def

lemmas machine_events =
  sm_on_resolve_def sm_on_resolve_failed_def sm_on_connect_def sm_on_connect_failed_def sm_on_write_def
  sm_on_write_error_def sm_on_read_def sm_on_read_error_def

section \<open>Runs without stream errors\<close>

text \<open>
  What can happen to a connection: its client calls an operation, at any time, and any operation in
  flight completes. Resolving and connecting may fail here, reading and writing may not.
\<close>

inductive machine_step ::
  "('req, 'cb, 'rd, 'ecb) connection \<Rightarrow> ('req, 'cb, 'rd, 'ecb) connection \<Rightarrow> bool"
where
  call_resolve: "machine_step c (sm_resolve cb ecb c)"
| call_connect: "machine_step c (sm_connect cb ecb c)"
| call_write: "machine_step c (sm_write req cb ecb c)"
| call_read: "machine_step c (sm_read rd ecb c)"
| resolve_ok: "i < length (in_flight c) \<Longrightarrow> in_flight c ! i = Async_resolve cb ecb \<Longrightarrow>
    machine_step c (sm_on_resolve (finish_op i c))"
| resolve_failed: "i < length (in_flight c) \<Longrightarrow> in_flight c ! i = Async_resolve cb ecb \<Longrightarrow>
    machine_step c (sm_on_resolve_failed (finish_op i c))"
| connect_ok: "i < length (in_flight c) \<Longrightarrow> in_flight c ! i = Async_connect cb ecb \<Longrightarrow>
    machine_step c (sm_on_connect (finish_op i c))"
| connect_failed: "i < length (in_flight c) \<Longrightarrow> in_flight c ! i = Async_connect cb ecb \<Longrightarrow>
    machine_step c (sm_on_connect_failed (finish_op i c))"
| write_ok: "i < length (in_flight c) \<Longrightarrow> in_flight c ! i = Async_write req cb ecb \<Longrightarrow>
    machine_step c (sm_on_write (finish_op i c))"
| read_ok: "i < length (in_flight c) \<Longrightarrow> in_flight c ! i = Async_read rd ecb \<Longrightarrow>
    machine_step c (sm_on_read (finish_op i c))"

fun op_kind :: "('req, 'cb, 'rd, 'ecb) async_op \<Rightarrow> STATE_ID" where
  "op_kind (Async_resolve _ _) = resolving"
| "op_kind (Async_connect _ _) = connecting"
| "op_kind (Async_write _ _ _) = writing"
| "op_kind (Async_read _ _) = reading"

text \<open>The state names exactly the operations in flight, and only busy directions have a queue.\<close>

definition machine_inv :: "('req, 'cb, 'rd, 'ecb) connection \<Rightarrow> bool" where
  "machine_inv c \<longleftrightarrow>
     map op_kind (in_flight c) \<in> (case current_state c of
         resolving \<Rightarrow> {[resolving]} | connecting \<Rightarrow> {[connecting]} | writing \<Rightarrow> {[writing]} | reading \<Rightarrow> {[reading]}
       | writing_and_reading \<Rightarrow> {[writing, reading], [reading, writing]} | _ \<Rightarrow> {[]}) \<and>
     (write_queue c \<noteq> [] \<longrightarrow> current_state c \<in> {writing, writing_and_reading}) \<and>
     (read_queue c \<noteq> [] \<longrightarrow> current_state c \<in> {reading, writing_and_reading})"

lemma finish_kinds: "map op_kind (in_flight (finish_op i c)) =
    take i (map op_kind (in_flight c)) @ drop (Suc i) (map op_kind (in_flight c))"
  by (simp add: finish_op_def take_map drop_map)

lemma finish_op_other [simp]:
  "current_state (finish_op i c) = current_state c" "write_queue (finish_op i c) = write_queue c"
  "read_queue (finish_op i c) = read_queue c"
  by (simp_all add: finish_op_def)

lemma call_keeps_inv:
  assumes "machine_inv c"
  shows "machine_inv (sm_resolve cb ecb c)" "machine_inv (sm_connect cb ecb c)"
    "machine_inv (sm_write req cb ecb c)" "machine_inv (sm_read rd ecb c)"
  using assms
  by (auto simp: machine_inv_def machine_calls state_handlers enter_def start_op_def split: STATE_ID.splits)

text \<open>What is left in flight when an operation of a given kind completes, state by state.\<close>

lemma finished_kinds:
  assumes "machine_inv c" and "i < length (in_flight c)" and "op_kind (in_flight c ! i) = k"
  shows "map op_kind (in_flight (finish_op i c)) =
      (if current_state c = writing_and_reading then [if k = writing then reading else writing] else [])"
    and "current_state c = k \<or> current_state c = writing_and_reading \<and> k \<in> {writing, reading}"
proof -
  let ?ks = "map op_kind (in_flight c)"
  have i: "i < length ?ks" "?ks ! i = k" using assms(2,3) by simp_all
  have ks: "?ks \<in> (case current_state c of
         resolving \<Rightarrow> {[resolving]} | connecting \<Rightarrow> {[connecting]} | writing \<Rightarrow> {[writing]} | reading \<Rightarrow> {[reading]}
       | writing_and_reading \<Rightarrow> {[writing, reading], [reading, writing]} | _ \<Rightarrow> {[]})"
    using assms(1) by (simp add: machine_inv_def)
  show "map op_kind (in_flight (finish_op i c)) =
      (if current_state c = writing_and_reading then [if k = writing then reading else writing] else [])"
    using ks i unfolding finish_kinds
    by (cases "current_state c") (auto simp: less_Suc_eq numeral_2_eq_2)
  show "current_state c = k \<or> current_state c = writing_and_reading \<and> k \<in> {writing, reading}"
    using ks i by (cases "current_state c") (auto simp: less_Suc_eq numeral_2_eq_2)
qed

lemma event_keeps_inv:
  assumes "machine_inv c" and "i < length (in_flight c)"
  shows "op_kind (in_flight c ! i) = resolving \<Longrightarrow> machine_inv (sm_on_resolve (finish_op i c))"
    and "op_kind (in_flight c ! i) = resolving \<Longrightarrow> machine_inv (sm_on_resolve_failed (finish_op i c))"
    and "op_kind (in_flight c ! i) = connecting \<Longrightarrow> machine_inv (sm_on_connect (finish_op i c))"
    and "op_kind (in_flight c ! i) = connecting \<Longrightarrow> machine_inv (sm_on_connect_failed (finish_op i c))"
    and "op_kind (in_flight c ! i) = writing \<Longrightarrow> machine_inv (sm_on_write (finish_op i c))"
    and "op_kind (in_flight c ! i) = reading \<Longrightarrow> machine_inv (sm_on_read (finish_op i c))"
  using finished_kinds [OF assms] assms(1)
  by (auto simp: machine_inv_def machine_events state_handlers enter_def start_op_def pop_write_def pop_read_def Let_def
      split: STATE_ID.splits list.splits if_splits)

lemma machine_step_inv: "machine_step c c' \<Longrightarrow> machine_inv c \<Longrightarrow> machine_inv c'"
  by (induction rule: machine_step.induct) (auto intro: call_keeps_inv event_keeps_inv)

lemma machine_reachable_inv:
  assumes "machine_step\<^sup>*\<^sup>* new_connection c"
  shows "machine_inv c"
  using assms
proof (induction rule: rtranclp_induct)
  case base
  show ?case by (simp add: machine_inv_def new_connection_def)
next
  case (step c c')
  then show ?case by (blast intro: machine_step_inv)
qed

lemma machine_inv_counts:
  assumes "machine_inv c"
  shows "length (filter (\<lambda>op. op_kind op = writing) (in_flight c)) \<le> 1"
    and "length (filter (\<lambda>op. op_kind op = reading) (in_flight c)) \<le> 1"
  using assms by (auto simp: machine_inv_def split: STATE_ID.splits)

text \<open>
  C14: As long as no read or write fails, the state machine is faithful to the connection: in every state it
  reaches, whatever its client calls and in whatever order operations complete, the operations in flight are
  those its state names. In particular there is never more than one read and one write in flight, and only
  a busy direction has waiting requests.
\<close>

theorem machine_invariant:
  assumes "machine_step\<^sup>*\<^sup>* new_connection c"
  shows "machine_inv c \<and> length (filter (\<lambda>op. op_kind op = writing) (in_flight c)) \<le> 1 \<and>
    length (filter (\<lambda>op. op_kind op = reading) (in_flight c)) \<le> 1"
  using machine_reachable_inv [OF assms] machine_inv_counts by blast

theorem machine_invariant_witness:
  "machine_inv (sm_resolve (1::nat) (2::nat) (new_connection :: (nat, nat, nat, nat) connection))"
proof -
  have "machine_step\<^sup>*\<^sup>* new_connection (sm_resolve (1::nat) (2::nat) (new_connection :: (nat, nat, nat, nat) connection))"
    by (rule r_into_rtranclp) (rule call_resolve)
  from machine_invariant [OF this] show ?thesis by blast
qed

section \<open>Waiting writes\<close>

text \<open>The write in flight completes, over and over; the requests given to the stream, in order.\<close>

fun complete_writes :: "nat \<Rightarrow> ('req, 'cb, 'rd, 'ecb) connection \<Rightarrow> 'req list \<times> ('req, 'cb, 'rd, 'ecb) connection" where
  "complete_writes 0 c = ([], c)"
| "complete_writes (Suc n) c =
     (case in_flight c of
        Async_write req cb ecb # _ \<Rightarrow>
          (let (reqs, c') = complete_writes n (sm_on_write (finish_op 0 c)) in (req # reqs, c'))
      | _ \<Rightarrow> ([], c))"

definition write_all :: "('req \<times> 'cb \<times> 'ecb) list \<Rightarrow> ('req, 'cb, 'rd, 'ecb) connection \<Rightarrow> ('req, 'cb, 'rd, 'ecb) connection" where
  "write_all ws c = fold (\<lambda>(req, cb, ecb). sm_write req cb ecb) ws c"

lemma write_all_writing:
  "current_state c = writing \<Longrightarrow> write_all ws c = c\<lparr>write_queue := write_queue c @ ws\<rparr>"
  unfolding write_all_def
  by (induction ws arbitrary: c) (auto simp: sm_write_def writing_write_def enter_def)

lemma complete_queue:
  assumes "current_state c = writing" and "in_flight c = [Async_write req cb ecb]" and "write_queue c = w # ws"
  shows "complete_writes (Suc (length ws)) c =
    (req # map fst ws, c\<lparr>current_state := connected, write_queue := [], in_flight := []\<rparr>)"
  using assms
proof (induction ws arbitrary: c req cb ecb w)
  case Nil
  then show ?case
    by (cases c) (simp add: sm_on_write_def writing_on_write_def pop_write_def enter_def finish_op_def)
next
  case (Cons w' ws)
  obtain req' cb' ecb' where w': "w' = (req', cb', ecb')" by (cases w')
  define c' where "c' = c\<lparr>write_queue := w' # ws, in_flight := [Async_write req' cb' ecb']\<rparr>"
  have "sm_on_write (finish_op 0 c) = c'"
    using Cons.prems by (cases c) (simp add: sm_on_write_def writing_on_write_def pop_write_def enter_def finish_op_def
        start_op_def c'_def w')
  moreover have "complete_writes (Suc (length ws)) c' =
      (req' # map fst ws, c'\<lparr>current_state := connected, write_queue := [], in_flight := []\<rparr>)"
    using Cons.prems by (intro Cons.IH) (simp_all add: c'_def)
  ultimately show ?case using Cons.prems by (simp add: c'_def w')
qed

text \<open>
  C16: A waiting request is lost. On an idle connection, let further requests be written while the first
  write is in progress, and let every write succeed. The stream is given the first request and then the
  waiting ones in order, but not the one that had been waiting longest: its queue entry is
  removed unsent when the first write completes, and neither of its callbacks is ever called.
\<close>

theorem first_waiting_write_is_lost:
  assumes "current_state c = connected" and "in_flight c = []" and "write_queue c = []"
  shows "complete_writes (Suc (length ws)) (write_all ((req0, cb0, ecb0) # (req1, cb1, ecb1) # ws) c) =
    (req0 # map fst ws, c)"
proof -
  define c0 where "c0 = c\<lparr>current_state := writing, in_flight := [Async_write req0 cb0 ecb0]\<rparr>"
  have "sm_write req0 cb0 ecb0 c = c0"
    using assms by (simp add: sm_write_def connected_write_def start_op_def enter_def c0_def)
  then have "write_all ((req0, cb0, ecb0) # (req1, cb1, ecb1) # ws) c = write_all ((req1, cb1, ecb1) # ws) c0"
    by (simp add: write_all_def)
  also have "\<dots> = c0\<lparr>write_queue := (req1, cb1, ecb1) # ws\<rparr>"
    using assms(3) by (subst write_all_writing) (simp_all add: c0_def)
  finally show ?thesis
    using complete_queue [of "c0\<lparr>write_queue := (req1, cb1, ecb1) # ws\<rparr>" req0 cb0 ecb0 "(req1, cb1, ecb1)" ws] assms
    by (cases c) (simp add: c0_def)
qed

theorem first_waiting_write_is_lost_witness:
  "complete_writes 2 (write_all [(''A'', (), ()), (''B'', (), ()), (''C'', (), ())]
     ((new_connection :: (string, unit, unit, unit) connection)\<lparr>current_state := connected\<rparr>)) =
   ([''A'', ''C''], new_connection\<lparr>current_state := connected\<rparr>)"
  using first_waiting_write_is_lost [of "(new_connection :: (string, unit, unit, unit) connection)\<lparr>current_state := connected\<rparr>"
      "[(''C'', (), ())]" "''A''" "()" "()" "''B''" "()" "()"]
  by (simp add: new_connection_def numeral_2_eq_2)

section \<open>Runs with stream errors\<close>

text \<open>
  Reads and writes may also fail. Connecting over a range of end points, as the machine does, closes the socket before it opens it again, which
  aborts what is still in flight on it; so the connect completes only after the handlers of those operations have run.
\<close>

inductive stream_step ::
  "('req, 'cb, 'rd, 'ecb) connection \<Rightarrow> ('req, 'cb, 'rd, 'ecb) connection \<Rightarrow> bool"
where
  client_call: "c' \<in> {sm_resolve cb ecb c, sm_connect cb ecb c, sm_write req cb ecb c, sm_read rd ecb c} \<Longrightarrow> stream_step c c'"
| resolve_done: "i < length (in_flight c) \<Longrightarrow> in_flight c ! i = Async_resolve cb ecb \<Longrightarrow>
    c' \<in> {sm_on_resolve (finish_op i c), sm_on_resolve_failed (finish_op i c)} \<Longrightarrow> stream_step c c'"
| connect_done: "in_flight c = [Async_connect cb ecb] \<Longrightarrow>
    c' \<in> {sm_on_connect (finish_op 0 c), sm_on_connect_failed (finish_op 0 c)} \<Longrightarrow> stream_step c c'"
| write_done: "i < length (in_flight c) \<Longrightarrow> in_flight c ! i = Async_write req cb ecb \<Longrightarrow>
    c' \<in> {sm_on_write (finish_op i c), sm_on_write_error (finish_op i c)} \<Longrightarrow> stream_step c c'"
| read_done: "i < length (in_flight c) \<Longrightarrow> in_flight c ! i = Async_read rd ecb \<Longrightarrow>
    c' \<in> {sm_on_read (finish_op i c), sm_on_read_error (finish_op i c)} \<Longrightarrow> stream_step c c'"

text \<open>
  What may be in flight in each state: what it names; after an error, until the connection is open again, also an operation of the
  other direction.
\<close>

definition flights :: "STATE_ID \<Rightarrow> STATE_ID list set" where
  "flights s = (case s of
     resolving \<Rightarrow> {[resolving]} | connecting \<Rightarrow> {[connecting], [writing, connecting], [reading, connecting]}
   | resolved \<Rightarrow> {[], [writing], [reading]} | writing \<Rightarrow> {[writing]} | reading \<Rightarrow> {[reading]}
   | writing_and_reading \<Rightarrow> {[writing, reading], [reading, writing]} | _ \<Rightarrow> {[]})"

definition stream_inv :: "('req, 'cb, 'rd, 'ecb) connection \<Rightarrow> bool" where
  "stream_inv c \<longleftrightarrow> map op_kind (in_flight c) \<in> flights (current_state c)"

lemma call_keeps_flights:
  assumes "stream_inv c"
  shows "stream_inv (sm_resolve cb ecb c)" "stream_inv (sm_connect cb ecb c)"
    "stream_inv (sm_write req cb ecb c)" "stream_inv (sm_read rd ecb c)"
  using assms
  by (auto simp: stream_inv_def flights_def machine_calls state_handlers enter_def start_op_def split: STATE_ID.splits)

text \<open>What is left when one of them completes.\<close>

lemma finished_flights:
  assumes "stream_inv c" and "i < length (in_flight c)" and "op_kind (in_flight c ! i) = k"
  shows "case current_state c of
      connecting \<Rightarrow> map op_kind (in_flight (finish_op i c)) = (if k = connecting then butlast (map op_kind (in_flight c)) else [connecting])
    | writing_and_reading \<Rightarrow> k \<in> {writing, reading} \<and> map op_kind (in_flight (finish_op i c)) = [if k = writing then reading else writing]
    | resolved \<Rightarrow> k \<in> {writing, reading} \<and> map op_kind (in_flight (finish_op i c)) = []
    | s \<Rightarrow> k = s \<and> map op_kind (in_flight (finish_op i c)) = []"
proof -
  define ks where "ks = map op_kind (in_flight c)"
  have i: "i < length ks" "k = ks ! i" using assms(2,3) by (simp_all add: ks_def)
  have ks: "ks \<in> flights (current_state c)" using assms(1) by (simp add: stream_inv_def ks_def)
  then have "length ks \<le> 2" by (auto simp: flights_def split: STATE_ID.splits)
  then have "i = 0 \<or> i = 1" using i(1) by linarith
  then show ?thesis
    using ks i unfolding finish_kinds ks_def [symmetric]
    by (elim disjE; cases "current_state c") (auto simp: flights_def)
qed

text \<open>Where the completion of a write or read leads, and what it starts.\<close>

definition leads :: "('req, 'cb, 'rd, 'ecb) connection \<Rightarrow> ('req, 'cb, 'rd, 'ecb) connection \<Rightarrow> STATE_ID \<Rightarrow> STATE_ID list \<Rightarrow> bool" where
  "leads c c' s ks \<longleftrightarrow> current_state c' = s \<and> map op_kind (in_flight c') = map op_kind (in_flight c) @ ks"

lemma completion_leads:
  "current_state c = writing \<Longrightarrow> leads c (sm_on_write c) writing [writing] \<or> leads c (sm_on_write c) connected []"
  "current_state c = writing_and_reading \<Longrightarrow> leads c (sm_on_write c) writing_and_reading [writing] \<or> leads c (sm_on_write c) reading []"
  "current_state c = reading \<Longrightarrow> leads c (sm_on_read c) reading [reading] \<or> leads c (sm_on_read c) connected []"
  "current_state c = writing_and_reading \<Longrightarrow> leads c (sm_on_read c) writing_and_reading [reading] \<or> leads c (sm_on_read c) writing []"
  "current_state c \<in> {writing, writing_and_reading} \<Longrightarrow> leads c (sm_on_write_error c) resolved []"
  "current_state c \<in> {reading, writing_and_reading} \<Longrightarrow> leads c (sm_on_read_error c) resolved []"
  "current_state c \<notin> {writing, writing_and_reading} \<Longrightarrow> leads c (sm_on_write c) (current_state c) [] \<and> leads c (sm_on_write_error c) (current_state c) []"
  "current_state c \<notin> {reading, writing_and_reading} \<Longrightarrow> leads c (sm_on_read c) (current_state c) [] \<and> leads c (sm_on_read_error c) (current_state c) []"
  by (auto simp: leads_def machine_events state_handlers enter_def start_op_def pop_write_def pop_read_def Let_def
      split: STATE_ID.splits list.splits)

lemma event_keeps_flights:
  assumes "stream_inv c" and "i < length (in_flight c)"
  shows "op_kind (in_flight c ! i) = resolving \<Longrightarrow> stream_inv (sm_on_resolve (finish_op i c)) \<and> stream_inv (sm_on_resolve_failed (finish_op i c))"
    and "op_kind (in_flight c ! i) = writing \<Longrightarrow> stream_inv (sm_on_write (finish_op i c)) \<and> stream_inv (sm_on_write_error (finish_op i c))"
    and "op_kind (in_flight c ! i) = reading \<Longrightarrow> stream_inv (sm_on_read (finish_op i c)) \<and> stream_inv (sm_on_read_error (finish_op i c))"
proof -
  note completes = completion_leads [of "finish_op i c", unfolded leads_def finish_op_other]
  { assume "op_kind (in_flight c ! i) = resolving"
    from finished_flights [OF assms this]
    show "stream_inv (sm_on_resolve (finish_op i c)) \<and> stream_inv (sm_on_resolve_failed (finish_op i c))"
      by (cases "current_state c")
        (simp_all add: stream_inv_def flights_def sm_on_resolve_def sm_on_resolve_failed_def state_handlers enter_def) }
  { assume "op_kind (in_flight c ! i) = writing"
    from finished_flights [OF assms this] completes(1,2,5,7)
    show "stream_inv (sm_on_write (finish_op i c)) \<and> stream_inv (sm_on_write_error (finish_op i c))"
      by (cases "current_state c") (auto simp: stream_inv_def flights_def) }
  { assume "op_kind (in_flight c ! i) = reading"
    from finished_flights [OF assms this] completes(3,4,6,8)
    show "stream_inv (sm_on_read (finish_op i c)) \<and> stream_inv (sm_on_read_error (finish_op i c))"
      by (cases "current_state c") (auto simp: stream_inv_def flights_def) }
qed

lemma connect_keeps_flights:
  assumes "stream_inv c" and "in_flight c = [Async_connect cb ecb]"
  shows "stream_inv (sm_on_connect (finish_op 0 c)) \<and> stream_inv (sm_on_connect_failed (finish_op 0 c))"
proof -
  have "current_state c = connecting"
    using assms by (cases "current_state c") (simp_all add: stream_inv_def flights_def)
  moreover have "in_flight (finish_op 0 c) = []" by (simp add: finish_op_def assms(2))
  ultimately show ?thesis
    by (simp add: stream_inv_def flights_def sm_on_connect_def sm_on_connect_failed_def connecting_on_connect_def
        connecting_on_connect_failed_def enter_def)
qed

lemma stream_step_inv: "stream_step c c' \<Longrightarrow> stream_inv c \<Longrightarrow> stream_inv c'"
proof (induction rule: stream_step.induct)
  case (client_call c' cb ecb c req rd)
  then show ?case using call_keeps_flights [OF client_call.prems] by auto
next
  case (resolve_done i c cb ecb c')
  then show ?case using event_keeps_flights(1) [OF resolve_done.prems resolve_done.hyps(1)] by auto
next
  case (connect_done c cb ecb c')
  then show ?case using connect_keeps_flights [OF connect_done.prems connect_done.hyps(1)] by auto
next
  case (write_done i c req cb ecb c')
  then show ?case using event_keeps_flights(2) [OF write_done.prems write_done.hyps(1)] by auto
next
  case (read_done i c rd ecb c')
  then show ?case using event_keeps_flights(3) [OF read_done.prems read_done.hyps(1)] by auto
qed

lemma stream_reachable_inv:
  assumes "stream_step\<^sup>*\<^sup>* new_connection c"
  shows "stream_inv c"
  using assms
proof (induction rule: rtranclp_induct)
  case base
  show ?case by (simp add: stream_inv_def flights_def new_connection_def)
next
  case (step c c')
  then show ?case by (blast intro: stream_step_inv)
qed

lemma flights_counts:
  "map op_kind ops \<in> flights s \<Longrightarrow>
   length (filter (\<lambda>op. op_kind op = writing) ops) \<le> 1 \<and> length (filter (\<lambda>op. op_kind op = reading) ops) \<le> 1"
  by (auto simp: flights_def split: STATE_ID.splits)

text \<open>A resolved connection with nothing in flight after its client has connected it again.\<close>

definition reconnected :: "'cb \<Rightarrow> 'ecb \<Rightarrow> ('req, 'cb, 'rd, 'ecb) connection \<Rightarrow> ('req, 'cb, 'rd, 'ecb) connection" where
  "reconnected cb ecb c = sm_on_connect (finish_op 0 (sm_connect cb ecb c))"

lemma write_on_waiting:
  assumes "current_state c = connected" and "in_flight c = []" and "write_queue c = w # ws"
  shows "complete_writes (Suc (length ws)) (sm_write req cb ecb c) = (req # map fst ws, c\<lparr>write_queue := []\<rparr>)"
proof -
  define c0 where "c0 = c\<lparr>current_state := writing, in_flight := [Async_write req cb ecb]\<rparr>"
  have "sm_write req cb ecb c = c0" using assms by (simp add: sm_write_def connected_write_def start_op_def enter_def c0_def)
  moreover have "complete_writes (Suc (length ws)) c0 = (req # map fst ws, c0\<lparr>current_state := connected, write_queue := [], in_flight := []\<rparr>)"
    using assms by (intro complete_queue) (simp_all add: c0_def)
  ultimately show ?thesis using assms by (cases c) (simp add: c0_def)
qed

lemma reconnected_after_write_error:
  assumes "current_state c = writing" and "in_flight (finish_op 0 c) = []"
  shows "reconnected cb ecb (sm_on_write_error (finish_op 0 c)) =
    c\<lparr>current_state := connected, in_flight := [], write_queue := tl (write_queue c)\<rparr>"
proof -
  have "sm_on_write_error (finish_op 0 c) = c\<lparr>current_state := resolved, in_flight := [], write_queue := tl (write_queue c)\<rparr>"
    using assms by (cases c) (simp add: sm_on_write_error_def writing_on_write_error_def pop_write_def enter_def finish_op_def)
  then show ?thesis
    by (simp add: reconnected_def sm_connect_def sm_on_connect_def resolved_connect_def connecting_on_connect_def enter_def
        start_op_def finish_op_def)
qed


text \<open>A connection that has been set up, with a write in progress and three requests waiting.\<close>

definition busy_connection :: "(string, unit, unit, unit) connection" where
  "busy_connection = write_all [(''A'', (), ()), (''B'', (), ()), (''C'', (), ()), (''D'', (), ())] (new_connection\<lparr>current_state := connected\<rparr>)"

lemma write_all_reachable:
  "stream_step\<^sup>*\<^sup>* c0 c \<Longrightarrow> stream_step\<^sup>*\<^sup>* c0 (write_all ws c)"
proof (induction ws arbitrary: c)
  case (Cons w ws)
  obtain req cb ecb where w: "w = (req, cb, ecb)" by (cases w)
  have "stream_step c (sm_write req cb ecb c)" by (rule client_call [where req = req and cb = cb and ecb = ecb]) simp
  then show ?case using Cons.IH rtranclp.rtrancl_into_rtrancl [OF Cons.prems] by (simp add: write_all_def w)
qed (simp add: write_all_def)

lemma busy_connection_reachable: "stream_step\<^sup>*\<^sup>* new_connection busy_connection"
proof -
  let ?c = "new_connection :: (string, unit, unit, unit) connection"
  have 1: "stream_step ?c (?c\<lparr>current_state := resolving, in_flight := [Async_resolve () ()]\<rparr>)"
    by (rule client_call [where cb = "()" and ecb = "()"])
      (simp add: sm_resolve_def not_connected_resolve_def start_op_def enter_def new_connection_def)
  have 2: "stream_step (?c\<lparr>current_state := resolving, in_flight := [Async_resolve () ()]\<rparr>) (?c\<lparr>current_state := resolved\<rparr>)"
    by (rule resolve_done [where i = 0])
      (simp_all add: sm_on_resolve_def resolving_on_resolve_def finish_op_def enter_def new_connection_def)
  have 3: "stream_step (?c\<lparr>current_state := resolved\<rparr>) (?c\<lparr>current_state := connecting, in_flight := [Async_connect () ()]\<rparr>)"
    by (rule client_call [where cb = "()" and ecb = "()"])
      (simp add: sm_connect_def resolved_connect_def start_op_def enter_def new_connection_def)
  have 4: "stream_step (?c\<lparr>current_state := connecting, in_flight := [Async_connect () ()]\<rparr>) (?c\<lparr>current_state := connected\<rparr>)"
    by (rule connect_done) (simp_all add: sm_on_connect_def connecting_on_connect_def finish_op_def enter_def new_connection_def)
  show ?thesis
    unfolding busy_connection_def
    by (rule write_all_reachable) (use 1 2 3 4 in \<open>meson converse_rtranclp_into_rtranclp rtranclp.rtrancl_refl\<close>)
qed

lemma busy_connection_state:
  "busy_connection = new_connection\<lparr>current_state := writing, in_flight := [Async_write ''A'' () ()],
     write_queue := [(''B'', (), ()), (''C'', (), ()), (''D'', (), ())]\<rparr>"
  by (simp add: busy_connection_def write_all_def sm_write_def connected_write_def writing_write_def start_op_def enter_def new_connection_def)


end
