(* ===== verification/Http_Dispatcher.thy ===== *)
theory Http_Dispatcher
  imports Http_Connection Dynamic_Message Base_Stage
begin

text \<open>
  \<open>src/stages/http_dispatcher_stage/http_dispatcher_stage.h\<close>: the stage that sends requests to back ends
  over pooled connections. \<open>on_message\<close> posts a handler to the event loop; the handler and the callbacks it
  passes to the connection are closures of the code, here the constructors of three data types with the values
  they captured. An event of the loop is a posted handler, or the completion of an operation in flight of
  some connection with its result.
\<close>

section \<open>Callbacks\<close>

type_synonym http_connection_key = "bool \<times> string \<times> string"

text \<open>
  The closures without arguments, by what they do: connect and go on, perform the request, read the
  response of a request that has been written.
\<close>

datatype void_callback =
    Then_connect http_request_message
  | Then_perform http_request_message
  | Then_read nat http_request_message

datatype response_callback = Relay_response nat http_request_message

text \<open>The error closures: with a request object to free, after a read or write, or without.\<close>

datatype error_callback =
    Drop_request http_request_message
  | Free_and_drop nat http_request_message

type_synonym http_connection = "(nat, void_callback, response_callback, error_callback) connection"

section \<open>State\<close>

text \<open>
  Requests of the object pool are numbered in the order they are constructed; every one is the same
  \<open>GET /test\<close>, since \<open>request_from_message\<close> does not look at the message. The pool of connections
  compares its keys with \<open>operator==\<close>; their hash only has to agree on equal keys.
\<close>

record http_dispatcher =
  http_connection_pool :: "(http_connection_key, http_connection) umap"
  requests_constructed :: nat
  live_requests :: "nat list"
  posted :: "http_request_message list"

definition new_http_dispatcher :: http_dispatcher where
  "new_http_dispatcher = \<lparr>http_connection_pool = [], requests_constructed = 0, live_requests = [], posted = []\<rparr>"

definition key_hash :: "(string \<Rightarrow> u64) \<Rightarrow> (bool \<Rightarrow> u64) \<Rightarrow> http_connection_key \<Rightarrow> u64" where
  "key_hash hash_string hash_bool key =
     (let (https, host, port) = key;
          hash_combine = (\<lambda>seed h. seed XOR (h + 0x9e3779b9 + push_bit 6 seed + drop_bit 2 seed)) in
      hash_combine (hash_combine (hash_combine 0 (hash_string host)) (hash_string port)) (hash_bool https))"

datatype dispatcher_out =
    Http_response_out http_response_message
  | Dropped_requests_out http_request_message

text \<open>
  \<open>HttpDroppedRequestMessage\<close>, meant to wrap what is dropped. Its pointer is not initialised, and nothing creates
  one: \<open>create_dropped_message\<close> hands on the request itself.
\<close>

record http_dropped_request_message =
  dropped_message :: "http_request_message option"

definition set_dropped_message :: "http_request_message \<Rightarrow> http_dropped_request_message \<Rightarrow> http_dropped_request_message" where
  "set_dropped_message msg m = m\<lparr>dropped_message := Some msg\<rparr>"

definition get_dropped_message :: "http_dropped_request_message \<Rightarrow> http_request_message cxx" where
  "get_dropped_message m =
     (case dropped_message m of
        Some msg \<Rightarrow> Ok msg
      | None \<Rightarrow> Fault (Undefined ''uninitialised dropped message''))"

section \<open>Handlers\<close>

definition dispatcher_on_message :: "http_request_message \<Rightarrow> http_dispatcher \<Rightarrow> http_dispatcher" where
  "dispatcher_on_message msg d = d\<lparr>posted := posted d @ [msg]\<rparr>"

definition create_dropped_message :: "http_request_message \<Rightarrow> http_request_message" where
  "create_dropped_message request = request"

definition request_from_message :: "http_dispatcher \<Rightarrow> http_dispatcher \<times> nat" where
  "request_from_message d =
     (d\<lparr>requests_constructed := Suc (requests_constructed d),
        live_requests := live_requests d @ [requests_constructed d]\<rparr>, requests_constructed d)"

definition free_request :: "nat \<Rightarrow> http_dispatcher \<Rightarrow> http_dispatcher" where
  "free_request req d = d\<lparr>live_requests := filter (\<lambda>r. r \<noteq> req) (live_requests d)\<rparr>"

text \<open>A call on the connection a state machine pointer points to.\<close>

definition on_connection ::
  "http_connection_key \<Rightarrow> (http_connection \<Rightarrow> http_connection) \<Rightarrow> http_dispatcher \<Rightarrow> http_dispatcher"
where
  "on_connection key f d =
     (case umap_find (http_connection_pool d) key of
        Some c \<Rightarrow> d\<lparr>http_connection_pool := umap_insert_or_assign key (f c) (http_connection_pool d)\<rparr>
      | None \<Rightarrow> d)"

definition perform_request :: "http_connection_key \<Rightarrow> http_request_message \<Rightarrow> http_dispatcher \<Rightarrow> http_dispatcher" where
  "perform_request key msg d =
     (let (d1, req) = request_from_message d in
      on_connection key (sm_write req (Then_read req msg) (Free_and_drop req msg)) d1)"

definition dispatcher_handler :: "http_request_message \<Rightarrow> http_dispatcher \<Rightarrow> http_dispatcher cxx" where
  "dispatcher_handler msg d =
     and_then (get_field string_alt msg ''load_balancing'' ''endpoint_host'') (\<lambda>host.
     and_then (get_field string_alt msg ''load_balancing'' ''endpoint_port'') (\<lambda>port.
       let key = (False, host, port) in
       case umap_find (http_connection_pool d) key of
         None \<Rightarrow>
           Ok (on_connection key (sm_resolve (Then_connect msg) (Drop_request msg))
             (d\<lparr>http_connection_pool := fst (umap_try_emplace key new_connection (http_connection_pool d))\<rparr>))
       | Some state_machine \<Rightarrow>
           (if current_state state_machine = writing_and_reading \<or> current_state state_machine = reading \<or>
               current_state state_machine = writing \<or> current_state state_machine = connected
            then Ok (perform_request key msg d)
            else if current_state state_machine = resolved
            then Ok (on_connection key (sm_connect (Then_perform msg) (Drop_request msg)) d)
            else Ok d)))"

text \<open>Calling the closures.\<close>

fun call_void :: "http_connection_key \<Rightarrow> void_callback \<Rightarrow> http_dispatcher \<Rightarrow> http_dispatcher" where
  "call_void key (Then_connect msg) d = on_connection key (sm_connect (Then_perform msg) (Drop_request msg)) d"
| "call_void key (Then_perform msg) d = perform_request key msg d"
| "call_void key (Then_read req msg) d =
     on_connection key (sm_read (Relay_response req msg) (Free_and_drop req msg)) d"

text \<open>\<open>created\<close> is the message the response factory makes.\<close>

fun call_response ::
  "http_response_message \<Rightarrow> response_callback \<Rightarrow> string \<Rightarrow> http_dispatcher \<Rightarrow> http_dispatcher \<times> dispatcher_out list"
where
  "call_response created (Relay_response req msg) body d =
     (free_request req d,
      [Http_response_out (created\<lparr>response_body := body, return_code := 200, request_message := msg\<rparr>)])"

fun call_error :: "error_callback \<Rightarrow> http_dispatcher \<Rightarrow> http_dispatcher \<times> dispatcher_out list" where
  "call_error (Drop_request msg) d = (d, [Dropped_requests_out (create_dropped_message msg)])"
| "call_error (Free_and_drop req msg) d = (free_request req d, [Dropped_requests_out (create_dropped_message msg)])"

section \<open>The event loop\<close>

text \<open>The result of an operation: success, with the body of the response for a read, or an error.\<close>

datatype io_result = Succeeded string | Failed

text \<open>The completion handler of an operation: the machine's event, then the closure.\<close>

fun complete_op ::
  "http_response_message \<Rightarrow> http_connection_key \<Rightarrow> (nat, void_callback, response_callback, error_callback) async_op
     \<Rightarrow> io_result \<Rightarrow> http_dispatcher \<Rightarrow> http_dispatcher \<times> dispatcher_out list"
where
  "complete_op created key (Async_resolve cb ecb) (Succeeded _) d = (call_void key cb (on_connection key sm_on_resolve d), [])"
| "complete_op created key (Async_resolve cb ecb) Failed d = call_error ecb (on_connection key sm_on_resolve_failed d)"
| "complete_op created key (Async_connect cb ecb) (Succeeded _) d = (call_void key cb (on_connection key sm_on_connect d), [])"
| "complete_op created key (Async_connect cb ecb) Failed d = call_error ecb (on_connection key sm_on_connect_failed d)"
| "complete_op created key (Async_write req cb ecb) (Succeeded _) d = (call_void key cb (on_connection key sm_on_write d), [])"
| "complete_op created key (Async_write req cb ecb) Failed d = call_error ecb (on_connection key sm_on_write_error d)"
| "complete_op created key (Async_read cb ecb) (Succeeded body) d = call_response created cb body (on_connection key sm_on_read d)"
| "complete_op created key (Async_read cb ecb) Failed d = call_error ecb (on_connection key sm_on_read_error d)"

text \<open>An event: the first posted handler, or the completion of the \<open>i\<close>-th operation of a connection.\<close>

datatype loop_event = Run_posted | Complete http_connection_key nat io_result

fun loop_step ::
  "http_response_message \<Rightarrow> loop_event \<Rightarrow> http_dispatcher \<Rightarrow> (http_dispatcher \<times> dispatcher_out list) cxx"
where
  "loop_step created Run_posted d =
     (case posted d of
        [] \<Rightarrow> Ok (d, [])
      | msg # rest \<Rightarrow> and_then (dispatcher_handler msg (d\<lparr>posted := rest\<rparr>)) (\<lambda>d'. Ok (d', [])))"
| "loop_step created (Complete key i result) d =
     (case umap_find (http_connection_pool d) key of
        None \<Rightarrow> Ok (d, [])
      | Some c \<Rightarrow>
          (if i < length (in_flight c)
           then Ok (complete_op created key (in_flight c ! i) result (on_connection key (finish_op i) d))
           else Ok (d, [])))"

fun loop_run ::
  "http_response_message \<Rightarrow> loop_event list \<Rightarrow> http_dispatcher \<Rightarrow> (http_dispatcher \<times> dispatcher_out list) cxx"
where
  "loop_run created [] d = Ok (d, [])"
| "loop_run created (ev # evs) d =
     and_then (loop_step created ev d) (\<lambda>(d', out).
       and_then (loop_run created evs d') (\<lambda>(d'', out'). Ok (d'', out @ out')))"

section \<open>The life of one request\<close>

definition addressed_to :: "http_request_message \<Rightarrow> http_connection_key \<Rightarrow> bool" where
  "addressed_to msg key \<longleftrightarrow>
     get_field string_alt msg ''load_balancing'' ''endpoint_host'' = Ok (fst (snd key)) \<and>
     get_field string_alt msg ''load_balancing'' ''endpoint_port'' = Ok (snd (snd key)) \<and> fst key = False"

lemma on_connection_find:
  "umap_find (http_connection_pool (on_connection key f d)) key' =
     (if key' = key then map_option f (umap_find (http_connection_pool d) key) else umap_find (http_connection_pool d) key')"
  by (auto simp: on_connection_def um.find_assign split: option.splits)

lemma on_connection_other [simp]:
  "requests_constructed (on_connection key f d) = requests_constructed d"
  "live_requests (on_connection key f d) = live_requests d"
  "posted (on_connection key f d) = posted d"
  by (simp_all add: on_connection_def split: option.splits)

lemmas dispatcher_calls =
  dispatcher_handler_def perform_request_def request_from_message_def free_request_def create_dropped_message_def

text \<open>Everything one request does, on a dispatcher that has no connection to its end point yet.\<close>

definition fresh_for :: "http_dispatcher \<Rightarrow> http_connection_key \<Rightarrow> bool" where
  "fresh_for d key \<longleftrightarrow> umap_find (http_connection_pool d) key = None \<and> posted d = [] \<and>
     (\<forall>r \<in> set (live_requests d). r < requests_constructed d)"

definition at :: "http_dispatcher \<Rightarrow> http_connection_key \<Rightarrow> http_connection \<Rightarrow> nat list \<Rightarrow> nat \<Rightarrow> bool" where
  "at d key c live n \<longleftrightarrow> umap_find (http_connection_pool d) key = Some c \<and> live_requests d = live \<and>
     requests_constructed d = n \<and> posted d = []"

lemma step_posted:
  assumes "addressed_to msg key" and "fresh_for d key"
  shows "\<exists>d'. loop_step created Run_posted (dispatcher_on_message msg d) = Ok (d', []) \<and>
    at d' key (new_connection\<lparr>current_state := resolving, in_flight := [Async_resolve (Then_connect msg) (Drop_request msg)]\<rparr>)
      (live_requests d) (requests_constructed d)"
proof -
  obtain host port where key: "key = (False, host, port)" using assms(1) by (cases key) (auto simp: addressed_to_def)
  show ?thesis
    using assms by (simp add: key addressed_to_def fresh_for_def dispatcher_on_message_def dispatcher_handler_def at_def
        Let_def on_connection_find um.find_emplace sm_resolve_def not_connected_resolve_def start_op_def enter_def new_connection_def)
qed

lemmas machine_all = machine_calls machine_events state_handlers start_op_def enter_def finish_op_def pop_write_def
  pop_read_def

lemma step_resolved:
  assumes "at d key (new_connection\<lparr>current_state := resolving, in_flight := [Async_resolve (Then_connect msg) (Drop_request msg)]\<rparr>) live n"
  shows "\<exists>d'. loop_step created (Complete key 0 (Succeeded a)) d = Ok (d', []) \<and>
      at d' key (new_connection\<lparr>current_state := connecting, in_flight := [Async_connect (Then_perform msg) (Drop_request msg)]\<rparr>) live n"
    and "\<exists>d'. loop_step created (Complete key 0 Failed) d = Ok (d', [Dropped_requests_out msg]) \<and>
      at d' key (new_connection\<lparr>current_state := error_state\<rparr>) live n"
  using assms by (simp_all add: at_def on_connection_find machine_all new_connection_def create_dropped_message_def)

lemma step_connected:
  assumes "at d key (new_connection\<lparr>current_state := connecting, in_flight := [Async_connect (Then_perform msg) (Drop_request msg)]\<rparr>) live n"
  shows "\<exists>d'. loop_step created (Complete key 0 (Succeeded a)) d = Ok (d', []) \<and>
      at d' key (new_connection\<lparr>current_state := writing, in_flight := [Async_write n (Then_read n msg) (Free_and_drop n msg)]\<rparr>)
        (live @ [n]) (Suc n)"
    and "\<exists>d'. loop_step created (Complete key 0 Failed) d = Ok (d', [Dropped_requests_out msg]) \<and>
      at d' key new_connection live n"
  using assms by (simp_all add: at_def on_connection_find machine_all new_connection_def dispatcher_calls)

lemma step_written:
  assumes "at d key (new_connection\<lparr>current_state := writing, in_flight := [Async_write n (Then_read n msg) (Free_and_drop n msg)]\<rparr>)
      (live @ [n]) m" and "n \<notin> set live"
  shows "\<exists>d'. loop_step created (Complete key 0 (Succeeded a)) d = Ok (d', []) \<and>
      at d' key (new_connection\<lparr>current_state := reading, in_flight := [Async_read (Relay_response n msg) (Free_and_drop n msg)]\<rparr>)
        (live @ [n]) m"
    and "\<exists>d'. loop_step created (Complete key 0 Failed) d = Ok (d', [Dropped_requests_out msg]) \<and>
      at d' key (new_connection\<lparr>current_state := resolved\<rparr>) live m"
  using assms filter_id_conv [of "\<lambda>r. r \<noteq> n" live]
  by (auto simp: at_def on_connection_find machine_all new_connection_def dispatcher_calls)

lemma step_answered:
  assumes "at d key (new_connection\<lparr>current_state := reading, in_flight := [Async_read (Relay_response n msg) (Free_and_drop n msg)]\<rparr>)
      (live @ [n]) m" and "n \<notin> set live"
  shows "\<exists>d'. loop_step created (Complete key 0 (Succeeded body)) d =
        Ok (d', [Http_response_out (created\<lparr>response_body := body, return_code := 200, request_message := msg\<rparr>)]) \<and>
      at d' key (new_connection\<lparr>current_state := connected\<rparr>) live m"
    and "\<exists>d'. loop_step created (Complete key 0 Failed) d = Ok (d', [Dropped_requests_out msg]) \<and>
      at d' key (new_connection\<lparr>current_state := resolved\<rparr>) live m"
  using assms filter_id_conv [of "\<lambda>r. r \<noteq> n" live]
  by (auto simp: at_def on_connection_find machine_all new_connection_def dispatcher_calls)

lemma loop_run_step:
  "loop_step created ev d = Ok (d', out) \<Longrightarrow> loop_run created evs d' = Ok (d'', out') \<Longrightarrow>
   loop_run created (ev # evs) d = Ok (d'', out @ out')"
  by simp

lemma lifecycle_steps:
  assumes "addressed_to msg key" and "fresh_for d key"
  obtains d1 d2 d3 d4 d5 where
    "loop_step created Run_posted (dispatcher_on_message msg d) = Ok (d1, [])"
    "loop_step created (Complete key 0 (Succeeded body)) d1 = Ok (d2, [])"
    "loop_step created (Complete key 0 (Succeeded body)) d2 = Ok (d3, [])"
    "loop_step created (Complete key 0 (Succeeded body)) d3 = Ok (d4, [])"
    "loop_step created (Complete key 0 (Succeeded body)) d4 =
        Ok (d5, [Http_response_out (created\<lparr>response_body := body, return_code := 200, request_message := msg\<rparr>)])"
    "at d5 key (new_connection\<lparr>current_state := connected\<rparr>) (live_requests d) (Suc (requests_constructed d))"
    "\<forall>d' \<in> {d1, d2, d3, d4}. \<exists>d''. loop_step created (Complete key 0 Failed) d' =
        Ok (d'', [Dropped_requests_out msg]) \<and> live_requests d'' = live_requests d"
proof -
  let ?n = "requests_constructed d"
  have n: "?n \<notin> set (live_requests d)" using assms(2) by (auto simp: fresh_for_def)
  obtain d1 where d1: "loop_step created Run_posted (dispatcher_on_message msg d) = Ok (d1, [])"
    and at1: "at d1 key (new_connection\<lparr>current_state := resolving, in_flight := [Async_resolve (Then_connect msg) (Drop_request msg)]\<rparr>)
      (live_requests d) ?n"
    using step_posted [OF assms] by blast
  obtain d2 where d2: "loop_step created (Complete key 0 (Succeeded body)) d1 = Ok (d2, [])"
    and at2: "at d2 key (new_connection\<lparr>current_state := connecting, in_flight := [Async_connect (Then_perform msg) (Drop_request msg)]\<rparr>)
      (live_requests d) ?n"
    using step_resolved(1) [OF at1] by blast
  obtain d3 where d3: "loop_step created (Complete key 0 (Succeeded body)) d2 = Ok (d3, [])"
    and at3: "at d3 key (new_connection\<lparr>current_state := writing, in_flight := [Async_write ?n (Then_read ?n msg) (Free_and_drop ?n msg)]\<rparr>)
      (live_requests d @ [?n]) (Suc ?n)"
    using step_connected(1) [OF at2] by blast
  obtain d4 where d4: "loop_step created (Complete key 0 (Succeeded body)) d3 = Ok (d4, [])"
    and at4: "at d4 key (new_connection\<lparr>current_state := reading, in_flight := [Async_read (Relay_response ?n msg) (Free_and_drop ?n msg)]\<rparr>)
      (live_requests d @ [?n]) (Suc ?n)"
    using step_written(1) [OF at3 n] by blast
  have failing: "\<exists>d''. loop_step created (Complete key 0 Failed) d' = Ok (d'', [Dropped_requests_out msg]) \<and>
      live_requests d'' = live_requests d" if "d' \<in> {d1, d2, d3, d4}" for d'
    using that step_resolved(2) [OF at1, of created] step_connected(2) [OF at2, of created]
      step_written(2) [OF at3 n, of created] step_answered(2) [OF at4 n, of created]
    unfolding at_def by blast
  show thesis using step_answered(1) [OF at4 n, of created body] that [OF d1 d2 d3 d4] failing by blast
qed

lemma lifecycle_success:
  assumes "addressed_to msg key" and "fresh_for d key"
  shows "\<exists>d'. loop_run created (Run_posted # replicate 4 (Complete key 0 (Succeeded body))) (dispatcher_on_message msg d) =
    Ok (d', [Http_response_out (created\<lparr>response_body := body, return_code := 200, request_message := msg\<rparr>)])"
  by (rule lifecycle_steps [OF assms, of created body])
    (simp add: eval_nat_numeral and_then_Ok_iff del: loop_step.simps)

text \<open>
  C11: One request to a new end point is answered exactly once. If resolving, connecting, writing and reading
  succeed, one response goes out, with the body that was read, the code 200 and the request itself, and the
  connection is ready for more; if any one of the four steps fails, the request goes to
  \<open>dropped_requests_out\<close>. Either way the request object is back in its pool.
\<close>

theorem request_lifecycle:
  fixes body :: string
  assumes "addressed_to msg key" and "fresh_for d key" and "k < 4"
  defines "success \<equiv> Complete key 0 (Succeeded body)"
  shows "(\<exists>d'. loop_run created (Run_posted # replicate 4 success) (dispatcher_on_message msg d) =
        Ok (d', [Http_response_out (created\<lparr>response_body := body, return_code := 200, request_message := msg\<rparr>)]) \<and>
      live_requests d' = live_requests d \<and>
      umap_find (http_connection_pool d') key = Some (new_connection\<lparr>current_state := connected\<rparr>)) \<and>
    (\<exists>d'. loop_run created (Run_posted # replicate k success @ [Complete key 0 Failed]) (dispatcher_on_message msg d) =
        Ok (d', [Dropped_requests_out msg]) \<and> live_requests d' = live_requests d)"
proof -
  obtain d1 d2 d3 d4 d5 where steps:
    "loop_step created Run_posted (dispatcher_on_message msg d) = Ok (d1, [])"
    "loop_step created success d1 = Ok (d2, [])" "loop_step created success d2 = Ok (d3, [])"
    "loop_step created success d3 = Ok (d4, [])"
    "loop_step created success d4 =
        Ok (d5, [Http_response_out (created\<lparr>response_body := body, return_code := 200, request_message := msg\<rparr>)])"
    and last: "at d5 key (new_connection\<lparr>current_state := connected\<rparr>) (live_requests d) (Suc (requests_constructed d))"
    and failing: "\<forall>d' \<in> {d1, d2, d3, d4}. \<exists>d''. loop_step created (Complete key 0 Failed) d' =
        Ok (d'', [Dropped_requests_out msg]) \<and> live_requests d'' = live_requests d"
    by (rule lifecycle_steps [OF assms(1,2), of created body, folded success_def]) (rule that; assumption)
  have four: "replicate 4 success = [success, success, success, success]" by (simp add: eval_nat_numeral)
  have "k = 0 \<or> k = 1 \<or> k = 2 \<or> k = 3" using assms(3) by auto
  then have "\<exists>d'. loop_run created (Run_posted # replicate k success @ [Complete key 0 Failed]) (dispatcher_on_message msg d) =
        Ok (d', [Dropped_requests_out msg]) \<and> live_requests d' = live_requests d"
    using failing steps
    by (elim disjE) (auto simp: numeral_2_eq_2 numeral_3_eq_3 simp del: loop_step.simps)
  then show ?thesis
    using steps last unfolding four by (auto simp: at_def simp del: loop_step.simps)
qed

definition example_dispatch :: http_request_message where
  "example_dispatch = set_field string_alt ''load_balancing'' ''endpoint_port'' ''80''
     (set_field string_alt ''load_balancing'' ''endpoint_host'' ''h''
       \<lparr>field_values = [], typed_field_groups = [], request_body = []\<rparr>)"

lemma example_addressed: "addressed_to example_dispatch (False, ''h'', ''80'')"
proof -
  have "get_field string_alt example_dispatch ''load_balancing'' ''endpoint_host'' = Ok ''h''"
    unfolding example_dispatch_def by (rule get_field_set_Ok_iff [THEN iffD2]) simp_all
  then show ?thesis by (simp add: addressed_to_def example_dispatch_def)
qed

definition example_response :: http_response_message where
  "example_response = \<lparr>field_values = [], typed_field_groups = [], return_code = 0, response_body = [],
     request_message = example_dispatch\<rparr>"

theorem request_lifecycle_witness:
  "\<exists>d'. loop_run example_response (Run_posted # replicate 2 (Complete (False, ''h'', ''80'') 0 (Succeeded ''b'')) @
       [Complete (False, ''h'', ''80'') 0 Failed]) (dispatcher_on_message example_dispatch new_http_dispatcher) =
     Ok (d', [Dropped_requests_out example_dispatch]) \<and> live_requests d' = []"
proof -
  have "fresh_for new_http_dispatcher (False, ''h'', ''80'')" "live_requests new_http_dispatcher = []"
    by (simp_all add: fresh_for_def new_http_dispatcher_def)
  then show ?thesis
    using request_lifecycle [OF example_addressed, of new_http_dispatcher 2 example_response "''b''"] by simp
qed

end
