(* ===== verification/Dispatcher_Accounting.thy ===== *)
theory Dispatcher_Accounting
  imports Http_Dispatcher "HOL-Library.Multiset"
begin

text \<open>
  What the dispatcher of \<open>Http_Dispatcher\<close> owes: the jobs a connection still has, in its operations in
  flight and in its queues, and how every handler and every completion changes them. From the accounts
  follow that no request is answered more often than it was submitted, under any interleaving and any
  stream errors, and that the event loop comes to rest after a bounded number of events.
\<close>

section \<open>The jobs of a connection\<close>

text \<open>
  A job is what a callback stands for, given by a function on each kind of callback. The front entry of
  a queue is not counted: it is either in flight already, or will be removed before it is sent.
\<close>

fun op_job :: "('cb \<Rightarrow> 'j) \<Rightarrow> ('rd \<Rightarrow> 'j) \<Rightarrow> ('req, 'cb, 'rd, 'ecb) async_op \<Rightarrow> 'j" where
  "op_job jv jr (Async_resolve cb ecb) = jv cb"
| "op_job jv jr (Async_connect cb ecb) = jv cb"
| "op_job jv jr (Async_write req cb ecb) = jv cb"
| "op_job jv jr (Async_read cb ecb) = jr cb"

definition connection_jobs :: "('cb \<Rightarrow> 'j) \<Rightarrow> ('rd \<Rightarrow> 'j) \<Rightarrow> ('req, 'cb, 'rd, 'ecb) connection \<Rightarrow> 'j multiset" where
  "connection_jobs jv jr c =
     image_mset (op_job jv jr) (mset (in_flight c)) +
     image_mset (\<lambda>(req, cb, ecb). jv cb) (mset (tl (write_queue c))) +
     image_mset (\<lambda>(cb, ecb). jr cb) (mset (tl (read_queue c)))"

lemma connection_jobs_new [simp]: "connection_jobs jv jr new_connection = {#}"
  by (simp add: connection_jobs_def new_connection_def)

lemma connection_jobs_state [simp]: "connection_jobs jv jr (c\<lparr>current_state := s\<rparr>) = connection_jobs jv jr c"
  by (simp add: connection_jobs_def)

lemma connection_jobs_start:
  "connection_jobs jv jr (start_op op c) = add_mset (op_job jv jr op) (connection_jobs jv jr c)"
  by (simp add: connection_jobs_def start_op_def)

text \<open>Popping a queue drops at most a job; starting the new front moves its job from the queue into flight.\<close>

lemma jobs_pop_write: "connection_jobs jv jr (pop_write c) \<subseteq># connection_jobs jv jr c"
  by (cases "write_queue c"; cases "tl (write_queue c)") (auto simp: connection_jobs_def pop_write_def)

lemma jobs_pop_read: "connection_jobs jv jr (pop_read c) \<subseteq># connection_jobs jv jr c"
  by (cases "read_queue c"; cases "tl (read_queue c)") (auto simp: connection_jobs_def pop_read_def)

lemma jobs_restart_write:
  "write_queue (pop_write c) = (req, cb, ecb) # ws \<Longrightarrow>
   connection_jobs jv jr (start_op (Async_write req cb ecb) (pop_write c)) = connection_jobs jv jr c"
  by (cases "write_queue c") (auto simp: connection_jobs_def pop_write_def start_op_def)

lemma jobs_restart_read:
  "read_queue (pop_read c) = (cb, ecb) # rs \<Longrightarrow>
   connection_jobs jv jr (start_op (Async_read cb ecb) (pop_read c)) = connection_jobs jv jr c"
  by (cases "read_queue c") (auto simp: connection_jobs_def pop_read_def start_op_def)

lemma jobs_enqueue_write:
  "connection_jobs jv jr (c\<lparr>write_queue := write_queue c @ [(req, cb, ecb)]\<rparr>) \<subseteq># add_mset (jv cb) (connection_jobs jv jr c)"
  by (cases "write_queue c") (auto simp: connection_jobs_def)

lemma jobs_enqueue_read:
  "connection_jobs jv jr (c\<lparr>read_queue := read_queue c @ [(cb, ecb)]\<rparr>) \<subseteq># add_mset (jr cb) (connection_jobs jv jr c)"
  by (cases "read_queue c") (auto simp: connection_jobs_def)

text \<open>A call adds at most the job of its callback, an event adds none.\<close>

lemma jobs_of_calls:
  "connection_jobs jv jr (sm_resolve cb ecb c) \<subseteq># add_mset (jv cb) (connection_jobs jv jr c)"
  "connection_jobs jv jr (sm_connect cb ecb c) \<subseteq># add_mset (jv cb) (connection_jobs jv jr c)"
  "connection_jobs jv jr (sm_write req cb ecb c) \<subseteq># add_mset (jv cb) (connection_jobs jv jr c)"
  "connection_jobs jv jr (sm_read rd ecb c) \<subseteq># add_mset (jr rd) (connection_jobs jv jr c)"
  by (auto simp: machine_calls state_handlers enter_def connection_jobs_start jobs_enqueue_write jobs_enqueue_read
      split: STATE_ID.splits)

lemma jobs_of_events:
  "connection_jobs jv jr (sm_on_resolve c) \<subseteq># connection_jobs jv jr c"
  "connection_jobs jv jr (sm_on_resolve_failed c) \<subseteq># connection_jobs jv jr c"
  "connection_jobs jv jr (sm_on_connect c) \<subseteq># connection_jobs jv jr c"
  "connection_jobs jv jr (sm_on_connect_failed c) \<subseteq># connection_jobs jv jr c"
  "connection_jobs jv jr (sm_on_write c) \<subseteq># connection_jobs jv jr c"
  "connection_jobs jv jr (sm_on_write_error c) \<subseteq># connection_jobs jv jr c"
  "connection_jobs jv jr (sm_on_read c) \<subseteq># connection_jobs jv jr c"
  "connection_jobs jv jr (sm_on_read_error c) \<subseteq># connection_jobs jv jr c"
  by (auto simp: machine_events state_handlers enter_def Let_def jobs_restart_write jobs_restart_read jobs_pop_write
      jobs_pop_read split: STATE_ID.splits list.splits)

lemma jobs_finish_op:
  assumes "i < length (in_flight c)"
  shows "connection_jobs jv jr c = add_mset (op_job jv jr (in_flight c ! i)) (connection_jobs jv jr (finish_op i c))"
proof -
  have "mset (in_flight c) = add_mset (in_flight c ! i) (mset (take i (in_flight c) @ drop (Suc i) (in_flight c)))"
    using id_take_nth_drop [OF assms] by (metis mset.simps(2) mset_append union_mset_add_mset_right)
  then show ?thesis by (simp add: connection_jobs_def finish_op_def)
qed

text \<open>A property of all operations, started or waiting, is kept if the calls respect it.\<close>

definition all_operations :: "(('req, 'cb, 'rd, 'ecb) async_op \<Rightarrow> bool) \<Rightarrow> ('req, 'cb, 'rd, 'ecb) connection \<Rightarrow> bool" where
  "all_operations P c \<longleftrightarrow> list_all P (in_flight c) \<and>
     list_all (\<lambda>(req, cb, ecb). P (Async_write req cb ecb)) (write_queue c) \<and>
     list_all (\<lambda>(cb, ecb). P (Async_read cb ecb)) (read_queue c)"

lemma all_operations_new [simp]: "all_operations P new_connection"
  by (simp add: all_operations_def new_connection_def)

lemma all_operations_calls:
  "P (Async_resolve cb ecb) \<Longrightarrow> all_operations P c \<Longrightarrow> all_operations P (sm_resolve cb ecb c)"
  "P (Async_connect cb ecb) \<Longrightarrow> all_operations P c \<Longrightarrow> all_operations P (sm_connect cb ecb c)"
  "P (Async_write req cb ecb) \<Longrightarrow> all_operations P c \<Longrightarrow> all_operations P (sm_write req cb ecb c)"
  "P (Async_read rd ecb) \<Longrightarrow> all_operations P c \<Longrightarrow> all_operations P (sm_read rd ecb c)"
  by (auto simp: all_operations_def machine_calls state_handlers enter_def start_op_def split: STATE_ID.splits)

lemma all_operations_pop:
  "all_operations P c \<Longrightarrow> all_operations P (pop_write c)" "all_operations P c \<Longrightarrow> all_operations P (pop_read c)"
  by (auto simp: all_operations_def pop_write_def pop_read_def list_all_iff dest: list.set_sel(2))

lemma all_operations_restart:
  "write_queue c = (req, cb, ecb) # ws \<Longrightarrow> all_operations P c \<Longrightarrow> all_operations P (start_op (Async_write req cb ecb) c)"
  "read_queue c = (rd, ecb) # rs \<Longrightarrow> all_operations P c \<Longrightarrow> all_operations P (start_op (Async_read rd ecb) c)"
  by (auto simp: all_operations_def start_op_def)

lemma all_operations_state [simp]: "all_operations P (c\<lparr>current_state := s\<rparr>) = all_operations P c"
  by (simp add: all_operations_def)

lemma all_operations_events:
  assumes "all_operations P c"
  shows "all_operations P (sm_on_resolve c)" "all_operations P (sm_on_resolve_failed c)"
    "all_operations P (sm_on_connect c)" "all_operations P (sm_on_connect_failed c)"
    "all_operations P (sm_on_write c)" "all_operations P (sm_on_write_error c)"
    "all_operations P (sm_on_read c)" "all_operations P (sm_on_read_error c)"
  using assms all_operations_pop [of P c]
  by (auto simp: machine_events state_handlers enter_def Let_def all_operations_restart
      split: STATE_ID.splits list.splits)

lemma all_operations_finish: "all_operations P c \<Longrightarrow> all_operations P (finish_op i c)"
  by (auto simp: all_operations_def finish_op_def list_all_iff dest: in_set_takeD in_set_dropD)

section \<open>The jobs of a dispatcher\<close>

definition dispatcher_jobs ::
  "(http_request_message \<Rightarrow> 'j) \<Rightarrow> (void_callback \<Rightarrow> 'j) \<Rightarrow> (response_callback \<Rightarrow> 'j) \<Rightarrow> http_dispatcher \<Rightarrow> 'j multiset"
where
  "dispatcher_jobs jp jv jr d = image_mset jp (mset (posted d)) +
     (\<Sum>(key, c) \<leftarrow> http_connection_pool d. connection_jobs jv jr c)"

lemma sum_list_assign:
  fixes F :: "'v \<Rightarrow> 'a :: comm_monoid_add"
  shows "umap_find m k = Some v \<Longrightarrow>
    (\<Sum>(k, v) \<leftarrow> umap_insert_or_assign k w m. F v) + F v = (\<Sum>(k, v) \<leftarrow> m. F v) + F w"
  by (induction m) (auto simp: umap_insert_or_assign_def umap_find_def ac_simps split: if_splits)

lemma jobs_on_connection:
  assumes "\<And>c. umap_find (http_connection_pool d) key = Some c \<Longrightarrow> connection_jobs jv jr (f c) \<subseteq># connection_jobs jv jr c + X"
  shows "dispatcher_jobs jp jv jr (on_connection key f d) \<subseteq># dispatcher_jobs jp jv jr d + X"
proof (cases "umap_find (http_connection_pool d) key")
  case None
  then show ?thesis by (simp add: on_connection_def)
next
  case (Some c)
  have "dispatcher_jobs jp jv jr (on_connection key f d) + connection_jobs jv jr c =
      dispatcher_jobs jp jv jr d + connection_jobs jv jr (f c)"
    using sum_list_assign [OF Some, of "connection_jobs jv jr" "f c"]
    by (simp add: dispatcher_jobs_def on_connection_def Some ac_simps)
  also have "\<dots> \<subseteq># dispatcher_jobs jp jv jr d + (connection_jobs jv jr c + X)"
    using assms [OF Some] by (rule subset_mset.add_left_mono)
  finally have "dispatcher_jobs jp jv jr (on_connection key f d) + connection_jobs jv jr c \<subseteq>#
      (dispatcher_jobs jp jv jr d + X) + connection_jobs jv jr c" by (simp add: ac_simps)
  then show ?thesis by simp
qed

lemma jobs_finish:
  assumes "umap_find (http_connection_pool d) key = Some c" and "i < length (in_flight c)"
  shows "dispatcher_jobs jp jv jr d =
    add_mset (op_job jv jr (in_flight c ! i)) (dispatcher_jobs jp jv jr (on_connection key (finish_op i) d))"
proof -
  have "dispatcher_jobs jp jv jr (on_connection key (finish_op i) d) + connection_jobs jv jr c =
      dispatcher_jobs jp jv jr d + connection_jobs jv jr (finish_op i c)"
    using sum_list_assign [OF assms(1), of "connection_jobs jv jr" "finish_op i c"]
    by (simp add: dispatcher_jobs_def on_connection_def assms(1) ac_simps)
  then show ?thesis by (simp add: jobs_finish_op [OF assms(2)])
qed

lemma jobs_other [simp]:
  "dispatcher_jobs jp jv jr (d\<lparr>requests_constructed := n\<rparr>) = dispatcher_jobs jp jv jr d"
  "dispatcher_jobs jp jv jr (d\<lparr>live_requests := l\<rparr>) = dispatcher_jobs jp jv jr d"
  "dispatcher_jobs jp jv jr (free_request r d) = dispatcher_jobs jp jv jr d"
  by (simp_all add: dispatcher_jobs_def free_request_def)

text \<open>What a void callback leaves to be done, for a request object numbered \<open>r\<close>.\<close>

fun next_job :: "(void_callback \<Rightarrow> 'j) \<Rightarrow> (response_callback \<Rightarrow> 'j) \<Rightarrow> nat \<Rightarrow> void_callback \<Rightarrow> 'j" where
  "next_job jv jr r (Then_connect msg) = jv (Then_perform msg)"
| "next_job jv jr r (Then_perform msg) = jv (Then_read r msg)"
| "next_job jv jr r (Then_read req msg) = jr (Relay_response req msg)"

lemmas jobs_call = jobs_on_connection [where X = "{#_#}", simplified]

lemmas jobs_event = jobs_on_connection [where X = "{#}", simplified]

lemma jobs_perform:
  "dispatcher_jobs jp jv jr (perform_request key msg d) \<subseteq>#
     add_mset (jv (Then_read (requests_constructed d) msg)) (dispatcher_jobs jp jv jr d)"
  unfolding perform_request_def request_from_message_def Let_def prod.case
  by (rule subset_mset.order_trans [OF jobs_call]) (simp_all add: jobs_of_calls)

lemma jobs_call_void:
  "dispatcher_jobs jp jv jr (call_void key cb d) \<subseteq>#
     add_mset (next_job jv jr (requests_constructed d) cb) (dispatcher_jobs jp jv jr d)"
  by (cases cb) (simp_all add: jobs_perform jobs_call jobs_of_calls)

lemma jobs_call_response: "dispatcher_jobs jp jv jr (fst (call_response created rd body d)) = dispatcher_jobs jp jv jr d"
  by (cases rd) simp

lemma jobs_call_error: "dispatcher_jobs jp jv jr (fst (call_error ecb d)) = dispatcher_jobs jp jv jr d"
  by (cases ecb) simp_all

text \<open>The job that follows the successful completion of an operation, if any.\<close>

fun following :: "(void_callback \<Rightarrow> 'j) \<Rightarrow> (response_callback \<Rightarrow> 'j) \<Rightarrow> nat \<Rightarrow> io_result
    \<Rightarrow> (nat, void_callback, response_callback, error_callback) async_op \<Rightarrow> 'j multiset" where
  "following jv jr r Failed op = {#}"
| "following jv jr r (Succeeded body) (Async_read rd ecb) = {#}"
| "following jv jr r (Succeeded body) (Async_resolve cb ecb) = {#next_job jv jr r cb#}"
| "following jv jr r (Succeeded body) (Async_connect cb ecb) = {#next_job jv jr r cb#}"
| "following jv jr r (Succeeded body) (Async_write req cb ecb) = {#next_job jv jr r cb#}"

lemma jobs_void_after_event:
  assumes "\<And>c. connection_jobs jv jr (f c) \<subseteq># connection_jobs jv jr c"
  shows "dispatcher_jobs jp jv jr (call_void key cb (on_connection key f d)) \<subseteq>#
    add_mset (next_job jv jr (requests_constructed d) cb) (dispatcher_jobs jp jv jr d)"
proof -
  have "dispatcher_jobs jp jv jr (call_void key cb (on_connection key f d)) \<subseteq>#
      add_mset (next_job jv jr (requests_constructed d) cb) (dispatcher_jobs jp jv jr (on_connection key f d))"
    using jobs_call_void [of jp jv jr key cb "on_connection key f d"] by simp
  also have "\<dots> \<subseteq># add_mset (next_job jv jr (requests_constructed d) cb) (dispatcher_jobs jp jv jr d)"
    using jobs_event [of d key jv jr f jp] assms by simp
  finally show ?thesis .
qed

lemma jobs_complete:
  "dispatcher_jobs jp jv jr (fst (complete_op created key op r d)) \<subseteq>#
     dispatcher_jobs jp jv jr d + following jv jr (requests_constructed d) r op"
  by (cases op; cases r)
    (simp_all add: jobs_void_after_event jobs_of_events jobs_call_response jobs_call_error jobs_event)

text \<open>What the posted handler does once the end point is read from the message.\<close>

definition dispatch_to :: "http_connection_key \<Rightarrow> http_request_message \<Rightarrow> http_dispatcher \<Rightarrow> http_dispatcher" where
  "dispatch_to key msg d =
     (case umap_find (http_connection_pool d) key of
        None \<Rightarrow> on_connection key (sm_resolve (Then_connect msg) (Drop_request msg))
          (d\<lparr>http_connection_pool := fst (umap_try_emplace key new_connection (http_connection_pool d))\<rparr>)
      | Some c \<Rightarrow>
          (if current_state c \<in> {writing_and_reading, reading, writing, connected} then perform_request key msg d
           else if current_state c = resolved then on_connection key (sm_connect (Then_perform msg) (Drop_request msg)) d
           else d))"

lemma dispatcher_handler_Ok:
  assumes "dispatcher_handler msg d = Ok d'"
  obtains key where "addressed_to msg key" and "d' = dispatch_to key msg d"
proof -
  obtain host port where "get_field string_alt msg ''load_balancing'' ''endpoint_host'' = Ok host"
    "get_field string_alt msg ''load_balancing'' ''endpoint_port'' = Ok port"
    using assms by (auto simp: dispatcher_handler_def and_then_Ok_iff)
  then have "addressed_to msg (False, host, port)" "d' = dispatch_to (False, host, port) msg d"
    using assms by (auto simp: addressed_to_def dispatcher_handler_def dispatch_to_def Let_def split: option.splits if_splits)
  then show thesis by (rule that)
qed

text \<open>The job of a request whose posted handler has run.\<close>

lemma jobs_dispatch:
  "\<exists>j \<in> {jv (Then_connect msg), jv (Then_perform msg), jv (Then_read (requests_constructed d) msg)}.
     dispatcher_jobs jp jv jr (dispatch_to key msg d) \<subseteq># add_mset j (dispatcher_jobs jp jv jr d)"
proof (cases "umap_find (http_connection_pool d) key")
  case None
  define d0 where "d0 = d\<lparr>http_connection_pool := fst (umap_try_emplace key new_connection (http_connection_pool d))\<rparr>"
  have "dispatcher_jobs jp jv jr d0 = dispatcher_jobs jp jv jr d"
    by (simp add: d0_def dispatcher_jobs_def umap_emplace_new [OF None])
  moreover have "dispatcher_jobs jp jv jr (dispatch_to key msg d) \<subseteq># add_mset (jv (Then_connect msg)) (dispatcher_jobs jp jv jr d0)"
    unfolding dispatch_to_def None option.case d0_def [symmetric] by (rule jobs_call) (simp add: jobs_of_calls)
  ultimately show ?thesis by simp
next
  case (Some c)
  then show ?thesis by (simp add: dispatch_to_def jobs_perform jobs_call jobs_of_calls)
qed

section \<open>The event loop comes to rest\<close>

text \<open>
  The work of a dispatcher: five events for a posted request (its handler, and the completions of resolving,
  connecting, writing and reading), and for every operation those that are left.
\<close>

fun void_work :: "void_callback \<Rightarrow> nat" where
  "void_work (Then_connect msg) = 4"
| "void_work (Then_perform msg) = 3"
| "void_work (Then_read req msg) = 2"

definition work :: "http_dispatcher \<Rightarrow> nat" where
  "work d = \<Sum>\<^sub># (dispatcher_jobs (\<lambda>msg. 5) void_work (\<lambda>rd. 1) d)"

definition enabled :: "loop_event \<Rightarrow> http_dispatcher \<Rightarrow> bool" where
  "enabled ev d = (case ev of
       Run_posted \<Rightarrow> posted d \<noteq> []
     | Complete key i result \<Rightarrow>
         (case umap_find (http_connection_pool d) key of None \<Rightarrow> False | Some c \<Rightarrow> i < length (in_flight c)))"

definition at_rest :: "http_dispatcher \<Rightarrow> bool" where
  "at_rest d \<longleftrightarrow> posted d = [] \<and>
     list_all (\<lambda>key. map_option in_flight (umap_find (http_connection_pool d) key) = Some []) (map fst (http_connection_pool d))"

lemma sum_mset_subset: "A \<subseteq># B \<Longrightarrow> \<Sum>\<^sub># A \<le> \<Sum>\<^sub># (B :: nat multiset)"
  by (metis le_add1 subset_mset.add_diff_inverse sum_mset.union)

lemma void_work_next [simplified]: "next_job void_work (\<lambda>rd. 1) r cb < void_work cb"
  by (cases cb) simp_all

lemma void_work_pos: "0 < void_work cb"
  by (cases cb) simp_all

lemma work_complete:
  assumes "umap_find (http_connection_pool d) key = Some c" and "i < length (in_flight c)"
  shows "work (fst (complete_op created key (in_flight c ! i) result (on_connection key (finish_op i) d))) < work d"
proof -
  let ?op = "in_flight c ! i" and ?d = "on_connection key (finish_op i) d"
  have "\<Sum>\<^sub># (following void_work (\<lambda>rd. 1) (requests_constructed ?d) result ?op) < op_job void_work (\<lambda>rd. 1) ?op"
    by (cases ?op; cases result) (simp_all add: void_work_next void_work_pos)
  moreover have "work (fst (complete_op created key ?op result ?d)) \<le>
      work ?d + \<Sum>\<^sub># (following void_work (\<lambda>rd. 1) (requests_constructed ?d) result ?op)"
    unfolding work_def sum_mset.union [symmetric] by (rule sum_mset_subset [OF jobs_complete])
  moreover have "work d = op_job void_work (\<lambda>rd. 1) ?op + work ?d"
    by (simp add: work_def jobs_finish [OF assms])
  ultimately show ?thesis by linarith
qed

lemma work_dispatch:
  assumes "posted d = msg # rest"
  shows "work (dispatch_to key msg (d\<lparr>posted := rest\<rparr>)) < work d"
proof -
  obtain j where j: "j \<in> {void_work (Then_connect msg), void_work (Then_perform msg), void_work (Then_read (requests_constructed d) msg)}"
    and "dispatcher_jobs (\<lambda>msg. 5) void_work (\<lambda>rd. 1) (dispatch_to key msg (d\<lparr>posted := rest\<rparr>)) \<subseteq>#
      add_mset j (dispatcher_jobs (\<lambda>msg. 5) void_work (\<lambda>rd. 1) (d\<lparr>posted := rest\<rparr>))"
    using jobs_dispatch [of void_work msg "d\<lparr>posted := rest\<rparr>" "\<lambda>msg. 5" "\<lambda>rd. 1" key] by auto
  then have "work (dispatch_to key msg (d\<lparr>posted := rest\<rparr>)) \<le> j + work (d\<lparr>posted := rest\<rparr>)"
    unfolding work_def by (metis sum_mset.add_mset sum_mset_subset)
  moreover have "work d = 5 + work (d\<lparr>posted := rest\<rparr>)"
    by (simp add: work_def dispatcher_jobs_def assms)
  ultimately show ?thesis using j by auto
qed

text \<open>Every enabled event happens, unless a handler cannot read its end point, and uses up work.\<close>

definition all_addressed :: "http_dispatcher \<Rightarrow> bool" where
  "all_addressed d \<longleftrightarrow> (\<forall>msg \<in> set (posted d). \<exists>key. addressed_to msg key)"

lemma handler_addressed: "addressed_to msg key \<Longrightarrow> dispatcher_handler msg d = Ok (dispatch_to key msg d)"
  by (cases key) (auto simp: addressed_to_def dispatcher_handler_def dispatch_to_def Let_def split: option.splits)

lemma posted_perform [simp]: "posted (perform_request key msg d) = posted d"
  by (simp add: perform_request_def request_from_message_def)

lemma posted_dispatch [simp]: "posted (dispatch_to key msg d) = posted d"
  by (simp add: dispatch_to_def split: option.splits)

lemma posted_complete [simp]: "posted (fst (complete_op created key op r d)) = posted d"
proof -
  have "posted (call_void key cb d) = posted d" for cb d by (cases cb) simp_all
  moreover have "posted (fst (call_response created rd b d)) = posted d" for rd b d by (cases rd) (simp add: free_request_def)
  moreover have "posted (fst (call_error ecb d)) = posted d" for ecb d by (cases ecb) (simp_all add: free_request_def)
  ultimately show ?thesis by (cases op; cases r) simp_all
qed

lemma enabled_step:
  assumes "enabled ev d" and "all_addressed d"
  shows "\<exists>d' out. loop_step created ev d = Ok (d', out) \<and> work d' < work d \<and> all_addressed d'"
proof (cases ev)
  case Run_posted
  then obtain msg rest where posted: "posted d = msg # rest" using assms(1) by (cases "posted d") (auto simp: enabled_def)
  then obtain key where "addressed_to msg key" using assms(2) by (auto simp: all_addressed_def)
  then show ?thesis
    using assms(2) work_dispatch [OF posted] by (simp add: Run_posted posted handler_addressed all_addressed_def)
next
  case (Complete key i r)
  then obtain c where c: "umap_find (http_connection_pool d) key = Some c" "i < length (in_flight c)"
    using assms(1) by (auto simp: enabled_def split: option.splits)
  let ?dout = "complete_op created key (in_flight c ! i) r (on_connection key (finish_op i) d)"
  have "loop_step created ev d = Ok (fst ?dout, snd ?dout)" by (simp add: Complete c)
  moreover have "all_addressed (fst ?dout)" using assms(2) by (simp add: all_addressed_def)
  ultimately show ?thesis using work_complete [OF c] by blast
qed


lemma at_rest_or_enabled: "at_rest d \<or> (\<exists>ev. enabled ev d)"
proof (rule disjCI)
  assume none: "\<nexists>ev. enabled ev d"
  have "posted d = []" using none by (auto simp: enabled_def split: loop_event.splits)
  moreover have "in_flight c = []" if "umap_find (http_connection_pool d) key = Some c" for key c
  proof (rule ccontr)
    assume "in_flight c \<noteq> []"
    then have "enabled (Complete key 0 Failed) d" by (simp add: enabled_def that)
    then show False using none by blast
  qed
  ultimately show "at_rest d"
    by (force simp: at_rest_def list_all_iff umap_find_def weak_map_of_SomeI image_iff dest: weak_map_of_SomeI)
qed

fun all_enabled :: "http_response_message \<Rightarrow> loop_event list \<Rightarrow> http_dispatcher \<Rightarrow> bool" where
  "all_enabled created [] d = True"
| "all_enabled created (ev # evs) d =
     (enabled ev d \<and> (case loop_step created ev d of Ok (d', out) \<Rightarrow> all_enabled created evs d' | _ \<Rightarrow> True))"

lemma enabled_run:
  assumes "all_enabled created evs d" and "all_addressed d"
  shows "\<exists>d' out. loop_run created evs d = Ok (d', out) \<and> length evs + work d' \<le> work d \<and> all_addressed d'"
  using assms
proof (induction evs arbitrary: d)
  case (Cons ev evs)
  obtain d1 out1 where 1: "loop_step created ev d = Ok (d1, out1)" "work d1 < work d" "all_addressed d1"
    using enabled_step [of ev d created] Cons.prems by auto
  then obtain d2 out2 where "loop_run created evs d1 = Ok (d2, out2)" "length evs + work d2 \<le> work d1" "all_addressed d2"
    using Cons.IH [of d1] Cons.prems by auto
  then show ?case using 1 by (auto simp del: loop_step.simps)
qed simp

lemma run_to_rest:
  assumes "all_addressed d"
  shows "\<exists>evs d' out. all_enabled created evs d \<and> loop_run created evs d = Ok (d', out) \<and> at_rest d'"
  using assms
proof (induction "work d" arbitrary: d rule: less_induct)
  case less
  show ?case
  proof (cases "at_rest d")
    case True
    then have "all_enabled created [] d \<and> loop_run created [] d = Ok (d, []) \<and> at_rest d" by simp
    then show ?thesis by blast
  next
    case False
    then obtain ev where ev: "enabled ev d" using at_rest_or_enabled by blast
    then obtain d1 out1 where 1: "loop_step created ev d = Ok (d1, out1)" "work d1 < work d" "all_addressed d1"
      using enabled_step [of ev d created] less.prems by auto
    then obtain evs d2 out2 where "all_enabled created evs d1" "loop_run created evs d1 = Ok (d2, out2)" "at_rest d2"
      using less.hyps [of d1] by blast
    then have "all_enabled created (ev # evs) d \<and> loop_run created (ev # evs) d = Ok (d2, out1 @ out2) \<and> at_rest d2"
      using 1 ev by (simp del: loop_step.simps)
    then show ?thesis by blast
  qed
qed

lemma idle_jobs:
  "list_all (\<lambda>(key, c). in_flight c = [] \<and> write_queue c = [] \<and> read_queue c = []) pool \<Longrightarrow>
   (\<Sum>(key, c) \<leftarrow> pool. connection_jobs jv jr c) = {#}"
  by (induction pool) (auto simp: connection_jobs_def)

text \<open>
  C10: The event loop of the dispatcher always comes to rest. Take any dispatcher whose posted requests name
  their end points, and let enabled events happen in any order, operations succeeding or failing. No
  handler throws; the number of events is bounded by the work at the start, which is five for each posted request
  of a dispatcher with idle connections; and every such run can be continued to one after which nothing is posted
  and no operation is in flight.
\<close>

theorem event_loop_comes_to_rest:
  assumes "all_addressed d" and "all_enabled created evs d"
  shows "\<exists>d' out evs' d'' out'. loop_run created evs d = Ok (d', out) \<and> length evs + work d' \<le> work d \<and>
    all_enabled created evs' d' \<and> loop_run created evs' d' = Ok (d'', out') \<and> at_rest d'' \<and>
    (list_all (\<lambda>(key, c). in_flight c = [] \<and> write_queue c = [] \<and> read_queue c = []) (http_connection_pool d) \<longrightarrow>
       work d = 5 * length (posted d))"
proof -
  obtain d' out where 1: "loop_run created evs d = Ok (d', out)" "length evs + work d' \<le> work d" "all_addressed d'"
    using enabled_run [OF assms(2,1)] by blast
  have "work d = 5 * length (posted d)"
    if idle: "list_all (\<lambda>(key, c). in_flight c = [] \<and> write_queue c = [] \<and> read_queue c = []) (http_connection_pool d)"
  proof -
    show ?thesis unfolding work_def dispatcher_jobs_def idle_jobs [OF idle] by simp
  qed
  then show ?thesis using 1 run_to_rest [OF 1(3), of created] by blast
qed

theorem event_loop_comes_to_rest_witness:
  "\<exists>d' out. loop_run example_response [Run_posted] (dispatcher_on_message example_dispatch new_http_dispatcher) = Ok (d', out) \<and>
     1 + work d' \<le> 5"
proof -
  let ?d = "dispatcher_on_message example_dispatch new_http_dispatcher"
  have "all_addressed ?d" using example_addressed
    by (auto simp: all_addressed_def dispatcher_on_message_def new_http_dispatcher_def)
  moreover have "all_enabled example_response [Run_posted] ?d"
    by (simp add: enabled_def dispatcher_on_message_def split: outcome.splits)
  moreover have "work ?d = 5"
    by (simp add: work_def dispatcher_jobs_def dispatcher_on_message_def new_http_dispatcher_def)
  ultimately show ?thesis using event_loop_comes_to_rest [of ?d example_response "[Run_posted]"] by fastforce
qed

section \<open>No request is answered twice\<close>

fun void_message :: "void_callback \<Rightarrow> http_request_message" where
  "void_message (Then_connect msg) = msg"
| "void_message (Then_perform msg) = msg"
| "void_message (Then_read req msg) = msg"

fun response_callback_message :: "response_callback \<Rightarrow> http_request_message" where
  "response_callback_message (Relay_response req msg) = msg"

fun error_message :: "error_callback \<Rightarrow> http_request_message" where
  "error_message (Drop_request msg) = msg"
| "error_message (Free_and_drop req msg) = msg"

text \<open>Requests not answered yet, and the request an answer is for.\<close>

definition pending :: "http_dispatcher \<Rightarrow> http_request_message multiset" where
  "pending = dispatcher_jobs (\<lambda>msg. msg) void_message response_callback_message"

fun answered :: "dispatcher_out \<Rightarrow> http_request_message" where
  "answered (Http_response_out response) = request_message response"
| "answered (Dropped_requests_out msg) = msg"

text \<open>The two closures of an operation are about the same request.\<close>

fun closures_agree :: "(nat, void_callback, response_callback, error_callback) async_op \<Rightarrow> bool" where
  "closures_agree (Async_resolve cb ecb) = (void_message cb = error_message ecb)"
| "closures_agree (Async_connect cb ecb) = (void_message cb = error_message ecb)"
| "closures_agree (Async_write req cb ecb) = (void_message cb = error_message ecb)"
| "closures_agree (Async_read rd ecb) = (response_callback_message rd = error_message ecb)"

text \<open>
  What holds of every operation the dispatcher starts, holds of every operation of its connections, in flight or
  waiting, after any event.
\<close>

definition dispatcher_all ::
  "((nat, void_callback, response_callback, error_callback) async_op \<Rightarrow> bool) \<Rightarrow> http_dispatcher \<Rightarrow> bool"
where
  "dispatcher_all P d \<longleftrightarrow> list_all (\<lambda>(key, c). all_operations P c) (http_connection_pool d)"

lemma dispatcher_all_other [simp]:
  "dispatcher_all P (d\<lparr>requests_constructed := n\<rparr>) = dispatcher_all P d" "dispatcher_all P (d\<lparr>live_requests := l\<rparr>) = dispatcher_all P d"
  "dispatcher_all P (d\<lparr>posted := ms\<rparr>) = dispatcher_all P d" "dispatcher_all P (free_request r d) = dispatcher_all P d"
  "dispatcher_all P (dispatcher_on_message msg d) = dispatcher_all P d" "dispatcher_all P new_http_dispatcher"
  by (simp_all add: dispatcher_all_def free_request_def dispatcher_on_message_def new_http_dispatcher_def)

lemma dispatcher_all_found:
  assumes "dispatcher_all P d" and "umap_find (http_connection_pool d) key = Some c" and "i < length (in_flight c)"
  shows "P (in_flight c ! i)"
proof -
  have "all_operations P c" using assms(1,2) list_all_find unfolding dispatcher_all_def by fastforce
  then show ?thesis using assms(3) by (simp add: all_operations_def list_all_iff)
qed

lemma all_on_connection:
  "dispatcher_all P d \<Longrightarrow> (\<And>c. all_operations P c \<Longrightarrow> all_operations P (f c)) \<Longrightarrow> dispatcher_all P (on_connection key f d)"
  by (auto simp: dispatcher_all_def on_connection_def split: option.splits intro!: list_all_assign dest: list_all_find)

locale started_operations =
  fixes P :: "(nat, void_callback, response_callback, error_callback) async_op \<Rightarrow> bool"
  assumes of_resolve: "P (Async_resolve (Then_connect msg) (Drop_request msg))"
    and of_connect: "P (Async_connect (Then_perform msg) (Drop_request msg))"
    and of_write: "P (Async_write r (Then_read r msg) (Free_and_drop r msg))"
    and of_read: "P (Async_read (Relay_response r msg) (Free_and_drop r msg))"
begin

lemma all_perform: "dispatcher_all P d \<Longrightarrow> dispatcher_all P (perform_request key msg d)"
  unfolding perform_request_def request_from_message_def Let_def prod.case
  by (rule all_on_connection) (simp_all add: all_operations_calls of_write)

lemma all_call_void: "dispatcher_all P d \<Longrightarrow> dispatcher_all P (call_void key cb d)"
  by (cases cb) (simp_all add: all_perform all_on_connection all_operations_calls of_connect of_read)

lemma all_call_others:
  "dispatcher_all P d \<Longrightarrow> dispatcher_all P (fst (call_response created rd body d))"
  "dispatcher_all P d \<Longrightarrow> dispatcher_all P (fst (call_error ecb d))"
  by (cases rd; simp) (cases ecb; simp)

lemma all_complete: "dispatcher_all P d \<Longrightarrow> dispatcher_all P (fst (complete_op created key op r d))"
  by (cases op; cases r) (simp_all add: all_call_void all_call_others all_on_connection all_operations_events)

lemma all_dispatch: "dispatcher_all P d \<Longrightarrow> dispatcher_all P (dispatch_to key msg d)"
  unfolding dispatch_to_def
  by (auto split: option.splits simp: all_perform all_operations_calls of_connect of_resolve intro!: all_on_connection)
    (auto simp: dispatcher_all_def intro: list_all_emplace)

lemma all_step:
  assumes "dispatcher_all P d" and "loop_step created ev d = Ok (d', out)"
  shows "dispatcher_all P d'"
proof (cases ev)
  case Run_posted
  then show ?thesis
    using assms by (cases "posted d") (auto simp: and_then_Ok_iff all_dispatch elim!: dispatcher_handler_Ok)
next
  case (Complete key i r)
  have "dispatcher_all P (on_connection key (finish_op i) d)"
    using assms(1) by (simp add: all_on_connection all_operations_finish)
  then have "dispatcher_all P (fst (complete_op created key op r (on_connection key (finish_op i) d)))" for op
    by (rule all_complete)
  then show ?thesis using assms by (auto simp: Complete split: option.splits if_splits) (metis fst_conv)
qed

end

interpretation agreeing: started_operations closures_agree
  by unfold_locales simp_all

lemma next_message [simp]: "next_job void_message response_callback_message r cb = void_message cb"
  by (cases cb) simp_all

text \<open>What a completion answers, and what remains to be done after it, is at most the job it completes.\<close>

lemma complete_answers:
  assumes "closures_agree op"
  shows "image_mset answered (mset (snd (complete_op created key op r d))) +
      following void_message response_callback_message n r op = {#op_job void_message response_callback_message op#}"
proof -
  have "image_mset answered (mset (snd (call_response created rd b d))) = {#response_callback_message rd#}" for rd b d
    by (cases rd) simp
  moreover have "image_mset answered (mset (snd (call_error ecb d))) = {#error_message ecb#}" for ecb d
    by (cases ecb) (simp_all add: create_dropped_message_def)
  ultimately show ?thesis using assms by (cases op; cases r) simp_all
qed

lemma step_answers:
  assumes "dispatcher_all closures_agree d" and "loop_step created ev d = Ok (d', out)"
  shows "image_mset answered (mset out) + pending d' \<subseteq># pending d"
proof (cases ev)
  case Run_posted
  show ?thesis
  proof (cases "posted d")
    case (Cons msg rest)
    define d0 where "d0 = d\<lparr>posted := rest\<rparr>"
    obtain key where d': "d' = dispatch_to key msg d0" "out = []"
      using assms(2) by (auto simp: Run_posted Cons and_then_Ok_iff d0_def elim: dispatcher_handler_Ok)
    have "pending d = add_mset msg (pending d0)" by (simp add: pending_def dispatcher_jobs_def Cons d0_def)
    then show ?thesis
      using jobs_dispatch [of void_message msg d0 "\<lambda>msg. msg" response_callback_message key]
      by (simp add: d' pending_def)
  qed (use assms Run_posted in simp)
next
  case (Complete key i r)
  show ?thesis
  proof (cases "enabled ev d")
    case True
    then obtain c where c: "umap_find (http_connection_pool d) key = Some c" "i < length (in_flight c)"
      by (auto simp: Complete enabled_def split: option.splits)
    define op d0 where "op = in_flight c ! i" and "d0 = on_connection key (finish_op i) d"
    have d': "d' = fst (complete_op created key op r d0)" "out = snd (complete_op created key op r d0)"
      using assms(2) by (simp_all add: Complete c op_def d0_def)
    have agree: "closures_agree op" unfolding op_def by (rule dispatcher_all_found [OF assms(1) c])
    have "pending d = add_mset (op_job void_message response_callback_message op) (pending d0)"
      unfolding pending_def op_def d0_def by (rule jobs_finish [OF c])
    moreover have "image_mset answered (mset out) + pending d' \<subseteq># image_mset answered (mset out) +
        (pending d0 + following void_message response_callback_message (requests_constructed d0) r op)"
      unfolding pending_def d'(1) by (rule subset_mset.add_left_mono [OF jobs_complete])
    moreover have "\<dots> = add_mset (op_job void_message response_callback_message op) (pending d0)"
      using complete_answers [OF agree, of created key r d0 "requests_constructed d0"] by (simp add: d'(2) ac_simps)
    ultimately show ?thesis by simp
  next
    case False
    then show ?thesis using assms by (auto simp: Complete enabled_def split: option.splits)
  qed
qed

text \<open>Requests arrive at any time.\<close>

datatype dispatcher_event = Submit http_request_message | Loop loop_event

fun dispatcher_run ::
  "http_response_message \<Rightarrow> dispatcher_event list \<Rightarrow> http_dispatcher \<Rightarrow> (http_dispatcher \<times> dispatcher_out list) cxx"
where
  "dispatcher_run created [] d = Ok (d, [])"
| "dispatcher_run created (Submit msg # evs) d = dispatcher_run created evs (dispatcher_on_message msg d)"
| "dispatcher_run created (Loop ev # evs) d =
     and_then (loop_step created ev d) (\<lambda>(d', out).
       and_then (dispatcher_run created evs d') (\<lambda>(d'', out'). Ok (d'', out @ out')))"

fun submitted_requests :: "dispatcher_event list \<Rightarrow> http_request_message list" where
  "submitted_requests [] = []"
| "submitted_requests (Submit msg # evs) = msg # submitted_requests evs"
| "submitted_requests (Loop ev # evs) = submitted_requests evs"

lemma run_answers:
  assumes "dispatcher_all closures_agree d" and "dispatcher_run created evs d = Ok (d', out)"
  shows "image_mset answered (mset out) + pending d' \<subseteq># mset (submitted_requests evs) + pending d"
  using assms
proof (induction created evs d arbitrary: d' out rule: dispatcher_run.induct)
  case (2 created msg evs d)
  have "pending (dispatcher_on_message msg d) = add_mset msg (pending d)"
    by (simp add: pending_def dispatcher_jobs_def dispatcher_on_message_def)
  then show ?case using 2 by simp
next
  case (3 created ev evs d)
  obtain d1 out1 out2 where 1: "loop_step created ev d = Ok (d1, out1)" "dispatcher_run created evs d1 = Ok (d', out2)"
    "out = out1 @ out2" using "3.prems"(2) by (auto simp: and_then_Ok_iff simp del: loop_step.simps)
  note s = step_answers [OF "3.prems"(1) 1(1)]
  have "image_mset answered (mset out2) + pending d' \<subseteq># mset (submitted_requests evs) + pending d1"
    using "3.IH" 1 agreeing.all_step [OF "3.prems"(1) 1(1)] by blast
  then have "image_mset answered (mset out1) + (image_mset answered (mset out2) + pending d') \<subseteq>#
      image_mset answered (mset out1) + (mset (submitted_requests evs) + pending d1)" by simp
  also have "\<dots> = mset (submitted_requests evs) + (image_mset answered (mset out1) + pending d1)" by (simp add: ac_simps)
  also have "\<dots> \<subseteq># mset (submitted_requests evs) + pending d" using s by simp
  finally show ?case by (simp add: 1(3) ac_simps)
qed simp

text \<open>
  No request is answered twice. Whatever requests are submitted to a new dispatcher and in whatever
  order its handlers run and operations complete, succeed or fail, also after streams have broken and been
  connected again: the requests answered so far, by a response or by being dropped, are together with
  those still pending among the requests submitted, counted with multiplicity.
\<close>

theorem no_request_is_answered_twice:
  assumes "dispatcher_run created evs new_http_dispatcher = Ok (d, out)"
  shows "image_mset answered (mset out) + pending d \<subseteq># mset (submitted_requests evs)"
proof -
  have "pending new_http_dispatcher = {#}" by (simp add: pending_def dispatcher_jobs_def new_http_dispatcher_def)
  then show ?thesis using run_answers [OF _ assms] by simp
qed

theorem no_request_is_answered_twice_witness:
  "\<exists>d out. dispatcher_run example_response [Submit example_dispatch, Loop Run_posted] new_http_dispatcher = Ok (d, out) \<and>
     image_mset answered (mset out) + pending d \<subseteq># {#example_dispatch#}"
proof -
  have "loop_step example_response Run_posted (dispatcher_on_message example_dispatch new_http_dispatcher) =
      Ok (dispatch_to (False, ''h'', ''80'') example_dispatch new_http_dispatcher, [])"
    by (simp add: dispatcher_on_message_def new_http_dispatcher_def handler_addressed [OF example_addressed])
  then have "dispatcher_run example_response [Submit example_dispatch, Loop Run_posted] new_http_dispatcher =
      Ok (dispatch_to (False, ''h'', ''80'') example_dispatch new_http_dispatcher, [])"
    by (simp del: loop_step.simps)
  from no_request_is_answered_twice [OF this] this show ?thesis by simp
qed

end
