(* ===== verification/Dispatcher_Losses.thy ===== *)
theory Dispatcher_Losses
  imports Dispatcher_Accounting
begin

text \<open>
  Where requests get lost in the dispatcher: for every call and event of the connection machine the jobs that vanish with it, and
  over a run the requests lost, so that the account of \<open>Dispatcher_Accounting\<close> is exact.
\<close>

section \<open>What a connection loses\<close>

text \<open>
  A call is lost when the state has no handler for it, or when it waits as the first one behind an operation in
  flight: that entry of the queue is popped unstarted.
\<close>

definition resolve_lost :: "('req, 'cb, 'rd, 'ecb) connection \<Rightarrow> bool" where
  "resolve_lost c \<longleftrightarrow> current_state c \<noteq> not_connected"

definition connect_lost :: "('req, 'cb, 'rd, 'ecb) connection \<Rightarrow> bool" where
  "connect_lost c \<longleftrightarrow> current_state c \<noteq> resolved"

definition write_lost :: "('req, 'cb, 'rd, 'ecb) connection \<Rightarrow> bool" where
  "write_lost c \<longleftrightarrow>
     (if current_state c \<in> {writing, writing_and_reading} then write_queue c = []
      else current_state c \<notin> {connected, reading})"

definition read_lost :: "('req, 'cb, 'rd, 'ecb) connection \<Rightarrow> bool" where
  "read_lost c \<longleftrightarrow>
     (if current_state c \<in> {reading, writing_and_reading} then read_queue c = []
      else current_state c \<notin> {connected, writing})"

text \<open>An error pops a queue and starts nothing: what is now the first entry will be popped unstarted in turn.\<close>

definition write_error_loses :: "('req, 'cb, 'rd, 'ecb) connection \<Rightarrow> 'cb list" where
  "write_error_loses c =
     (if current_state c \<in> {writing, writing_and_reading} then map (\<lambda>(req, cb, ecb). cb) (take 1 (tl (write_queue c))) else [])"

definition read_error_loses :: "('req, 'cb, 'rd, 'ecb) connection \<Rightarrow> 'rd list" where
  "read_error_loses c =
     (if current_state c \<in> {reading, writing_and_reading} then map fst (take 1 (tl (read_queue c))) else [])"

lemma jobs_enqueue_write_exact:
  "connection_jobs jv jr (c\<lparr>write_queue := write_queue c @ [(req, cb, ecb)]\<rparr>) =
     (if write_queue c = [] then connection_jobs jv jr c else add_mset (jv cb) (connection_jobs jv jr c))"
  by (cases "write_queue c") (auto simp: connection_jobs_def)

lemma jobs_enqueue_read_exact:
  "connection_jobs jv jr (c\<lparr>read_queue := read_queue c @ [(rd, ecb)]\<rparr>) =
     (if read_queue c = [] then connection_jobs jv jr c else add_mset (jr rd) (connection_jobs jv jr c))"
  by (cases "read_queue c") (auto simp: connection_jobs_def)

lemma jobs_enqueue_first:
  "write_queue c = [] \<Longrightarrow> connection_jobs jv jr (c\<lparr>write_queue := [w]\<rparr>) = connection_jobs jv jr c"
  "read_queue c = [] \<Longrightarrow> connection_jobs jv jr (c\<lparr>read_queue := [r]\<rparr>) = connection_jobs jv jr c"
  by (simp_all add: connection_jobs_def)

lemma jobs_of_calls_exact:
  "connection_jobs jv jr (sm_resolve cb ecb c) =
     (if resolve_lost c then connection_jobs jv jr c else add_mset (jv cb) (connection_jobs jv jr c))"
  "connection_jobs jv jr (sm_connect cb ecb c) =
     (if connect_lost c then connection_jobs jv jr c else add_mset (jv cb) (connection_jobs jv jr c))"
  "connection_jobs jv jr (sm_write req cb ecb c) =
     (if write_lost c then connection_jobs jv jr c else add_mset (jv cb) (connection_jobs jv jr c))"
  "connection_jobs jv jr (sm_read rd ecb c) =
     (if read_lost c then connection_jobs jv jr c else add_mset (jr rd) (connection_jobs jv jr c))"
  by (auto simp: machine_calls state_handlers enter_def connection_jobs_start jobs_enqueue_write_exact
      jobs_enqueue_read_exact jobs_enqueue_first resolve_lost_def connect_lost_def write_lost_def read_lost_def split: STATE_ID.splits)

lemma jobs_pop_write_exact:
  "connection_jobs jv jr (pop_write c) + image_mset jv (mset (map (\<lambda>(req, cb, ecb). cb) (take 1 (tl (write_queue c))))) =
     connection_jobs jv jr c"
  by (cases "write_queue c"; cases "tl (write_queue c)") (auto simp: connection_jobs_def pop_write_def)

lemma jobs_pop_read_exact:
  "connection_jobs jv jr (pop_read c) + image_mset jr (mset (map fst (take 1 (tl (read_queue c))))) =
     connection_jobs jv jr c"
  by (cases "read_queue c"; cases "tl (read_queue c)") (auto simp: connection_jobs_def pop_read_def)

lemma jobs_pop_last:
  "write_queue (pop_write c) = [] \<Longrightarrow> connection_jobs jv jr (pop_write c) = connection_jobs jv jr c"
  "read_queue (pop_read c) = [] \<Longrightarrow> connection_jobs jv jr (pop_read c) = connection_jobs jv jr c"
  by (cases "write_queue c"; simp add: connection_jobs_def pop_write_def)
    (cases "read_queue c"; simp add: connection_jobs_def pop_read_def)

lemma jobs_of_events_exact:
  "connection_jobs jv jr (sm_on_resolve c) = connection_jobs jv jr c"
  "connection_jobs jv jr (sm_on_resolve_failed c) = connection_jobs jv jr c"
  "connection_jobs jv jr (sm_on_connect c) = connection_jobs jv jr c"
  "connection_jobs jv jr (sm_on_connect_failed c) = connection_jobs jv jr c"
  "connection_jobs jv jr (sm_on_write c) = connection_jobs jv jr c"
  "connection_jobs jv jr (sm_on_read c) = connection_jobs jv jr c"
  by (auto simp: machine_events state_handlers enter_def Let_def jobs_restart_write jobs_restart_read jobs_pop_last
      split: STATE_ID.splits list.splits)

lemma jobs_of_errors_exact:
  "connection_jobs jv jr (sm_on_write_error c) + image_mset jv (mset (write_error_loses c)) = connection_jobs jv jr c"
  "connection_jobs jv jr (sm_on_read_error c) + image_mset jr (mset (read_error_loses c)) = connection_jobs jv jr c"
  using jobs_pop_write_exact [of jv jr c] jobs_pop_read_exact [of jv jr c]
  by (auto simp: machine_events state_handlers enter_def write_error_loses_def read_error_loses_def
      simp del: mset_map split: STATE_ID.splits)

section \<open>What the dispatcher loses\<close>

text \<open>
  A request is lost before it has a request object, before its object is sent, or before its response is
  read; the number is that of the object.
\<close>

datatype lost_request =
    Untried http_request_message
  | Unsent nat http_request_message
  | Unread nat http_request_message

fun lost_message :: "lost_request \<Rightarrow> http_request_message" where
  "lost_message (Untried msg) = msg"
| "lost_message (Unsent r msg) = msg"
| "lost_message (Unread r msg) = msg"

text \<open>A callback that is never called.\<close>

fun lost_void :: "void_callback \<Rightarrow> lost_request" where
  "lost_void (Then_connect msg) = Untried msg"
| "lost_void (Then_perform msg) = Untried msg"
| "lost_void (Then_read r msg) = Unsent r msg"

fun lost_response :: "response_callback \<Rightarrow> lost_request" where
  "lost_response (Relay_response r msg) = Unread r msg"

lemma lost_message_callbacks [simp]:
  "lost_message (lost_void cb) = void_message cb" "lost_message (lost_response rd) = response_callback_message rd"
  by (cases cb; simp) (cases rd; simp)

lemma lost_message_comp [simp]:
  "lost_message \<circ> lost_void = void_message" "lost_message \<circ> lost_response = response_callback_message"
  by (simp_all add: fun_eq_iff)

definition call_loses :: "(http_connection \<Rightarrow> bool) \<Rightarrow> http_connection_key \<Rightarrow> lost_request \<Rightarrow> http_dispatcher \<Rightarrow> lost_request list" where
  "call_loses lost key req d =
     (case umap_find (http_connection_pool d) key of Some c \<Rightarrow> (if lost c then [req] else []) | None \<Rightarrow> [req])"

definition perform_loses :: "http_connection_key \<Rightarrow> http_request_message \<Rightarrow> http_dispatcher \<Rightarrow> lost_request list" where
  "perform_loses key msg d = call_loses write_lost key (Unsent (requests_constructed d) msg) d"

fun void_loses :: "http_connection_key \<Rightarrow> void_callback \<Rightarrow> http_dispatcher \<Rightarrow> lost_request list" where
  "void_loses key (Then_connect msg) d = call_loses connect_lost key (Untried msg) d"
| "void_loses key (Then_perform msg) d = perform_loses key msg d"
| "void_loses key (Then_read r msg) d = call_loses read_lost key (Unread r msg) d"

text \<open>A completion: the machine's event has happened when a callback runs; only errors lose what is queued.\<close>

fun completion_loses :: "http_connection_key \<Rightarrow> (nat, void_callback, response_callback, error_callback) async_op \<Rightarrow> io_result
    \<Rightarrow> http_dispatcher \<Rightarrow> lost_request list" where
  "completion_loses key (Async_resolve cb ecb) (Succeeded body) d = void_loses key cb (on_connection key sm_on_resolve d)"
| "completion_loses key (Async_connect cb ecb) (Succeeded body) d = void_loses key cb (on_connection key sm_on_connect d)"
| "completion_loses key (Async_write req cb ecb) (Succeeded body) d = void_loses key cb (on_connection key sm_on_write d)"
| "completion_loses key (Async_read rd ecb) (Succeeded body) d = []"
| "completion_loses key (Async_resolve cb ecb) Failed d = []"
| "completion_loses key (Async_connect cb ecb) Failed d = []"
| "completion_loses key (Async_write req cb ecb) Failed d =
     (case umap_find (http_connection_pool d) key of Some c \<Rightarrow> map lost_void (write_error_loses c) | None \<Rightarrow> [])"
| "completion_loses key (Async_read rd ecb) Failed d =
     (case umap_find (http_connection_pool d) key of Some c \<Rightarrow> map lost_response (read_error_loses c) | None \<Rightarrow> [])"

text \<open>A posted handler loses a request whose connection is being set up or has failed.\<close>

definition dispatch_loses :: "http_connection_key \<Rightarrow> http_request_message \<Rightarrow> http_dispatcher \<Rightarrow> lost_request list" where
  "dispatch_loses key msg d =
     (case umap_find (http_connection_pool d) key of
        None \<Rightarrow> []
      | Some c \<Rightarrow>
          (if current_state c \<in> {writing_and_reading, reading, writing, connected} then perform_loses key msg d
           else if current_state c = resolved then [] else [Untried msg]))"

definition endpoint_key :: "http_request_message \<Rightarrow> http_connection_key" where
  "endpoint_key msg =
     (case (get_field string_alt msg ''load_balancing'' ''endpoint_host'', get_field string_alt msg ''load_balancing'' ''endpoint_port'') of
        (Ok host, Ok port) \<Rightarrow> (False, host, port) | _ \<Rightarrow> (False, [], []))"

fun step_loses :: "loop_event \<Rightarrow> http_dispatcher \<Rightarrow> lost_request list" where
  "step_loses Run_posted d =
     (case posted d of [] \<Rightarrow> [] | msg # rest \<Rightarrow> dispatch_loses (endpoint_key msg) msg (d\<lparr>posted := rest\<rparr>))"
| "step_loses (Complete key i r) d =
     (case umap_find (http_connection_pool d) key of
        None \<Rightarrow> []
      | Some c \<Rightarrow> (if i < length (in_flight c) then completion_loses key (in_flight c ! i) r (on_connection key (finish_op i) d) else []))"

fun run_loses :: "http_response_message \<Rightarrow> dispatcher_event list \<Rightarrow> http_dispatcher \<Rightarrow> lost_request list" where
  "run_loses created [] d = []"
| "run_loses created (Submit msg # evs) d = run_loses created evs (dispatcher_on_message msg d)"
| "run_loses created (Loop ev # evs) d =
     step_loses ev d @ (case loop_step created ev d of Ok (d', out) \<Rightarrow> run_loses created evs d' | _ \<Rightarrow> [])"

section \<open>The exact account of requests\<close>

abbreviation lost_messages :: "lost_request list \<Rightarrow> http_request_message multiset" where
  "lost_messages ls \<equiv> image_mset lost_message (mset ls)"

lemma pending_on_connection:
  assumes "umap_find (http_connection_pool d) key = Some c"
    and "connection_jobs void_message response_callback_message (f c) + L =
      connection_jobs void_message response_callback_message c + X"
  shows "pending (on_connection key f d) + L = pending d + X"
proof -
  let ?J = "connection_jobs void_message response_callback_message"
  have "pending (on_connection key f d) + ?J c = pending d + ?J (f c)"
    using sum_list_assign [OF assms(1), of ?J "f c"]
    by (simp add: pending_def dispatcher_jobs_def on_connection_def assms(1) ac_simps)
  then have "(pending (on_connection key f d) + L) + ?J c = pending d + (?J (f c) + L)" by (simp add: ac_simps)
  also have "\<dots> = (pending d + X) + ?J c" unfolding assms(2) by (simp add: ac_simps)
  finally show ?thesis by (rule add_right_imp_eq)
qed

text \<open>Every call, event and completion keeps the account.\<close>

lemma pending_event:
  assumes "umap_find (http_connection_pool d) key = Some c"
    and "connection_jobs void_message response_callback_message (f c) = connection_jobs void_message response_callback_message c"
  shows "pending (on_connection key f d) = pending d"
  using pending_on_connection [OF assms(1), of f "{#}" "{#}"] assms(2) by simp

lemma pending_call:
  assumes "umap_find (http_connection_pool d) key = Some c"
    and "connection_jobs void_message response_callback_message (f c) =
      (if lost c then connection_jobs void_message response_callback_message c
       else add_mset msg (connection_jobs void_message response_callback_message c))"
    and "lost_message req = msg"
  shows "pending (on_connection key f d) + lost_messages (call_loses lost key req d) = add_mset msg (pending d)"
  using pending_on_connection [OF assms(1), of f "lost_messages (call_loses lost key req d)" "{#msg#}"] assms
  by (auto simp: call_loses_def)

lemma pending_other [simp]:
  "pending (d\<lparr>requests_constructed := n\<rparr>) = pending d" "pending (d\<lparr>live_requests := l\<rparr>) = pending d"
  "pending (free_request r d) = pending d"
  by (simp_all add: pending_def)

lemma perform_exact:
  assumes "umap_find (http_connection_pool d) key = Some c"
  shows "pending (perform_request key msg d) + lost_messages (perform_loses key msg d) = add_mset msg (pending d)"
proof -
  let ?d = "fst (request_from_message d)" and ?r = "requests_constructed d"
  have d: "umap_find (http_connection_pool ?d) key = Some c" "pending ?d = pending d"
    "call_loses write_lost key (Unsent ?r msg) ?d = perform_loses key msg d"
    using assms by (simp_all add: request_from_message_def call_loses_def perform_loses_def)
  have "pending (on_connection key (sm_write ?r (Then_read ?r msg) (Free_and_drop ?r msg)) ?d) +
      lost_messages (call_loses write_lost key (Unsent ?r msg) ?d) = add_mset msg (pending ?d)"
    by (rule pending_call [OF d(1)]) (simp_all add: jobs_of_calls_exact)
  then show ?thesis unfolding d(2,3) by (simp add: perform_request_def request_from_message_def)
qed

lemma void_exact:
  assumes "umap_find (http_connection_pool d) key = Some c"
  shows "pending (call_void key cb d) + lost_messages (void_loses key cb d) = add_mset (void_message cb) (pending d)"
proof (cases cb)
  case (Then_connect msg)
  show ?thesis unfolding Then_connect call_void.simps void_loses.simps void_message.simps
    by (rule pending_call [OF assms]) (simp_all add: jobs_of_calls_exact)
next
  case (Then_perform msg)
  then show ?thesis using perform_exact [OF assms] by simp
next
  case (Then_read r msg)
  show ?thesis unfolding Then_read call_void.simps void_loses.simps void_message.simps
    by (rule pending_call [OF assms]) (simp_all add: jobs_of_calls_exact)
qed

lemma void_after_event_exact:
  assumes "umap_find (http_connection_pool d) key = Some c"
    and "connection_jobs void_message response_callback_message (f c) = connection_jobs void_message response_callback_message c"
  shows "pending (call_void key cb (on_connection key f d)) + lost_messages (void_loses key cb (on_connection key f d)) =
    add_mset (void_message cb) (pending d)"
proof -
  have "umap_find (http_connection_pool (on_connection key f d)) key = Some (f c)"
    by (simp add: on_connection_find assms(1))
  from void_exact [OF this, of cb] show ?thesis using pending_event [of d key c f, OF assms] by simp
qed

lemma completion_exact:
  assumes "umap_find (http_connection_pool d) key = Some c" and "closures_agree op"
  shows "image_mset answered (mset (snd (complete_op created key op r d))) + pending (fst (complete_op created key op r d)) +
      lost_messages (completion_loses key op r d) = add_mset (op_job void_message response_callback_message op) (pending d)"
proof -
  have responds: "image_mset answered (mset (snd (call_response created rd b d'))) = {#response_callback_message rd#}"
    "pending (fst (call_response created rd b d')) = pending d'" for rd b d' by (cases rd; simp)+
  have drops: "image_mset answered (mset (snd (call_error ecb d'))) = {#error_message ecb#}"
    "pending (fst (call_error ecb d')) = pending d'" for ecb d' by (cases ecb; simp add: create_dropped_message_def)+
  have write_error: "pending (on_connection key sm_on_write_error d) + mset (map void_message (write_error_loses c)) = pending d"
    using pending_on_connection [OF assms(1), of sm_on_write_error "mset (map void_message (write_error_loses c))" "{#}"]
      jobs_of_errors_exact(1) [of void_message response_callback_message c] by simp
  have read_error: "pending (on_connection key sm_on_read_error d) + mset (map response_callback_message (read_error_loses c)) = pending d"
    using pending_on_connection [OF assms(1), of sm_on_read_error "mset (map response_callback_message (read_error_loses c))" "{#}"]
      jobs_of_errors_exact(2) [of void_message response_callback_message c] by simp
  note events = pending_event [OF assms(1)] jobs_of_events_exact
  show ?thesis
    using assms write_error read_error
    by (cases op; cases r)
      (simp_all add: multiset.map_comp responds drops events void_after_event_exact [OF assms(1)])
qed

lemma dispatch_exact: "pending (dispatch_to key msg d) + lost_messages (dispatch_loses key msg d) = add_mset msg (pending d)"
proof (cases "umap_find (http_connection_pool d) key")
  case None
  define d0 where "d0 = d\<lparr>http_connection_pool := fst (umap_try_emplace key new_connection (http_connection_pool d))\<rparr>"
  have "pending d0 = pending d"
    by (simp add: d0_def pending_def dispatcher_jobs_def umap_emplace_new [OF None])
  moreover have "umap_find (http_connection_pool d0) key = Some new_connection"
    by (simp add: d0_def um.find_emplace None)
  moreover have "\<not> resolve_lost (new_connection :: http_connection)" by (simp add: resolve_lost_def new_connection_def)
  ultimately have "pending (on_connection key (sm_resolve (Then_connect msg) (Drop_request msg)) d0) = add_mset msg (pending d)"
    using pending_call [of d0 key new_connection "sm_resolve (Then_connect msg) (Drop_request msg)" resolve_lost msg "Untried msg"]
    by (simp add: jobs_of_calls_exact call_loses_def)
  then show ?thesis by (simp add: dispatch_to_def dispatch_loses_def None d0_def)
next
  case (Some c)
  show ?thesis
    using perform_exact [OF Some, of msg]
      pending_call [OF Some, of "sm_connect (Then_perform msg) (Drop_request msg)" connect_lost msg "Untried msg"]
    by (auto simp: dispatch_to_def dispatch_loses_def Some jobs_of_calls_exact call_loses_def connect_lost_def)
qed

section \<open>The account of a run\<close>

lemma endpoint_key_addressed: "addressed_to msg key \<Longrightarrow> endpoint_key msg = key"
  by (cases key) (simp add: addressed_to_def endpoint_key_def)

lemma step_exact:
  assumes "dispatcher_all closures_agree d" and "loop_step created ev d = Ok (d', out)"
  shows "image_mset answered (mset out) + pending d' + lost_messages (step_loses ev d) = pending d"
proof (cases ev)
  case Run_posted
  show ?thesis
  proof (cases "posted d")
    case (Cons msg rest)
    obtain key where d': "addressed_to msg key" "d' = dispatch_to key msg (d\<lparr>posted := rest\<rparr>)" "out = []"
      using assms(2) by (auto simp: Run_posted Cons and_then_Ok_iff elim: dispatcher_handler_Ok)
    have "pending d = add_mset msg (pending (d\<lparr>posted := rest\<rparr>))" by (simp add: pending_def dispatcher_jobs_def Cons)
    then show ?thesis
      using dispatch_exact [of key msg "d\<lparr>posted := rest\<rparr>"] by (simp add: Run_posted Cons d' endpoint_key_addressed [OF d'(1)])
  qed (use assms Run_posted in simp)
next
  case (Complete key i r)
  show ?thesis
  proof (cases "enabled ev d")
    case True
    then obtain c where c: "umap_find (http_connection_pool d) key = Some c" "i < length (in_flight c)"
      by (auto simp: Complete enabled_def split: option.splits)
    define op d0 where "op = in_flight c ! i" and "d0 = on_connection key (finish_op i) d"
    have d': "d' = fst (complete_op created key op r d0)" "out = snd (complete_op created key op r d0)"
      using assms(2) by (simp_all add: Complete c op_def d0_def)
    have "closures_agree op" unfolding op_def by (rule dispatcher_all_found [OF assms(1) c])
    moreover have "umap_find (http_connection_pool d0) key = Some (finish_op i c)" by (simp add: d0_def on_connection_find c(1))
    moreover have "pending d = add_mset (op_job void_message response_callback_message op) (pending d0)"
      unfolding pending_def op_def d0_def by (rule jobs_finish [OF c])
    moreover have "step_loses ev d = completion_loses key op r d0" by (simp add: Complete c op_def d0_def)
    ultimately show ?thesis using completion_exact [of d0 key "finish_op i c" op created r] by (simp add: d')
  next
    case False
    then show ?thesis using assms by (auto simp: Complete enabled_def split: option.splits)
  qed
qed

lemma run_exact:
  assumes "dispatcher_all closures_agree d" and "dispatcher_run created evs d = Ok (d', out)"
  shows "image_mset answered (mset out) + pending d' + lost_messages (run_loses created evs d) = mset (submitted_requests evs) + pending d"
  using assms
proof (induction created evs d arbitrary: d' out rule: dispatcher_run.induct)
  case (2 created msg evs d)
  have "pending (dispatcher_on_message msg d) = add_mset msg (pending d)"
    by (simp add: pending_def dispatcher_jobs_def dispatcher_on_message_def)
  then show ?case using 2 by simp
next
  case (3 created ev evs d)
  obtain d1 out1 out2 where 1: "loop_step created ev d = Ok (d1, out1)" "dispatcher_run created evs d1 = Ok (d', out2)"
    "out = out1 @ out2" using "3.prems"(2) by (auto simp: and_then_Ok_iff simp del: loop_step.simps)
  have "image_mset answered (mset out2) + pending d' + lost_messages (run_loses created evs d1) =
      mset (submitted_requests evs) + pending d1"
    using "3.IH" 1 agreeing.all_step [OF "3.prems"(1) 1(1)] by blast
  moreover have "pending d = image_mset answered (mset out1) + pending d1 + lost_messages (step_loses ev d)"
    using step_exact [OF "3.prems"(1) 1(1)] by simp
  ultimately show ?case by (simp add: 1 ac_simps del: loop_step.simps step_loses.simps)
qed simp

text \<open>When nothing is posted or in flight, what is pending waits in the queues, behind an entry that will never be sent.\<close>

definition quiet :: "http_dispatcher \<Rightarrow> bool" where
  "quiet d \<longleftrightarrow> posted d = [] \<and> list_all (\<lambda>(key, c). in_flight c = []) (http_connection_pool d)"

definition stranded :: "http_dispatcher \<Rightarrow> http_request_message multiset" where
  "stranded d = (\<Sum>(key, c) \<leftarrow> http_connection_pool d.
     mset (map (\<lambda>(req, cb, ecb). void_message cb) (tl (write_queue c)) @
       map (\<lambda>(rd, ecb). response_callback_message rd) (tl (read_queue c))))"

lemma quiet_pending: "quiet d \<Longrightarrow> pending d = stranded d"
proof -
  have "list_all (\<lambda>(key, c). in_flight c = []) pool \<Longrightarrow>
      (\<Sum>(key, c) \<leftarrow> pool. connection_jobs void_message response_callback_message c) =
      (\<Sum>(key, c) \<leftarrow> pool. mset (map (\<lambda>(req, cb, ecb). void_message cb) (tl (write_queue c)) @
         map (\<lambda>(rd, ecb). response_callback_message rd) (tl (read_queue c))))" for pool :: "(http_connection_key, http_connection) umap"
    by (induction pool) (auto simp: connection_jobs_def)
  then show "quiet d \<Longrightarrow> pending d = stranded d"
    by (simp add: quiet_def pending_def dispatcher_jobs_def stranded_def)
qed

text \<open>
  C8: Every request is accounted for. Whatever requests are submitted to a new dispatcher and in whatever order its
  handlers run and operations complete, succeed or fail: the requests answered, by a response or by being dropped, those pending, and those lost at the places
  \<open>run_loses\<close> names, are together exactly those submitted, counted with multiplicity; so none is answered twice. When
  nothing is posted and no operation is in flight, what is pending is stranded in the queues of its connection.
\<close>

theorem every_request_is_accounted_for:
  assumes "dispatcher_run created evs new_http_dispatcher = Ok (d, out)"
  shows "image_mset answered (mset out) + pending d + lost_messages (run_loses created evs new_http_dispatcher) =
      mset (submitted_requests evs) \<and>
    (quiet d \<longrightarrow> pending d = stranded d)"
proof -
  have "pending new_http_dispatcher = {#}" by (simp add: pending_def dispatcher_jobs_def new_http_dispatcher_def)
  then show ?thesis using run_exact [OF _ assms] quiet_pending by simp
qed

text \<open>A second request for an end point whose connection is being set up is lost.\<close>

theorem every_request_is_accounted_for_witness:
  "\<exists>d. dispatcher_run example_response [Submit example_dispatch, Submit example_dispatch, Loop Run_posted, Loop Run_posted]
      new_http_dispatcher = Ok (d, []) \<and>
     pending d + lost_messages (run_loses example_response [Submit example_dispatch, Submit example_dispatch, Loop Run_posted, Loop Run_posted]
       new_http_dispatcher) = {#example_dispatch, example_dispatch#} \<and>
     run_loses example_response [Submit example_dispatch, Submit example_dispatch, Loop Run_posted, Loop Run_posted]
       new_http_dispatcher = [Untried example_dispatch]"
proof -
  let ?key = "(False, ''h'', ''80'')" and ?evs = "[Submit example_dispatch, Submit example_dispatch, Loop Run_posted, Loop Run_posted]"
  define d where "d = dispatch_to ?key example_dispatch (new_http_dispatcher\<lparr>posted := [example_dispatch]\<rparr>)"
  note handler = handler_addressed [OF example_addressed]
  have step1: "loop_step created Run_posted (new_http_dispatcher\<lparr>posted := [example_dispatch, example_dispatch]\<rparr>) = Ok (d, [])" for created
    by (simp add: handler d_def)
  have d: "posted d = [example_dispatch]" by (simp add: d_def)
  have c: "map_option current_state (umap_find (http_connection_pool d) ?key) = Some resolving"
    by (simp add: d_def dispatch_to_def new_http_dispatcher_def on_connection_find um.find_emplace machine_all new_connection_def)
  have step2: "loop_step created Run_posted d = Ok (dispatch_to ?key example_dispatch (d\<lparr>posted := []\<rparr>), [])" for created
    by (simp add: d handler)
  have "step_loses Run_posted d = [Untried example_dispatch]"
    using c by (auto simp: d endpoint_key_addressed [OF example_addressed] dispatch_loses_def)
  moreover have "step_loses Run_posted (new_http_dispatcher\<lparr>posted := [example_dispatch, example_dispatch]\<rparr>) = []"
    by (simp add: dispatch_loses_def new_http_dispatcher_def)
  moreover have "dispatcher_on_message m (new_http_dispatcher\<lparr>posted := ms\<rparr>) = new_http_dispatcher\<lparr>posted := ms @ [m]\<rparr>" for m ms
    by (simp add: dispatcher_on_message_def)
  moreover have "dispatcher_on_message m new_http_dispatcher = new_http_dispatcher\<lparr>posted := [m]\<rparr>" for m
    by (simp add: dispatcher_on_message_def new_http_dispatcher_def)
  ultimately have loses: "run_loses example_response ?evs new_http_dispatcher = [Untried example_dispatch]"
    and run: "dispatcher_run example_response ?evs new_http_dispatcher = Ok (dispatch_to ?key example_dispatch (d\<lparr>posted := []\<rparr>), [])"
    by (simp_all add: step1 step2 del: loop_step.simps step_loses.simps)
  have "pending (dispatch_to ?key example_dispatch (d\<lparr>posted := []\<rparr>)) + lost_messages (run_loses example_response ?evs new_http_dispatcher) =
      {#example_dispatch, example_dispatch#}"
    using every_request_is_accounted_for [OF run] by (simp del: run_loses.simps)
  then show ?thesis using run loses by blast
qed

end
