(* ===== verification/Dispatcher_Memory.thy ===== *)
theory Dispatcher_Memory
  imports Dispatcher_Losses
begin

text \<open>
  The request objects of the dispatcher's pool: over every run each is freed at most once and only while it is
  allocated, no operation in flight refers to a freed one, and exactly those of lost requests are never freed.
\<close>

section \<open>Objects held and leaked\<close>

fun void_object :: "void_callback \<Rightarrow> nat multiset" where
  "void_object (Then_connect msg) = {#}"
| "void_object (Then_perform msg) = {#}"
| "void_object (Then_read r msg) = {#r#}"

fun read_object :: "response_callback \<Rightarrow> nat multiset" where
  "read_object (Relay_response r msg) = {#r#}"

fun error_object :: "error_callback \<Rightarrow> nat multiset" where
  "error_object (Drop_request msg) = {#}"
| "error_object (Free_and_drop r msg) = {#r#}"

fun lost_object :: "lost_request \<Rightarrow> nat multiset" where
  "lost_object (Untried msg) = {#}"
| "lost_object (Unsent r msg) = {#r#}"
| "lost_object (Unread r msg) = {#r#}"

definition leaked :: "lost_request list \<Rightarrow> nat multiset" where
  "leaked ls = \<Sum>\<^sub># (image_mset lost_object (mset ls))"

definition connection_objects :: "http_connection \<Rightarrow> nat multiset" where
  "connection_objects c = \<Sum>\<^sub># (connection_jobs void_object read_object c)"

definition held :: "http_dispatcher \<Rightarrow> nat multiset" where
  "held d = \<Sum>\<^sub># (dispatcher_jobs (\<lambda>msg. {#}) void_object read_object d)"

text \<open>An operation and its two closures are about one object.\<close>

fun owns :: "(nat, void_callback, response_callback, error_callback) async_op \<Rightarrow> bool" where
  "owns (Async_resolve cb ecb) \<longleftrightarrow> void_object cb = {#} \<and> error_object ecb = {#}"
| "owns (Async_connect cb ecb) \<longleftrightarrow> void_object cb = {#} \<and> error_object ecb = {#}"
| "owns (Async_write r cb ecb) \<longleftrightarrow> void_object cb = {#r#} \<and> error_object ecb = {#r#}"
| "owns (Async_read rd ecb) \<longleftrightarrow> read_object rd = error_object ecb"

interpretation owning: started_operations owns
  by unfold_locales simp_all

abbreviation object_of :: "(nat, void_callback, response_callback, error_callback) async_op \<Rightarrow> nat multiset" where
  "object_of \<equiv> op_job void_object read_object"

text \<open>
  The account of the pool while a handler runs that has the objects \<open>X\<close> in hand, when the objects \<open>K\<close> have leaked.
\<close>

definition balanced :: "http_dispatcher \<Rightarrow> nat multiset \<Rightarrow> nat multiset \<Rightarrow> bool" where
  "balanced d X K \<longleftrightarrow> mset (live_requests d) = held d + X + K \<and> distinct (live_requests d) \<and>
     (\<forall>r \<in> set (live_requests d). r < requests_constructed d)"

lemma leaked_simps [simp]:
  "leaked [] = {#}" "leaked (l # ls) = lost_object l + leaked ls" "leaked (ls @ ls') = leaked ls + leaked ls'"
  by (simp_all add: leaked_def)

lemma leaked_callbacks [simp]:
  "leaked (map lost_void cbs) = \<Sum>\<^sub># (image_mset void_object (mset cbs))"
  "leaked (map lost_response rds) = \<Sum>\<^sub># (image_mset read_object (mset rds))"
proof -
  have "lost_object (lost_void cb) = void_object cb" for cb by (cases cb) simp_all
  then show "leaked (map lost_void cbs) = \<Sum>\<^sub># (image_mset void_object (mset cbs))" by (simp add: leaked_def multiset.map_comp o_def)
  have "lost_object (lost_response rd) = read_object rd" for rd by (cases rd) simp
  then show "leaked (map lost_response rds) = \<Sum>\<^sub># (image_mset read_object (mset rds))" by (simp add: leaked_def multiset.map_comp o_def)
qed

lemma held_other [simp]:
  "held (d\<lparr>requests_constructed := n\<rparr>) = held d" "held (d\<lparr>live_requests := l\<rparr>) = held d" "held (free_request r d) = held d"
  "held (d\<lparr>posted := ms\<rparr>) = held d" "held (dispatcher_on_message msg d) = held d"
  by (simp_all add: held_def free_request_def dispatcher_jobs_def dispatcher_on_message_def)

section \<open>The steps of a handler\<close>

lemma held_on_connection:
  assumes "umap_find (http_connection_pool d) key = Some c" and "connection_objects (f c) + L = connection_objects c + X"
  shows "held (on_connection key f d) + L = held d + X"
proof -
  let ?J = "connection_jobs void_object read_object"
  have "dispatcher_jobs (\<lambda>msg. {#}) void_object read_object (on_connection key f d) + ?J c =
      dispatcher_jobs (\<lambda>msg. {#}) void_object read_object d + ?J (f c)"
    using sum_list_assign [OF assms(1), of ?J "f c"]
    by (simp add: dispatcher_jobs_def on_connection_def assms(1) ac_simps)
  then have "held (on_connection key f d) + connection_objects c = held d + connection_objects (f c)"
    unfolding held_def connection_objects_def by (metis sum_mset.union)
  then have "(held (on_connection key f d) + L) + connection_objects c = held d + (connection_objects (f c) + L)"
    by (simp add: ac_simps)
  also have "\<dots> = (held d + X) + connection_objects c" unfolding assms(2) by (simp add: ac_simps)
  finally show ?thesis by (rule add_right_imp_eq)
qed

lemma balanced_on_connection:
  assumes "balanced d (X + Y) K" and "umap_find (http_connection_pool d) key = Some c"
    and "connection_objects (f c) + L = connection_objects c + X"
  shows "balanced (on_connection key f d) Y (K + L)"
  proof -
  have "mset (live_requests d) + L = held d + (X + Y) + K + L" using assms(1) by (simp add: balanced_def)
  also have "\<dots> = (held d + X) + Y + K + L" by (simp add: ac_simps)
  also have "\<dots> = (held (on_connection key f d) + L) + Y + K + L"
    unfolding held_on_connection [of d key c f L X, OF assms(2,3)] ..
  finally have "mset (live_requests d) = held (on_connection key f d) + Y + (K + L)" by (simp add: ac_simps)
  then show ?thesis using assms(1) by (simp add: balanced_def)
qed

text \<open>An event starts what waits; an error leaks what it pops.\<close>

lemma balanced_event:
  assumes "balanced d Y K" and "umap_find (http_connection_pool d) key = Some c"
    and "connection_objects (f c) + L = connection_objects c"
  shows "balanced (on_connection key f d) Y (K + L)"
  using balanced_on_connection [of d "{#}" Y K key c f L] assms by simp

lemma objects_of_events:
  "connection_objects (sm_on_resolve c) = connection_objects c" "connection_objects (sm_on_resolve_failed c) = connection_objects c"
  "connection_objects (sm_on_connect c) = connection_objects c" "connection_objects (sm_on_connect_failed c) = connection_objects c"
  "connection_objects (sm_on_write c) = connection_objects c" "connection_objects (sm_on_read c) = connection_objects c"
  "connection_objects (sm_on_write_error c) + leaked (map lost_void (write_error_loses c)) = connection_objects c"
  "connection_objects (sm_on_read_error c) + leaked (map lost_response (read_error_loses c)) = connection_objects c"
  unfolding connection_objects_def leaked_callbacks sum_mset.union [symmetric]
  by (simp_all only: jobs_of_events_exact jobs_of_errors_exact)

text \<open>A call takes the object of its callback over, or leaks it.\<close>

lemma balanced_call:
  assumes "balanced d X K" and "umap_find (http_connection_pool d) key = Some c"
    and "connection_objects (f c) = (if lost c then connection_objects c else X + connection_objects c)" and "lost_object req = X"
  shows "balanced (on_connection key f d) {#} (K + leaked (call_loses lost key req d))"
proof -
  have "connection_objects (f c) + leaked (call_loses lost key req d) = connection_objects c + X"
    using assms(2-4) by (simp add: call_loses_def)
  then show ?thesis using balanced_on_connection [of d X "{#}" K key c f "leaked (call_loses lost key req d)"] assms(1,2) by simp
qed

lemma objects_of_calls:
  "connection_objects (sm_resolve cb ecb c) = (if resolve_lost c then connection_objects c else void_object cb + connection_objects c)"
  "connection_objects (sm_connect cb ecb c) = (if connect_lost c then connection_objects c else void_object cb + connection_objects c)"
  "connection_objects (sm_write req cb ecb c) = (if write_lost c then connection_objects c else void_object cb + connection_objects c)"
  "connection_objects (sm_read rd ecb c) = (if read_lost c then connection_objects c else read_object rd + connection_objects c)"
  by (simp_all add: connection_objects_def jobs_of_calls_exact)

lemma balanced_perform:
  assumes "balanced d {#} K" and "umap_find (http_connection_pool d) key = Some c"
  shows "balanced (perform_request key msg d) {#} (K + leaked (perform_loses key msg d))"
proof -
  let ?r = "requests_constructed d" and ?d = "fst (request_from_message d)"
  have "balanced ?d {#?r#} K"
    using assms(1) by (auto simp: balanced_def request_from_message_def less_Suc_eq)
  moreover have "umap_find (http_connection_pool ?d) key = Some c" "perform_loses key msg d = call_loses write_lost key (Unsent ?r msg) ?d"
    using assms(2) by (simp_all add: request_from_message_def perform_loses_def call_loses_def)
  ultimately show ?thesis
    using balanced_call [of ?d "{#?r#}" K key c "sm_write ?r (Then_read ?r msg) (Free_and_drop ?r msg)" write_lost "Unsent ?r msg"]
    by (simp add: objects_of_calls perform_request_def request_from_message_def)
qed

lemma balanced_void:
  assumes "balanced d (void_object cb) K" and "umap_find (http_connection_pool d) key = Some c"
  shows "balanced (call_void key cb d) {#} (K + leaked (void_loses key cb d))"
  using assms balanced_perform [of d K key c] balanced_call [OF assms, of _ connect_lost] balanced_call [OF assms, of _ read_lost]
  by (cases cb) (simp_all add: objects_of_calls)

text \<open>Freeing an object in hand.\<close>

lemma balanced_free:
  assumes "balanced d {#r#} K"
  shows "balanced (free_request r d) {#} K" and "r \<in> set (live_requests d)"
proof -
  have live: "mset (live_requests d) = add_mset r (held d + K)" and d: "distinct (live_requests d)"
    using assms by (simp_all add: balanced_def)
  show "r \<in> set (live_requests d)" by (metis live set_mset_mset union_single_eq_member)
  have "filter (\<lambda>x. x \<noteq> r) (live_requests d) = remove1 r (live_requests d)"
    unfolding distinct_remove1_removeAll [OF d] removeAll_filter_not_eq by (rule filter_cong) auto
  then show "balanced (free_request r d) {#} K" using assms by (simp add: balanced_def free_request_def)
qed

lemma balanced_responses:
  "balanced d (read_object rd) K \<Longrightarrow> balanced (fst (call_response created rd body d)) {#} K"
  "balanced d (error_object ecb) K \<Longrightarrow> balanced (fst (call_error ecb d)) {#} K"
  by (cases rd; simp add: balanced_free) (cases ecb; simp add: balanced_free)

section \<open>Completions and steps\<close>

lemma balanced_void_after_event:
  assumes "balanced d (void_object cb) K" and "umap_find (http_connection_pool d) key = Some c"
    and "connection_objects (f c) = connection_objects c"
  shows "balanced (call_void key cb (on_connection key f d)) {#} (K + leaked (void_loses key cb (on_connection key f d)))"
proof (rule balanced_void)
  show "balanced (on_connection key f d) (void_object cb) K"
    using balanced_event [of d "void_object cb" K key c f "{#}"] assms by simp
  show "umap_find (http_connection_pool (on_connection key f d)) key = Some (f c)"
    by (simp add: on_connection_find assms(2))
qed

lemma balanced_completion:
  assumes "balanced d (object_of op) K" and "umap_find (http_connection_pool d) key = Some c" and "owns op"
  shows "balanced (fst (complete_op created key op r d)) {#} (K + leaked (completion_loses key op r d))"
proof -
  have error: "balanced (fst (call_error ecb (on_connection key f d))) {#} (K + L)"
    if "balanced d (error_object ecb) K" "connection_objects (f c) + L = connection_objects c" for ecb f L
    by (rule balanced_responses(2)) (rule balanced_event [of d "error_object ecb" K key c f L, OF that(1) assms(2) that(2)])
  have quiet_error: "balanced (fst (call_error ecb (on_connection key f d))) {#} K"
    if "balanced d (error_object ecb) K" "connection_objects (f c) = connection_objects c" for ecb f
    using error [of ecb f "{#}"] that by simp
  have response: "balanced (fst (call_response created rd body (on_connection key sm_on_read d))) {#} K"
    if "balanced d (read_object rd) K" for rd body
    using balanced_responses(1) [OF balanced_event [of d "read_object rd" K key c sm_on_read "{#}"]] that assms(2)
    by (simp add: objects_of_events)
  note errors = error [of _ sm_on_write_error, OF _ objects_of_events(7), unfolded leaked_callbacks] error [of _ sm_on_read_error, OF _ objects_of_events(8), unfolded leaked_callbacks]
  note after = balanced_void_after_event [OF _ assms(2)]
  show ?thesis
    using assms
    by (cases op; cases r)
      (simp_all add: after quiet_error errors response objects_of_events)
qed

lemma balanced_finish:
  assumes "balanced d {#} K" and "umap_find (http_connection_pool d) key = Some c" and "i < length (in_flight c)"
  shows "balanced (on_connection key (finish_op i) d) (object_of (in_flight c ! i)) K"
  using assms(1) jobs_finish [OF assms(2,3), of "\<lambda>msg. {#}" void_object read_object]
  by (simp add: balanced_def held_def ac_simps)

lemma balanced_dispatch:
  assumes "balanced d {#} K"
  shows "balanced (dispatch_to key msg d) {#} (K + leaked (dispatch_loses key msg d))"
proof (cases "umap_find (http_connection_pool d) key")
  case None
  define d0 where "d0 = d\<lparr>http_connection_pool := fst (umap_try_emplace key new_connection (http_connection_pool d))\<rparr>"
  have "held d0 = held d" by (simp add: d0_def held_def dispatcher_jobs_def umap_emplace_new [OF None])
  then have d0: "balanced d0 {#} K" using assms by (simp add: balanced_def d0_def)
  have found: "umap_find (http_connection_pool d0) key = Some new_connection"
    by (simp add: d0_def um.find_emplace None)
  show ?thesis
    using balanced_event [of d0 "{#}" K key new_connection "sm_resolve (Then_connect msg) (Drop_request msg)" "{#}", OF d0 found]
    by (simp add: objects_of_calls dispatch_to_def dispatch_loses_def None d0_def)
next
  case (Some c)
  show ?thesis
    using assms balanced_perform [OF assms Some, of msg]
      balanced_event [of d "{#}" K key c "sm_connect (Then_perform msg) (Drop_request msg)" "{#}", OF assms Some]
    by (simp add: dispatch_to_def dispatch_loses_def Some objects_of_calls)
qed

lemma balanced_step:
  assumes "balanced d {#} K" and "dispatcher_all owns d" and "loop_step created ev d = Ok (d', out)"
  shows "balanced d' {#} (K + leaked (step_loses ev d))"
proof (cases ev)
  case Run_posted
  show ?thesis
  proof (cases "posted d")
    case (Cons msg rest)
    obtain key where d': "addressed_to msg key" "d' = dispatch_to key msg (d\<lparr>posted := rest\<rparr>)"
      using assms(3) by (auto simp: Run_posted Cons and_then_Ok_iff elim: dispatcher_handler_Ok)
    have "balanced (d\<lparr>posted := rest\<rparr>) {#} K" using assms(1) by (simp add: balanced_def)
    from balanced_dispatch [OF this, of key msg] show ?thesis
      by (simp add: Run_posted Cons d' endpoint_key_addressed [OF d'(1)])
  qed (use assms Run_posted in simp)
next
  case (Complete key i r)
  show ?thesis
  proof (cases "enabled ev d")
    case True
    then obtain c where c: "umap_find (http_connection_pool d) key = Some c" "i < length (in_flight c)"
      by (auto simp: Complete enabled_def split: option.splits)
    define op d0 where "op = in_flight c ! i" and "d0 = on_connection key (finish_op i) d"
    have "d' = fst (complete_op created key op r d0)"
      using assms(3) by (simp add: Complete c op_def d0_def)
    moreover have "balanced d0 (object_of op) K" unfolding op_def d0_def by (rule balanced_finish [OF assms(1) c])
    moreover have "owns op" unfolding op_def by (rule dispatcher_all_found [OF assms(2) c])
    moreover have "umap_find (http_connection_pool d0) key = Some (finish_op i c)" by (simp add: d0_def on_connection_find c(1))
    moreover have "step_loses ev d = completion_loses key op r d0" by (simp add: Complete c op_def d0_def)
    ultimately show ?thesis using balanced_completion [of d0 op K key "finish_op i c" created r] by simp
  next
    case False
    then show ?thesis using assms by (auto simp: Complete enabled_def split: option.splits)
  qed
qed

lemma balanced_run:
  assumes "balanced d {#} K" and "dispatcher_all owns d" and "dispatcher_run created evs d = Ok (d', out)"
  shows "balanced d' {#} (K + leaked (run_loses created evs d)) \<and> dispatcher_all owns d'"
  using assms
proof (induction created evs d arbitrary: d' out K rule: dispatcher_run.induct)
  case (2 created msg evs d)
  have "balanced (dispatcher_on_message msg d) {#} K" using "2.prems"(1) by (simp add: balanced_def dispatcher_on_message_def)
  then show ?case using 2 by simp
next
  case (3 created ev evs d)
  obtain d1 out1 out2 where 1: "loop_step created ev d = Ok (d1, out1)" "dispatcher_run created evs d1 = Ok (d', out2)"
    using "3.prems"(3) by (auto simp: and_then_Ok_iff simp del: loop_step.simps)
  show ?case
    using "3.IH" [OF balanced_step [OF "3.prems"(1,2) 1(1)] owning.all_step [OF "3.prems"(2) 1(1)] 1(2)]
    by (simp add: 1 ac_simps del: loop_step.simps step_loses.simps)
qed simp

text \<open>The object an operation in flight refers to, and that its closures will free, is held.\<close>

lemma flying_object_held:
  assumes "umap_find (http_connection_pool d) key = Some c" and "i < length (in_flight c)"
  shows "object_of (in_flight c ! i) \<subseteq># held d"
  using jobs_finish [OF assms, of "\<lambda>msg. {#}" void_object read_object] by (simp add: held_def)

lemma nothing_pending:
  assumes "pending d = {#}"
  shows "held d = {#}"
proof -
  have jobs: "connection_jobs void_message response_callback_message c = {#} \<Longrightarrow> connection_jobs void_object read_object c = {#}"
    for c :: http_connection by (simp add: connection_jobs_def)
  have "(\<Sum>(key, c) \<leftarrow> pool. connection_jobs void_message response_callback_message c) = {#} \<Longrightarrow>
      (\<Sum>(key, c) \<leftarrow> pool. connection_jobs void_object read_object c) = {#}" for pool :: "(http_connection_key, http_connection) umap"
    by (induction pool) (auto simp: jobs)
  then have "dispatcher_jobs (\<lambda>msg. {#}) void_object read_object d = {#}"
    using assms unfolding pending_def dispatcher_jobs_def by simp
  then show ?thesis by (simp add: held_def)
qed

text \<open>
  C9: The request objects of the dispatcher are safe. Whatever requests are submitted to a new dispatcher and in whatever
  order its handlers run and operations complete, succeed or fail: the objects allocated, each once, are
  exactly those held by the operations in flight or waiting and those of the requests lost at the places
  \<open>run_loses\<close> names. So the object an operation in flight refers to, which its closures will free, is allocated, and no
  other operation holds it: none is used after it is freed or freed twice. Once nothing is pending, the objects that
  are never freed are those of the lost requests, no others. (A write that waited is sent from a copy of its object, which
  bears the number of the object.)
\<close>

theorem request_objects_are_safe:
  assumes "dispatcher_run created evs new_http_dispatcher = Ok (d, out)"
  shows "mset (live_requests d) = held d + leaked (run_loses created evs new_http_dispatcher) \<and> distinct (live_requests d) \<and>
    (\<forall>key c i. umap_find (http_connection_pool d) key = Some c \<and> i < length (in_flight c) \<longrightarrow>
       owns (in_flight c ! i) \<and> object_of (in_flight c ! i) \<subseteq># mset (live_requests d) - leaked (run_loses created evs new_http_dispatcher)) \<and>
    (pending d = {#} \<longrightarrow> mset (live_requests d) = leaked (run_loses created evs new_http_dispatcher))"
proof -
  have "balanced new_http_dispatcher {#} {#}" by (simp add: balanced_def new_http_dispatcher_def held_def dispatcher_jobs_def)
  from balanced_run [OF this _ assms] have "balanced d {#} (leaked (run_loses created evs new_http_dispatcher))" "dispatcher_all owns d"
    by simp_all
  then show ?thesis
    using flying_object_held [of d] dispatcher_all_found [of owns d] nothing_pending [of d] by (auto simp: balanced_def)
qed

text \<open>A second request, sent while the first is being written, waits first in line: it is popped unsent, and its object 1 leaks.\<close>

theorem request_objects_are_safe_witness:
  "\<exists>d. dispatcher_run example_response
      [Submit example_dispatch, Loop Run_posted, Loop (Complete (False, ''h'', ''80'') 0 (Succeeded [])),
       Loop (Complete (False, ''h'', ''80'') 0 (Succeeded [])), Submit example_dispatch, Loop Run_posted] new_http_dispatcher = Ok (d, []) \<and>
     live_requests d = [0, 1] \<and> {#0, 1#} = {#0#} + leaked (run_loses example_response
      [Submit example_dispatch, Loop Run_posted, Loop (Complete (False, ''h'', ''80'') 0 (Succeeded [])),
       Loop (Complete (False, ''h'', ''80'') 0 (Succeeded [])), Submit example_dispatch, Loop Run_posted] new_http_dispatcher)"
proof -
  let ?key = "(False, ''h'', ''80'')" and ?msg = example_dispatch
  let ?ok = "Loop (Complete ?key 0 (Succeeded []))"
  let ?evs = "[Submit ?msg, Loop Run_posted, ?ok, ?ok, Submit ?msg, Loop Run_posted]"
  let ?d = "\<lparr>http_connection_pool = [(?key, \<lparr>current_state = writing, write_queue = [(1, Then_read 1 ?msg, Free_and_drop 1 ?msg)],
      read_queue = [], in_flight = [Async_write 0 (Then_read 0 ?msg) (Free_and_drop 0 ?msg)]\<rparr>)],
    requests_constructed = 2, live_requests = [0, 1], posted = []\<rparr>"
  have run: "dispatcher_run example_response ?evs new_http_dispatcher = Ok (?d, [])"
    by (simp add: handler_addressed [OF example_addressed] dispatcher_on_message_def new_http_dispatcher_def dispatch_to_def
        on_connection_def umap_try_emplace_def umap_insert_or_assign_def umap_find_def machine_all new_connection_def
        perform_request_def request_from_message_def)
  have "held ?d = {#0#}" by (simp add: held_def dispatcher_jobs_def connection_jobs_def)
  then show ?thesis using request_objects_are_safe [OF run] run by (simp del: dispatcher_run.simps run_loses.simps)
qed

end
