(* ===== verification/Dead_End_Points.thy ===== *)
theory Dead_End_Points
  imports Dispatcher_Accounting
begin

text \<open>
  What becomes of an end point whose connection could not be set up: over all runs of the dispatcher a connection has at most one resolve or connect
  in flight, which its state names; when that fails, no later event brings the connection back.
\<close>

section \<open>Setting a connection up\<close>

definition set_up_kinds :: "('req, 'cb, 'rd, 'ecb) connection \<Rightarrow> STATE_ID list" where
  "set_up_kinds c = filter (\<lambda>k. k \<in> {resolving, connecting}) (map op_kind (in_flight c))"

text \<open>The state names the operation that sets the connection up.\<close>

definition set_up_inv :: "('req, 'cb, 'rd, 'ecb) connection \<Rightarrow> bool" where
  "set_up_inv c \<longleftrightarrow> set_up_kinds c = (if current_state c \<in> {resolving, connecting} then [current_state c] else [])"

lemma set_up_new: "set_up_inv new_connection"
  by (simp add: set_up_inv_def set_up_kinds_def new_connection_def)

lemma set_up_calls:
  assumes "set_up_inv c"
  shows "set_up_inv (sm_resolve cb ecb c)" "set_up_inv (sm_connect cb ecb c)"
    "set_up_inv (sm_write req cb ecb c)" "set_up_inv (sm_read rd ecb c)"
  using assms
  by (auto simp: set_up_inv_def set_up_kinds_def machine_calls state_handlers enter_def start_op_def split: STATE_ID.splits)

lemma set_up_leads:
  assumes "set_up_inv c" and "leads c c' s ks"
    and "current_state c = s \<and> ks = [] \<or> {current_state c, s} \<inter> {resolving, connecting} = {} \<and> set ks \<subseteq> {writing, reading}"
  shows "set_up_inv c'"
proof -
  have "filter (\<lambda>k. k \<in> {resolving, connecting}) ks = []" using assms(3) by (auto simp: filter_empty_conv)
  then have "set_up_kinds c' = set_up_kinds c" "current_state c' = s"
    using assms(2) by (simp_all add: leads_def set_up_kinds_def del: insert_iff)
  then show ?thesis using assms(1,3) by (auto simp: set_up_inv_def)
qed

lemma set_up_stream_events:
  assumes "set_up_inv c"
  shows "set_up_inv (sm_on_write c)" "set_up_inv (sm_on_write_error c)" "set_up_inv (sm_on_read c)" "set_up_inv (sm_on_read_error c)"
proof -
  note leads = set_up_leads [OF assms] and c = completion_leads [of c]
  show "set_up_inv (sm_on_write c)"
    by (cases "current_state c") (use c(1,2,7) in \<open>auto intro: leads\<close>)
  show "set_up_inv (sm_on_write_error c)"
    by (cases "current_state c") (use c(5,7) in \<open>auto intro: leads\<close>)
  show "set_up_inv (sm_on_read c)"
    by (cases "current_state c") (use c(3,4,8) in \<open>auto intro: leads\<close>)
  show "set_up_inv (sm_on_read_error c)"
    by (cases "current_state c") (use c(6,8) in \<open>auto intro: leads\<close>)
qed

lemma kinds_without:
  assumes "i < length ks"
  shows "filter P ks = filter P (take i ks) @ (if P (ks ! i) then [ks ! i] else []) @ filter P (drop (Suc i) ks)"
proof -
  have "filter P (take i ks @ ks ! i # drop (Suc i) ks) =
      filter P (take i ks) @ (if P (ks ! i) then [ks ! i] else []) @ filter P (drop (Suc i) ks)" by simp
  then show ?thesis unfolding id_take_nth_drop [OF assms, symmetric] .
qed

lemma finish_set_up:
  assumes "set_up_inv c" and "i < length (in_flight c)"
  shows "op_kind (in_flight c ! i) \<in> {resolving, connecting} \<Longrightarrow>
      set_up_kinds (finish_op i c) = [] \<and> current_state c = op_kind (in_flight c ! i)"
    and "op_kind (in_flight c ! i) \<notin> {resolving, connecting} \<Longrightarrow> set_up_inv (finish_op i c)"
proof -
  let ?P = "\<lambda>k. k \<in> {resolving, connecting}" and ?ks = "map op_kind (in_flight c)"
  have left: "set_up_kinds (finish_op i c) = filter ?P (take i ?ks) @ filter ?P (drop (Suc i) ?ks)"
    by (simp add: set_up_kinds_def finish_kinds del: insert_iff)
  have all: "set_up_kinds c = filter ?P (take i ?ks) @ (if ?P (?ks ! i) then [?ks ! i] else []) @ filter ?P (drop (Suc i) ?ks)"
    unfolding set_up_kinds_def using assms(2) by (intro kinds_without) simp
  { assume "op_kind (in_flight c ! i) \<in> {resolving, connecting}"
    then show "set_up_kinds (finish_op i c) = [] \<and> current_state c = op_kind (in_flight c ! i)"
      using all assms left by (auto simp: set_up_inv_def Cons_eq_append_conv append_eq_Cons_conv split: if_splits) }
  { assume "op_kind (in_flight c ! i) \<notin> {resolving, connecting}"
    then show "set_up_inv (finish_op i c)" using all assms left by (simp add: set_up_inv_def) }
qed

lemma set_up_completed:
  assumes "set_up_inv c" and "i < length (in_flight c)"
  defines "c1 \<equiv> finish_op i c"
  shows "op_kind (in_flight c ! i) = resolving \<Longrightarrow> set_up_inv (sm_on_resolve c1) \<and> set_up_inv (sm_on_resolve_failed c1)"
    and "op_kind (in_flight c ! i) = connecting \<Longrightarrow> set_up_inv (sm_on_connect c1) \<and> set_up_inv (sm_on_connect_failed c1)"
    and "op_kind (in_flight c ! i) = writing \<Longrightarrow> set_up_inv (sm_on_write c1) \<and> set_up_inv (sm_on_write_error c1)"
    and "op_kind (in_flight c ! i) = reading \<Longrightarrow> set_up_inv (sm_on_read c1) \<and> set_up_inv (sm_on_read_error c1)"
proof -
  note finished = finish_set_up [OF assms(1,2), folded c1_def]
  have state: "current_state c1 = current_state c" by (simp add: c1_def)
  { assume "op_kind (in_flight c ! i) = resolving"
    then show "set_up_inv (sm_on_resolve c1) \<and> set_up_inv (sm_on_resolve_failed c1)"
      using finished(1) state by (simp add: set_up_inv_def set_up_kinds_def sm_on_resolve_def sm_on_resolve_failed_def
          resolving_on_resolve_def resolving_on_resolve_failed_def enter_def) }
  { assume "op_kind (in_flight c ! i) = connecting"
    then show "set_up_inv (sm_on_connect c1) \<and> set_up_inv (sm_on_connect_failed c1)"
      using finished(1) state by (simp add: set_up_inv_def set_up_kinds_def sm_on_connect_def sm_on_connect_failed_def
          connecting_on_connect_def connecting_on_connect_failed_def enter_def) }
  { assume "op_kind (in_flight c ! i) = writing"
    then show "set_up_inv (sm_on_write c1) \<and> set_up_inv (sm_on_write_error c1)"
      using finished(2) by (simp add: set_up_stream_events) }
  { assume "op_kind (in_flight c ! i) = reading"
    then show "set_up_inv (sm_on_read c1) \<and> set_up_inv (sm_on_read_error c1)"
      using finished(2) by (simp add: set_up_stream_events) }
qed

section \<open>All connections of a dispatcher\<close>

definition pool_set_up :: "http_dispatcher \<Rightarrow> bool" where
  "pool_set_up d \<longleftrightarrow> (\<forall>key c. umap_find (http_connection_pool d) key = Some c \<longrightarrow> set_up_inv c)"

lemma pool_set_upD: "pool_set_up d \<Longrightarrow> umap_find (http_connection_pool d) key = Some c \<Longrightarrow> set_up_inv c"
  by (cases key) (simp add: pool_set_up_def)

lemma pool_set_up_on:
  "pool_set_up d \<Longrightarrow> (\<And>c. umap_find (http_connection_pool d) key = Some c \<Longrightarrow> set_up_inv c \<Longrightarrow> set_up_inv (f c)) \<Longrightarrow>
   pool_set_up (on_connection key f d)"
  by (auto simp: pool_set_up_def on_connection_find)

lemma pool_set_up_perform: "pool_set_up d \<Longrightarrow> pool_set_up (perform_request key msg d)"
  unfolding perform_request_def request_from_message_def Let_def prod.case
  by (rule pool_set_up_on) (auto simp: pool_set_up_def set_up_calls)

lemma pool_set_up_void: "pool_set_up d \<Longrightarrow> pool_set_up (call_void key cb d)"
  by (cases cb) (auto intro!: pool_set_up_on pool_set_up_perform set_up_calls)

lemma pool_set_up_others:
  "pool_set_up (fst (call_response created rd body d)) = pool_set_up d" "pool_set_up (fst (call_error ecb d)) = pool_set_up d"
  by (cases rd; simp add: pool_set_up_def free_request_def) (cases ecb; simp add: pool_set_up_def free_request_def)

lemma pool_set_up_dispatch: "pool_set_up d \<Longrightarrow> pool_set_up (dispatch_to key msg d)"
  unfolding dispatch_to_def
  by (auto split: option.splits intro!: pool_set_up_on pool_set_up_perform set_up_calls)
    (auto simp: pool_set_up_def um.find_emplace set_up_new split: if_splits)

lemma pool_set_up_complete:
  assumes "pool_set_up d" and "umap_find (http_connection_pool d) key = Some c" and "i < length (in_flight c)"
  shows "pool_set_up (fst (complete_op created key (in_flight c ! i) r (on_connection key (finish_op i) d)))"
proof -
  have "set_up_inv c" by (rule pool_set_upD [OF assms(1,2)])
  note completed = set_up_completed [OF this assms(3)]
  have on: "pool_set_up (on_connection key f (on_connection key (finish_op i) d))" if "set_up_inv (f (finish_op i c))" for f
    using assms(1,2) that by (auto simp: pool_set_up_def on_connection_find)
  show ?thesis
    using completed by (cases "in_flight c ! i"; cases r) (simp_all add: pool_set_up_void pool_set_up_others on)
qed

lemma pool_set_up_step:
  assumes "pool_set_up d" and "loop_step created ev d = Ok (d', out)"
  shows "pool_set_up d'"
proof (cases ev)
  case Run_posted
  have "pool_set_up (d\<lparr>posted := rest\<rparr>)" for rest using assms(1) by (simp add: pool_set_up_def)
  then show ?thesis
    using assms by (cases "posted d") (auto simp: Run_posted and_then_Ok_iff pool_set_up_dispatch elim!: dispatcher_handler_Ok)
next
  case (Complete key i r)
  then show ?thesis
    using assms pool_set_up_complete [OF assms(1), of key _ i created r]
    by (auto split: option.splits if_splits)
qed

lemma pool_set_up_run:
  "pool_set_up d \<Longrightarrow> dispatcher_run created evs d = Ok (d', out) \<Longrightarrow> pool_set_up d'"
proof (induction created evs d arbitrary: out rule: dispatcher_run.induct)
  case (2 created msg evs d)
  then show ?case by (simp add: pool_set_up_def dispatcher_on_message_def)
next
  case (3 created ev evs d)
  then show ?case by (auto simp: and_then_Ok_iff simp del: loop_step.simps dest: pool_set_up_step)
qed simp

section \<open>Dead end points\<close>

text \<open>A connection that has failed to resolve or connect; reads and writes of an earlier time may still be in flight.\<close>

definition stuck :: "('req, 'cb, 'rd, 'ecb) connection \<Rightarrow> bool" where
  "stuck c \<longleftrightarrow> current_state c \<in> {not_connected, error_state} \<and> set_up_kinds c = []"

definition dead :: "http_dispatcher \<Rightarrow> http_connection_key \<Rightarrow> bool" where
  "dead d key \<longleftrightarrow> (\<exists>c. umap_find (http_connection_pool d) key = Some c \<and> stuck c)"

lemma stuck_ignores:
  assumes "current_state c \<in> {not_connected, error_state}"
  shows "sm_connect cb ecb c = c" "sm_write req cb ecb c = c" "sm_read rd ecb c = c" "sm_on_write c = c" "sm_on_write_error c = c"
    "sm_on_read c = c" "sm_on_read_error c = c"
  using assms by (auto simp: machine_calls machine_events base_state_default_def enter_def)

lemma stuck_finish:
  assumes "stuck c" and "i < length (in_flight c)"
  shows "op_kind (in_flight c ! i) \<notin> {resolving, connecting}" and "stuck (finish_op i c)"
proof -
  have inv: "set_up_inv c" using assms(1) by (auto simp: stuck_def set_up_inv_def)
  show kind: "op_kind (in_flight c ! i) \<notin> {resolving, connecting}"
  proof
    assume "op_kind (in_flight c ! i) \<in> {resolving, connecting}"
    then show False using finish_set_up(1) [OF inv assms(2)] assms(1) by (auto simp: stuck_def)
  qed
  show "stuck (finish_op i c)"
    using finish_set_up(2) [OF inv assms(2) kind] assms(1) by (auto simp: stuck_def set_up_inv_def)
qed

text \<open>The failure that makes an end point dead.\<close>

lemma failed_set_up:
  assumes "pool_set_up d" and "umap_find (http_connection_pool d) key = Some c" and "i < length (in_flight c)"
    and "op_kind (in_flight c ! i) \<in> {resolving, connecting}" and "loop_step created (Complete key i Failed) d = Ok (d', out)"
  shows "dead d' key \<and> (\<exists>msg. out = [Dropped_requests_out msg])"
proof -
  have finished: "set_up_kinds (finish_op i c) = []" "current_state c = op_kind (in_flight c ! i)"
    using finish_set_up(1) [OF pool_set_upD [OF assms(1,2)] assms(3,4)] by simp_all
  have after: "dead (fst (call_error ecb (on_connection key f (on_connection key (finish_op i) d)))) key"
    if "stuck (f (finish_op i c))" for f ecb
  proof -
    have "http_connection_pool (fst (call_error ecb d)) = http_connection_pool d" for d by (cases ecb) (simp_all add: free_request_def)
    then show ?thesis using assms(2) that by (simp add: dead_def on_connection_find)
  qed
  have reported: "\<exists>msg. snd (call_error ecb d) = [Dropped_requests_out msg]" for ecb d by (cases ecb) simp_all
  have r: "stuck (sm_on_resolve_failed (finish_op i c))" if "op_kind (in_flight c ! i) = resolving"
    using finished that by (simp add: stuck_def set_up_kinds_def sm_on_resolve_failed_def resolving_on_resolve_failed_def enter_def)
  have c: "stuck (sm_on_connect_failed (finish_op i c))" if "op_kind (in_flight c ! i) = connecting"
    using finished that by (simp add: stuck_def set_up_kinds_def sm_on_connect_failed_def connecting_on_connect_failed_def enter_def)
  have step: "complete_op created key (in_flight c ! i) Failed (on_connection key (finish_op i) d) = (d', out)"
    using assms(2,3,5) by simp
  show ?thesis
  proof (cases "in_flight c ! i")
    case (Async_resolve cb ecb)
    then show ?thesis using step after [of sm_on_resolve_failed ecb] r reported [of ecb] by (simp add: prod_eq_iff) metis
  next
    case (Async_connect cb ecb)
    then show ?thesis using step after [of sm_on_connect_failed ecb] c reported [of ecb] by (simp add: prod_eq_iff) metis
  qed (use assms(4) in simp_all)
qed

lemma handler_other_key:
  assumes "addressed_to msg key'" and "key' \<noteq> key" and "dispatcher_handler msg d = Ok d'"
  shows "umap_find (http_connection_pool d') key = umap_find (http_connection_pool d) key"
  using assms
  by (cases key') (auto simp: addressed_to_def dispatcher_handler_def perform_request_def request_from_message_def Let_def
      on_connection_find um.find_emplace split: option.splits if_splits)

lemma handler_dead:
  assumes "addressed_to msg key" and "dead d key"
  shows "dispatcher_handler msg d = Ok d"
  using assms by (auto simp: handler_addressed dispatch_to_def dead_def stuck_def)

lemma complete_op_other_key:
  "key' \<noteq> key \<Longrightarrow> umap_find (http_connection_pool (fst (complete_op created key' op r (on_connection key' f d)))) key =
     umap_find (http_connection_pool d) key"
proof -
  assume ne: "key' \<noteq> key"
  have v: "umap_find (http_connection_pool (call_void key' cb d)) key = umap_find (http_connection_pool d) key" for cb d
    using ne by (cases cb) (simp_all add: on_connection_find perform_request_def request_from_message_def)
  have e: "http_connection_pool (fst (call_error ecb d)) = http_connection_pool d" for ecb d
    by (cases ecb) (simp_all add: free_request_def)
  have rr: "http_connection_pool (fst (call_response created rd b d)) = http_connection_pool d" for rd b d
    by (cases rd) (simp add: free_request_def)
  show ?thesis
    using ne by (cases op; cases r) (simp_all add: v e rr on_connection_find)
qed

lemma complete_op_dead:
  assumes "dead d key" and "umap_find (http_connection_pool d) key = Some c" and "i < length (in_flight c)"
  shows "dead (fst (complete_op created key (in_flight c ! i) r (on_connection key (finish_op i) d))) key"
proof -
  have c: "stuck c" using assms(1,2) by (simp add: dead_def)
  note finished = stuck_finish [OF c assms(3)]
  define d0 where "d0 = on_connection key (finish_op i) d"
  have d0: "dead d0 key" using assms(2) finished(2) by (simp add: dead_def d0_def on_connection_find)
  have on: "dead (on_connection key f e) key" if "dead e key" "\<And>c. stuck c \<Longrightarrow> f c = c" for f e
    using that by (auto simp: dead_def on_connection_find)
  have ignores: "stuck c \<Longrightarrow> sm_connect cb ecb c = c" "stuck c \<Longrightarrow> sm_write req cb ecb c = c" "stuck c \<Longrightarrow> sm_read rd ecb c = c"
    "stuck c \<Longrightarrow> sm_on_write c = c" "stuck c \<Longrightarrow> sm_on_write_error c = c" "stuck c \<Longrightarrow> sm_on_read c = c"
    "stuck c \<Longrightarrow> sm_on_read_error c = c" for c :: http_connection and cb ecb req rd
    by (simp_all add: stuck_def stuck_ignores)
  have v: "dead (call_void key cb e) key" if "dead e key" for cb e
  proof (cases cb)
    case (Then_perform msg)
    have "dead (fst (request_from_message e)) key" using that by (simp add: dead_def request_from_message_def)
    then show ?thesis using on ignores by (simp add: Then_perform perform_request_def request_from_message_def)
  qed (use on that ignores in simp_all)
  have others: "dead (fst (call_response created rd b e)) key = dead e key" "dead (fst (call_error ecb e)) key = dead e key" for rd b ecb e
    by (cases rd; simp add: dead_def free_request_def) (cases ecb; simp add: dead_def free_request_def)
  show ?thesis
    using finished(1) d0 unfolding d0_def [symmetric]
    by (cases "in_flight c ! i"; cases r) (simp_all add: v others on ignores)
qed

lemma dead_step:
  assumes "dead d key" and "loop_step created ev d = Ok (d', out)"
  shows "dead d' key"
proof (cases ev)
  case Run_posted
  show ?thesis
  proof (cases "posted d")
    case Nil
    then show ?thesis using assms by (simp add: Run_posted)
  next
    case (Cons msg rest)
    define d0 where "d0 = d\<lparr>posted := rest\<rparr>"
    have d0: "dead d0 key" using assms(1) by (simp add: dead_def d0_def)
    have h: "dispatcher_handler msg d0 = Ok d'"
      using assms(2) by (auto simp: Run_posted Cons d0_def and_then_Ok_iff)
    then obtain key' where to: "addressed_to msg key'" by (rule dispatcher_handler_Ok)
    show ?thesis
    proof (cases "key' = key")
      case True
      then show ?thesis using handler_dead [of msg key d0] to d0 h by simp
    next
      case False
      from handler_other_key [OF to False h] show ?thesis using d0 by (simp add: dead_def)
    qed
  qed
next
  case (Complete key' i r)
  show ?thesis
  proof (cases "key' = key")
    case True
    then show ?thesis
      using assms complete_op_dead [OF assms(1), of _ i created r]
      by (auto simp: Complete split: option.splits if_splits)
  next
    case False
    then show ?thesis
      using assms complete_op_other_key [OF False]
      by (auto simp: Complete dead_def split: option.splits if_splits) (metis fst_conv)+
  qed
qed

lemma dead_run:
  "dead d key \<Longrightarrow> dispatcher_run created evs d = Ok (d', out) \<Longrightarrow> dead d' key"
proof (induction created evs d arbitrary: out rule: dispatcher_run.induct)
  case (2 created msg evs d)
  then show ?case by (simp add: dead_def dispatcher_on_message_def)
next
  case (3 created ev evs d)
  then show ?case by (auto simp: and_then_Ok_iff simp del: loop_step.simps dest: dead_step)
qed simp



end
