(* ===== verification/Response_Matching.thy ===== *)
theory Response_Matching
  imports Dispatcher_Accounting
begin

text \<open>
  Which response goes to which request. A back end that speaks HTTP/1.1 answers the requests of a connection in the
  order in which it receives them, and the dispatcher sends them on one stream; so the dispatcher must read the
  responses in that order, one for each request. Here the dispatcher of \<open>Http_Dispatcher\<close> runs against
  such a back end, over one connection whose operations succeed.
\<close>

section \<open>A back end\<close>

text \<open>
  \<open>reply r\<close> is the body the back end answers to the request object \<open>r\<close>. The backlog holds the requests it has
  received and whose responses have not been read from the stream yet. A read with an empty backlog waits.
\<close>

datatype exchange_event = Request_arrives http_request_message | Completes nat

fun exchange_step ::
  "(nat \<Rightarrow> string) \<Rightarrow> http_response_message \<Rightarrow> http_connection_key \<Rightarrow> exchange_event \<Rightarrow> http_dispatcher \<times> nat list
     \<Rightarrow> ((http_dispatcher \<times> nat list) \<times> dispatcher_out list) cxx"
where
  "exchange_step reply created key (Request_arrives msg) (d, backlog) =
     and_then (loop_step created Run_posted (dispatcher_on_message msg d)) (\<lambda>(d', out). Ok ((d', backlog), out))"
| "exchange_step reply created key (Completes i) (d, backlog) =
     (case umap_find (http_connection_pool d) key of
        None \<Rightarrow> Ok ((d, backlog), [])
      | Some c \<Rightarrow>
          (case drop i (in_flight c) of
             [] \<Rightarrow> Ok ((d, backlog), [])
           | Async_write req _ _ # _ \<Rightarrow>
               and_then (loop_step created (Complete key i (Succeeded [])) d) (\<lambda>(d', out). Ok ((d', backlog @ [req]), out))
           | Async_read _ _ # _ \<Rightarrow>
               (case backlog of
                  [] \<Rightarrow> Ok ((d, backlog), [])
                | r # rs \<Rightarrow>
                    and_then (loop_step created (Complete key i (Succeeded (reply r))) d) (\<lambda>(d', out). Ok ((d', rs), out)))
           | _ # _ \<Rightarrow>
               and_then (loop_step created (Complete key i (Succeeded [])) d) (\<lambda>(d', out). Ok ((d', backlog), out))))"

fun exchange_run ::
  "(nat \<Rightarrow> string) \<Rightarrow> http_response_message \<Rightarrow> http_connection_key \<Rightarrow> exchange_event list \<Rightarrow> http_dispatcher \<times> nat list
     \<Rightarrow> ((http_dispatcher \<times> nat list) \<times> dispatcher_out list) cxx"
where
  "exchange_run reply created key [] s = Ok (s, [])"
| "exchange_run reply created key (ev # evs) s =
     and_then (exchange_step reply created key ev s) (\<lambda>(s', out).
       and_then (exchange_run reply created key evs s') (\<lambda>(s'', out'). Ok (s'', out @ out')))"

lemma exchange_run_append:
  "exchange_run reply created key (evs @ evs') s =
     and_then (exchange_run reply created key evs s) (\<lambda>(s', out).
       and_then (exchange_run reply created key evs' s') (\<lambda>(s'', out'). Ok (s'', out @ out')))"
proof (induction evs arbitrary: s)
  case Nil
  show ?case by (cases "exchange_run reply created key evs' s") auto
next
  case (Cons ev evs)
  show ?case
    by (cases "exchange_step reply created key ev s")
      (auto simp: Cons.IH split_beta)
qed

text \<open>
  Serial use waits for the response of each request before the next one arrives. Two requests overlap when the second arrives,
  and is sent, while the response of the first is being read.
\<close>

definition serial :: "http_request_message list \<Rightarrow> exchange_event list" where
  "serial msgs = concat (map (\<lambda>msg. [Request_arrives msg, Completes 0, Completes 0]) msgs)"

definition overlapping :: "http_request_message \<Rightarrow> http_request_message \<Rightarrow> exchange_event list" where
  "overlapping a b = [Request_arrives a, Completes 0, Request_arrives b, Completes 1, Completes 0]"

definition response_to :: "http_response_message \<Rightarrow> http_request_message \<Rightarrow> string \<Rightarrow> dispatcher_out" where
  "response_to created msg body =
     Http_response_out (created\<lparr>response_body := body, return_code := 200, request_message := msg\<rparr>)"

section \<open>One exchange\<close>

abbreviation idle_connection :: http_connection where
  "idle_connection \<equiv> new_connection\<lparr>current_state := connected\<rparr>"

definition ready :: "http_dispatcher \<Rightarrow> http_connection_key \<Rightarrow> nat list \<Rightarrow> nat \<Rightarrow> bool" where
  "ready d key live n \<longleftrightarrow> at d key idle_connection live n \<and> (\<forall>r \<in> set live. r < n)"

lemma request_arrives:
  assumes "addressed_to msg key" and "at d key c live n" and "current_state c \<in> {connected, reading}"
  obtains d' where "exchange_step reply created key (Request_arrives msg) (d, backlog) = Ok ((d', backlog), [])"
    and "at d' key (sm_write n (Then_read n msg) (Free_and_drop n msg) c) (live @ [n]) (Suc n)"
proof
  let ?d = "perform_request key msg d"
  have d: "(dispatcher_on_message msg d)\<lparr>posted := []\<rparr> = d" "posted (dispatcher_on_message msg d) = [msg]"
    using assms(2) by (simp_all add: dispatcher_on_message_def at_def)
  have "dispatch_to key msg d = ?d" using assms(2,3) by (auto simp: dispatch_to_def at_def)
  then show "exchange_step reply created key (Request_arrives msg) (d, backlog) = Ok ((?d, backlog), [])"
    by (simp add: d handler_addressed [OF assms(1)])
  show "at ?d key (sm_write n (Then_read n msg) (Free_and_drop n msg) c) (live @ [n]) (Suc n)"
    using assms(2) by (simp add: perform_request_def request_from_message_def at_def on_connection_find)
qed

lemma drop_nth: "drop i xs = y # ys \<Longrightarrow> i < length xs \<and> xs ! i = y"
  by (metis drop_eq_Nil hd_drop_conv_nth linorder_not_le list.discI list.sel(1))

lemma write_completes:
  assumes "at d key c live n" and "drop i (in_flight c) = Async_write r (Then_read r msg) ecb # ops"
  obtains d' where "exchange_step reply created key (Completes i) (d, backlog) = Ok ((d', backlog @ [r]), [])"
    and "at d' key (sm_read (Relay_response r msg) (Free_and_drop r msg) (sm_on_write (finish_op i c))) live n"
proof
  let ?d = "call_void key (Then_read r msg) (on_connection key sm_on_write (on_connection key (finish_op i) d))"
  show "exchange_step reply created key (Completes i) (d, backlog) = Ok ((?d, backlog @ [r]), [])"
    using assms drop_nth [OF assms(2)] by (simp add: at_def)
  show "at ?d key (sm_read (Relay_response r msg) (Free_and_drop r msg) (sm_on_write (finish_op i c))) live n"
    using assms(1) by (simp add: at_def on_connection_find)
qed

lemma read_completes:
  assumes "at d key c live n" and "drop i (in_flight c) = Async_read (Relay_response r msg) ecb # ops"
  obtains d' where "exchange_step reply created key (Completes i) (d, b # backlog) =
      Ok ((d', backlog), [response_to created msg (reply b)])"
    and "at d' key (sm_on_read (finish_op i c)) (filter (\<lambda>x. x \<noteq> r) live) n"
proof
  let ?d = "free_request r (on_connection key sm_on_read (on_connection key (finish_op i) d))"
  show "exchange_step reply created key (Completes i) (d, b # backlog) = Ok ((?d, backlog), [response_to created msg (reply b)])"
    using assms drop_nth [OF assms(2)] by (simp add: at_def response_to_def)
  show "at ?d key (sm_on_read (finish_op i c)) (filter (\<lambda>x. x \<noteq> r) live) n"
    using assms(1) by (simp add: at_def on_connection_find free_request_def)
qed

text \<open>Used serially, a connection pairs each request with the first response that has not been read yet.\<close>

lemma serial_one:
  assumes "addressed_to msg key" and "ready d key live n"
  shows "\<exists>d'. exchange_run reply created key (serial [msg]) (d, backlog) =
      Ok ((d', tl (backlog @ [n])), [response_to created msg (reply (hd (backlog @ [n])))]) \<and> ready d' key live (Suc n)"
proof -
  have live: "filter (\<lambda>x. x \<noteq> n) live = live" using assms(2) by (auto simp: ready_def filter_id_conv)
  have c: "at d key idle_connection live n" using assms(2) by (simp add: ready_def)
  obtain d1 where 1: "exchange_step reply created key (Request_arrives msg) (d, backlog) = Ok ((d1, backlog), [])"
    "at d1 key (sm_write n (Then_read n msg) (Free_and_drop n msg) idle_connection) (live @ [n]) (Suc n)"
    by (rule request_arrives [OF assms(1) c]) simp
  obtain d2 where 2: "exchange_step reply created key (Completes 0) (d1, backlog) = Ok ((d2, backlog @ [n]), [])"
    "at d2 key (idle_connection\<lparr>current_state := reading, in_flight := [Async_read (Relay_response n msg) (Free_and_drop n msg)]\<rparr>)
      (live @ [n]) (Suc n)"
    by (rule write_completes [OF 1(2), of 0 n msg "Free_and_drop n msg" "[]"])
      (simp_all add: machine_all new_connection_def)
  obtain b bs where b: "backlog @ [n] = b # bs" by (cases "backlog @ [n]") auto
  obtain d3 where 3: "exchange_step reply created key (Completes 0) (d2, b # bs) = Ok ((d3, bs), [response_to created msg (reply b)])"
    "at d3 key idle_connection live (Suc n)"
    by (rule read_completes [OF 2(2), of 0 n msg "Free_and_drop n msg" "[]"])
      (simp_all add: machine_all new_connection_def live)
  have "exchange_run reply created key (serial [msg]) (d, backlog) = Ok ((d3, bs), [response_to created msg (reply b)])"
    using 2(1) 3(1) by (simp add: serial_def 1(1) b del: exchange_step.simps)
  then show ?thesis using 3(2) assms(2) by (auto simp: b ready_def)
qed

text \<open>Of two overlapping requests the second gets no response; the back end's stays on the stream.\<close>

lemma overlap_one:
  assumes "addressed_to a key" and "addressed_to b key" and "ready d key live n"
  shows "\<exists>d'. exchange_run reply created key (overlapping a b) (d, backlog) =
      Ok ((d', tl (backlog @ [n, Suc n])), [response_to created a (reply (hd (backlog @ [n])))]) \<and>
    ready d' key (live @ [Suc n]) (n + 2)"
proof -
  have live: "filter (\<lambda>x. x \<noteq> n) live = live" using assms(3) by (auto simp: ready_def filter_id_conv)
  have c: "at d key idle_connection live n" using assms(3) by (simp add: ready_def)
  obtain d1 where 1: "exchange_step reply created key (Request_arrives a) (d, backlog) = Ok ((d1, backlog), [])"
    "at d1 key (sm_write n (Then_read n a) (Free_and_drop n a) idle_connection) (live @ [n]) (Suc n)"
    by (rule request_arrives [OF assms(1) c]) simp
  obtain d2 where 2: "exchange_step reply created key (Completes 0) (d1, backlog) = Ok ((d2, backlog @ [n]), [])"
    "at d2 key (idle_connection\<lparr>current_state := reading, in_flight := [Async_read (Relay_response n a) (Free_and_drop n a)]\<rparr>)
      (live @ [n]) (Suc n)"
    by (rule write_completes [OF 1(2), of 0 n a "Free_and_drop n a" "[]"])
      (simp_all add: machine_all new_connection_def)
  obtain d3 where 3: "exchange_step reply created key (Request_arrives b) (d2, backlog @ [n]) = Ok ((d3, backlog @ [n]), [])"
    "at d3 key (idle_connection\<lparr>current_state := writing_and_reading,
        in_flight := [Async_read (Relay_response n a) (Free_and_drop n a), Async_write (Suc n) (Then_read (Suc n) b) (Free_and_drop (Suc n) b)]\<rparr>)
      (live @ [n, Suc n]) (n + 2)"
    by (rule request_arrives [OF assms(2) 2(2)]) (simp_all add: machine_all new_connection_def)
  obtain d4 where 4: "exchange_step reply created key (Completes 1) (d3, backlog @ [n]) = Ok ((d4, (backlog @ [n]) @ [Suc n]), [])"
    "at d4 key (idle_connection\<lparr>current_state := reading, in_flight := [Async_read (Relay_response n a) (Free_and_drop n a)],
        read_queue := [(Relay_response (Suc n) b, Free_and_drop (Suc n) b)]\<rparr>)
      (live @ [n, Suc n]) (n + 2)"
    by (rule write_completes [OF 3(2), of 1 "Suc n" b "Free_and_drop (Suc n) b" "[]", where backlog = "backlog @ [n]"])
      (simp_all add: machine_all new_connection_def del: exchange_step.simps append_assoc)
  obtain r rs where r: "(backlog @ [n]) @ [Suc n] = r # rs" "hd (backlog @ [n]) = r" by (cases backlog) auto
  obtain d5 where 5: "exchange_step reply created key (Completes 0) (d4, r # rs) = Ok ((d5, rs), [response_to created a (reply r)])"
    "at d5 key idle_connection (live @ [Suc n]) (n + 2)"
    by (rule read_completes [OF 4(2), of 0 n a "Free_and_drop n a" "[]"])
      (simp_all add: machine_all new_connection_def live)
  have "exchange_run reply created key (overlapping a b) (d, backlog) = Ok ((d5, rs), [response_to created a (reply r)])"
    using 2(1) 3(1) 4(1) 5(1) by (simp add: overlapping_def 1(1) r(1) del: exchange_step.simps append_assoc)
  moreover have "rs = tl (backlog @ [n, Suc n])" using r(1) by simp
  ultimately show ?thesis using 5(2) assms(3) r(2) by (auto simp: ready_def)
qed

section \<open>Responses slip\<close>

text \<open>The responses of a serial run, when the back end has answered the requests \<open>rs\<close>, and then those of the run.\<close>

definition paired :: "(nat \<Rightarrow> string) \<Rightarrow> http_response_message \<Rightarrow> http_request_message list \<Rightarrow> nat list \<Rightarrow> dispatcher_out list" where
  "paired reply created msgs rs = map (\<lambda>(msg, r). response_to created msg (reply r)) (zip msgs rs)"

lemma serial_run:
  assumes "\<forall>msg \<in> set msgs. addressed_to msg key" and "ready d key live n"
    and "rs = backlog @ [n..<n + length msgs]"
  shows "\<exists>d'. exchange_run reply created key (serial msgs) (d, backlog) =
      Ok ((d', drop (length msgs) rs), paired reply created msgs rs) \<and> ready d' key live (n + length msgs)"
  using assms
proof (induction msgs arbitrary: d n backlog rs)
  case Nil
  then show ?case by (auto simp: serial_def paired_def)
next
  case (Cons msg msgs)
  obtain r bs where r: "backlog @ [n] = r # bs" by (cases "backlog @ [n]") auto
  define rs' where "rs' = bs @ [Suc n..<Suc n + length msgs]"
  have "[n..<n + length (msg # msgs)] = [n] @ [Suc n..<Suc n + length msgs]"
    by (simp add: upt_conv_Cons del: upt_Suc)
  then have rs: "rs = r # rs'" unfolding Cons.prems(3) rs'_def using r by (metis append_Cons append_assoc)
  obtain d1 where 1: "exchange_run reply created key (serial [msg]) (d, backlog) = Ok ((d1, bs), [response_to created msg (reply r)])"
    "ready d1 key live (Suc n)"
    using serial_one [of msg key d live n reply created backlog] Cons.prems by (auto simp: r)
  obtain d2 where 2: "exchange_run reply created key (serial msgs) (d1, bs) =
      Ok ((d2, drop (length msgs) rs'), paired reply created msgs rs')" "ready d2 key live (Suc n + length msgs)"
    using Cons.IH [OF _ 1(2) rs'_def] Cons.prems(1) by auto
  have "serial (msg # msgs) = serial [msg] @ serial msgs" by (simp add: serial_def)
  then show ?case using 1(1) 2 by (simp add: exchange_run_append rs paired_def)
qed

lemma paired_append [simp]: "length rs = length msgs \<Longrightarrow> paired reply created msgs (rs @ rs') = paired reply created msgs rs"
  by (simp add: paired_def zip_append2)

lemma responses_slip:
  assumes "ready d key live n" and "\<forall>msg \<in> {a, b} \<union> set msgs. addressed_to msg key"
  shows "(\<exists>d'. exchange_run reply created key (serial msgs) (d, []) =
        Ok ((d', []), paired reply created msgs [n..<n + length msgs]) \<and> ready d' key live (n + length msgs)) \<and>
    (\<exists>d'. exchange_run reply created key (overlapping a b @ serial msgs) (d, []) =
        Ok ((d', [n + 1 + length msgs]),
          response_to created a (reply n) # paired reply created msgs [n + 1..<n + 1 + length msgs]) \<and>
      ready d' key (live @ [n + 1]) (n + 2 + length msgs))"
proof -
  have msgs: "\<forall>msg \<in> set msgs. addressed_to msg key" using assms(2) by blast
  obtain d1 where 1: "exchange_run reply created key (overlapping a b) (d, []) = Ok ((d1, [Suc n]), [response_to created a (reply n)])"
    "ready d1 key (live @ [Suc n]) (n + 2)"
    using overlap_one [of a key b d live n reply created "[]"] assms by auto
  have upt: "[n + 1..<n + 1 + length msgs] @ [n + 1 + length msgs] = [Suc n] @ [n + 2..<n + 2 + length msgs]"
    using upt_conv_Cons [of "Suc n" "n + 2 + length msgs"] by simp
  obtain d2 where 2: "exchange_run reply created key (serial msgs) (d1, [Suc n]) =
      Ok ((d2, [n + 1 + length msgs]), paired reply created msgs [n + 1..<n + 1 + length msgs])"
    "ready d2 key (live @ [Suc n]) (n + 2 + length msgs)"
    using serial_run [OF msgs 1(2) upt, of reply created] by (auto simp del: upt_Suc)
  obtain d3 where "exchange_run reply created key (serial msgs) (d, []) =
      Ok ((d3, []), paired reply created msgs [n..<n + length msgs])" "ready d3 key live (n + length msgs)"
    using serial_run [OF msgs assms(1), of "[n..<n + length msgs]" "[]" reply created] by auto
  then show ?thesis using 1(1) 2 by (auto simp: exchange_run_append)
qed

text \<open>
  Responses keep to their requests only in serial use. From an idle connection whose responses have all been
  read, requests used serially get each its own response. But let once two requests overlap, the second being sent
  while the first waits for its response: the first is answered, the second never is, its request object is
  not freed, and from then on every request of the connection, for ever, is given the response to the one before
  it, so that a client receives what the back end answered to another.
\<close>

theorem responses_slip_after_overlap:
  assumes "ready d key live n" and "\<forall>msg \<in> {a, b} \<union> set msgs. addressed_to msg key"
  shows "(\<exists>d'. exchange_run reply created key (serial msgs) (d, []) =
        Ok ((d', []), paired reply created msgs [n..<n + length msgs]) \<and> ready d' key live (n + length msgs)) \<and>
    (\<exists>d'. exchange_run reply created key (overlapping a b @ serial msgs) (d, []) =
        Ok ((d', [n + 1 + length msgs]),
          response_to created a (reply n) # paired reply created msgs [n + 1..<n + 1 + length msgs]) \<and>
      ready d' key (live @ [n + 1]) (n + 2 + length msgs))"
  using assms by (rule responses_slip)

text \<open>After the first exchange of a new dispatcher its connection is ready.\<close>

lemma ready_after_first:
  assumes "addressed_to msg key"
  obtains d out where "loop_run created (Run_posted # replicate 4 (Complete key 0 (Succeeded body)))
      (dispatcher_on_message msg new_http_dispatcher) = Ok (d, out)" and "ready d key [] 1"
proof -
  have "fresh_for new_http_dispatcher key" by (simp add: fresh_for_def new_http_dispatcher_def)
  from lifecycle_steps [OF assms this, of created body]
  obtain d1 d2 d3 d4 d5 where steps: "loop_step created Run_posted (dispatcher_on_message msg new_http_dispatcher) = Ok (d1, [])"
    "loop_step created (Complete key 0 (Succeeded body)) d1 = Ok (d2, [])"
    "loop_step created (Complete key 0 (Succeeded body)) d2 = Ok (d3, [])"
    "loop_step created (Complete key 0 (Succeeded body)) d3 = Ok (d4, [])"
    "\<exists>out. loop_step created (Complete key 0 (Succeeded body)) d4 = Ok (d5, out)"
    and "at d5 key idle_connection (live_requests new_http_dispatcher) (Suc (requests_constructed new_http_dispatcher))"
    by metis
  then have "ready d5 key [] 1" by (simp add: ready_def new_http_dispatcher_def)
  moreover have "\<exists>out. loop_run created (Run_posted # replicate 4 (Complete key 0 (Succeeded body)))
      (dispatcher_on_message msg new_http_dispatcher) = Ok (d5, out)"
    using steps by (auto simp: eval_nat_numeral simp del: loop_step.simps)
  ultimately show thesis using that by blast
qed

definition dispatch_of :: "string \<Rightarrow> http_request_message" where
  "dispatch_of client = set_field string_alt ''client'' ''name'' client example_dispatch"

lemma dispatch_of_addressed: "addressed_to (dispatch_of client) (False, ''h'', ''80'')"
  using example_addressed by (simp add: dispatch_of_def addressed_to_def)

theorem responses_slip_after_overlap_witness:
  "\<exists>d d'. exchange_run (\<lambda>r. if r = 1 then ''to A'' else if r = 2 then ''to B'' else ''to C'') example_response (False, ''h'', ''80'')
       (overlapping (dispatch_of ''A'') (dispatch_of ''B'') @ serial [dispatch_of ''C'']) (d, []) =
     Ok ((d', [3]), [response_to example_response (dispatch_of ''A'') ''to A'',
       response_to example_response (dispatch_of ''C'') ''to B''])"
proof -
  obtain d where "ready d (False, ''h'', ''80'') [] 1" by (rule ready_after_first [OF example_addressed])
  from responses_slip_after_overlap [OF this, of "dispatch_of ''A''" "dispatch_of ''B''" "[dispatch_of ''C'']"
      "\<lambda>r. if r = 1 then ''to A'' else if r = 2 then ''to B'' else ''to C''" example_response]
  obtain d' where "exchange_run (\<lambda>r. if r = 1 then ''to A'' else if r = 2 then ''to B'' else ''to C'') example_response (False, ''h'', ''80'')
       (overlapping (dispatch_of ''A'') (dispatch_of ''B'') @ serial [dispatch_of ''C'']) (d, []) =
     Ok ((d', [3]), [response_to example_response (dispatch_of ''A'') ''to A'',
       response_to example_response (dispatch_of ''C'') ''to B''])"
    using dispatch_of_addressed by (auto simp: paired_def)
  then show ?thesis by blast
qed

end
