(* ===== verification/Message_Augmentor.thy ===== *)
theory Message_Augmentor
  imports Dynamic_Message Base_Stage
begin

text \<open>
  \<open>src/stages/message_augmentor_stage\<close>: the two augmentors the repository defines, which write fields
  computed from other fields, and the stage that applies a list of augmentors to each message. An
  augmentor is the function it applies, with its configuration.
\<close>

section \<open>The concatenating augmentor\<close>

record concatenating_config =
  field_names :: "(string \<times> string) list"
  separator :: string
  prefix :: string
  postfix :: string
  target_field_group :: string
  target_field_name :: string

text \<open>The text in the string stream after the loop over the fields.\<close>

fun concat_fields ::
  "'z dynamic_message_scheme \<Rightarrow> string \<Rightarrow> (string \<times> string) list \<Rightarrow> string \<Rightarrow> string cxx"
where
  "concat_fields msg sep [] ss = Ok ss"
| "concat_fields msg sep (f # fs) ss =
     and_then (get_field string_alt msg (fst f) (snd f)) (\<lambda>v. concat_fields msg sep fs (ss @ sep @ v))"

definition concatenating_augment ::
  "concatenating_config \<Rightarrow> 'z dynamic_message_scheme \<Rightarrow> 'z dynamic_message_scheme cxx"
where
  "concatenating_augment cfg msg =
     and_then (concat_fields msg (separator cfg) (field_names cfg) (prefix cfg)) (\<lambda>ss.
       let ss' = (if postfix cfg \<noteq> [] then ss @ separator cfg else ss) @ postfix cfg in
       Ok (set_field string_alt (target_field_group cfg) (target_field_name cfg) ss' msg))"

section \<open>The token extracting augmentor\<close>

record token_config =
  token_field :: "string \<times> string"
  token_start :: char
  token_end :: char
  n_tokens :: i32
  target_fields :: "(string \<times> string) list"

text \<open>
  The loop over the characters: \<open>token_in_progress\<close>, the current token, the eight-bit counter and the
  iterator into the target fields, whose end is not tested before it is dereferenced.
\<close>

fun extract_tokens ::
  "token_config \<Rightarrow> string \<Rightarrow> bool \<Rightarrow> string \<Rightarrow> u8 \<Rightarrow> (string \<times> string) list
     \<Rightarrow> 'z dynamic_message_scheme \<Rightarrow> 'z dynamic_message_scheme cxx"
where
  "extract_tokens cfg [] in_progress token n targets msg = Ok msg"
| "extract_tokens cfg (c # cs) in_progress token n targets msg =
     (if in_progress then
        (if c = token_start cfg then Throw (Runtime_error ''Malformed'')
         else if c = token_end cfg then
           (case targets of
              [] \<Rightarrow> Fault (Undefined ''past the end of the target fields'')
            | t # ts \<Rightarrow>
                (let msg' = set_field string_alt (fst t) (snd t) token msg; n' = n + 1 in
                 if uint n' = sint (n_tokens cfg) then Ok msg'
                 else extract_tokens cfg cs False [] n' ts msg'))
         else extract_tokens cfg cs True (token @ [c]) n targets msg)
      else
        (if c = token_end cfg then Throw (Runtime_error ''Malformed'')
         else if c = token_start cfg then extract_tokens cfg cs True token n targets msg
         else extract_tokens cfg cs False token n targets msg))"

definition token_extracting_augment ::
  "token_config \<Rightarrow> 'z dynamic_message_scheme \<Rightarrow> 'z dynamic_message_scheme cxx"
where
  "token_extracting_augment cfg msg =
     and_then (get_field string_alt msg (fst (token_field cfg)) (snd (token_field cfg))) (\<lambda>field_value.
       extract_tokens cfg field_value False [] 0 (target_fields cfg) msg)"

section \<open>The stage\<close>

text \<open>\<open>MessageAugmentor\<close>, its getters and \<open>operator()\<close>: the operator applied to the configuration.\<close>

record ('c, 'm) message_augmentor =
  augmentor_name :: string
  augmentor_description :: string
  configuration :: 'c
  augment_operator :: "'c \<Rightarrow> 'm \<Rightarrow> 'm cxx"

definition new_message_augmentor ::
  "string \<Rightarrow> string \<Rightarrow> 'c \<Rightarrow> ('c \<Rightarrow> 'm \<Rightarrow> 'm cxx) \<Rightarrow> ('c, 'm) message_augmentor"
where
  "new_message_augmentor name description cfg augment =
     \<lparr>augmentor_name = name, augmentor_description = description, configuration = cfg, augment_operator = augment\<rparr>"

definition augmentor_get_name :: "('c, 'm) message_augmentor \<Rightarrow> string" where
  "augmentor_get_name a = augmentor_name a"

definition augmentor_get_description :: "('c, 'm) message_augmentor \<Rightarrow> string" where
  "augmentor_get_description a = augmentor_description a"

definition apply_augmentor :: "('c, 'm) message_augmentor \<Rightarrow> 'm \<Rightarrow> 'm cxx" where
  "apply_augmentor a msg = augment_operator a (configuration a) msg"

text \<open>
  The stage holds its augmentors behind their base class, whose only operation is \<open>operator()\<close>. The constructor
  copies them one by one.
\<close>

fun new_message_augmentor_stage :: "('m \<Rightarrow> 'm cxx) list \<Rightarrow> ('m \<Rightarrow> 'm cxx) list \<Rightarrow> ('m \<Rightarrow> 'm cxx) list" where
  "new_message_augmentor_stage [] augmentors = augmentors"
| "new_message_augmentor_stage (augmentor # rest) augmentors =
     new_message_augmentor_stage rest (augmentors @ [augmentor])"

lemma new_message_augmentor_stage_append: "new_message_augmentor_stage as augmentors = augmentors @ as"
  by (induction as arbitrary: augmentors) simp_all

fun apply_augmentors :: "('m \<Rightarrow> 'm cxx) list \<Rightarrow> 'm \<Rightarrow> 'm cxx" where
  "apply_augmentors [] msg = Ok msg"
| "apply_augmentors (f # fs) msg = and_then (f msg) (apply_augmentors fs)"

definition augmentor_on_message :: "('m \<Rightarrow> 'm cxx) list \<Rightarrow> 'm \<Rightarrow> 'm emission list cxx" where
  "augmentor_on_message augmentors msg =
     noexcept (and_then (apply_augmentors augmentors msg) (\<lambda>msg'. Ok [(''message_out'', msg')]))"

text \<open>Augmentors run one after the other, the later ones on what the earlier ones wrote.\<close>

lemma augmentors_run_in_order:
  "apply_augmentors (as @ bs) msg = and_then (apply_augmentors as msg) (apply_augmentors bs)"
proof (induction as arbitrary: msg)
  case (Cons a as)
  then have "apply_augmentors (as @ bs) = (\<lambda>x. and_then (apply_augmentors as x) (apply_augmentors bs))" by blast
  then show ?case by simp
qed simp

section \<open>What is extracted\<close>

text \<open>A value with marked tokens: text before each token, the tokens, and text after the last.\<close>

fun render_tokens :: "token_config \<Rightarrow> (string \<times> string) list \<Rightarrow> string \<Rightarrow> string" where
  "render_tokens cfg [] rest = rest"
| "render_tokens cfg ((lead, tok) # toks) rest =
     lead @ token_start cfg # tok @ token_end cfg # render_tokens cfg toks rest"

definition unmarked :: "token_config \<Rightarrow> string \<Rightarrow> bool" where
  "unmarked cfg s \<longleftrightarrow> token_start cfg \<notin> set s \<and> token_end cfg \<notin> set s"

definition store_tokens ::
  "((string \<times> string) \<times> string) list \<Rightarrow> 'z dynamic_message_scheme \<Rightarrow> 'z dynamic_message_scheme"
where
  "store_tokens tks msg = fold (\<lambda>(t, tok). set_field string_alt (fst t) (snd t) tok) tks msg"

lemma extract_text:
  "unmarked cfg lead \<Longrightarrow> extract_tokens cfg (lead @ cs) False token n ts msg = extract_tokens cfg cs False token n ts msg"
  by (induction lead) (auto simp: unmarked_def)

lemma extract_token:
  "unmarked cfg tok \<Longrightarrow>
   extract_tokens cfg (tok @ cs) True token n ts msg = extract_tokens cfg cs True (token @ tok) n ts msg"
  by (induction tok arbitrary: token) (auto simp: unmarked_def)

lemma extract_one:
  assumes "unmarked cfg lead" and "unmarked cfg tok" and "token_start cfg \<noteq> token_end cfg"
  shows "extract_tokens cfg (lead @ token_start cfg # tok @ token_end cfg # cs) False [] n (t # ts) msg =
    (if uint (n + 1) = sint (n_tokens cfg) then Ok (set_field string_alt (fst t) (snd t) tok msg)
     else extract_tokens cfg cs False [] (n + 1) ts (set_field string_alt (fst t) (snd t) tok msg))"
  using assms by (simp add: extract_text extract_token Let_def)

lemma extract_render:
  assumes "list_all (\<lambda>(lead, tok). unmarked cfg lead \<and> unmarked cfg tok) toks" and "token_start cfg \<noteq> token_end cfg"
    and "unmarked cfg rest" and "uint n < sint (n_tokens cfg)" and "sint (n_tokens cfg) < 256"
    and "length toks \<le> length ts \<or> sint (n_tokens cfg) - uint n \<le> int (length ts)"
  shows "extract_tokens cfg (render_tokens cfg toks rest) False [] n ts msg =
    Ok (store_tokens (zip ts (map snd (take (nat (sint (n_tokens cfg) - uint n)) toks))) msg)"
  using assms
proof (induction toks arbitrary: n ts msg)
  case Nil
  then show ?case using extract_text [of cfg rest "[]"] by (simp add: store_tokens_def)
next
  case (Cons x toks)
  obtain lead tok where x: "x = (lead, tok)" by (cases x)
  obtain t ts' where ts: "ts = t # ts'" using Cons.prems(4,6) by (cases ts) auto
  have n: "uint (n + 1) = uint n + 1"
    using Cons.prems(4,5) by (simp add: uint_word_ariths)
  have k: "nat (sint (n_tokens cfg) - uint n) = Suc (nat (sint (n_tokens cfg) - (uint n + 1)))"
    using Cons.prems(4) by simp
  show ?case
  proof (cases "uint (n + 1) = sint (n_tokens cfg)")
    case True
    then show ?thesis
      using Cons.prems(1,2) extract_one [of cfg lead tok _ _ _ _ msg] n by (simp add: x ts k store_tokens_def)
  next
    case False
    have "extract_tokens cfg (render_tokens cfg toks rest) False [] (n + 1) ts' (set_field string_alt (fst t) (snd t) tok msg) =
      Ok (store_tokens (zip ts' (map snd (take (nat (sint (n_tokens cfg) - uint (n + 1))) toks)))
        (set_field string_alt (fst t) (snd t) tok msg))"
      using Cons.prems False by (intro Cons.IH) (auto simp: n ts)
    then show ?thesis
      using Cons.prems(1,2) extract_one [of cfg lead tok _ _ _ _ msg] False n by (simp add: x ts k store_tokens_def)
  qed
qed

lemma extract_prefix:
  assumes "list_all (\<lambda>(lead, tok). unmarked cfg lead \<and> unmarked cfg tok) toks" and "token_start cfg \<noteq> token_end cfg"
    and "uint n + int (length toks) < sint (n_tokens cfg)" and "sint (n_tokens cfg) < 256" and "length toks \<le> length ts"
  shows "\<exists>n' ts' msg'. extract_tokens cfg (render_tokens cfg toks cs) False [] n ts msg = extract_tokens cfg cs False [] n' ts' msg'"
  using assms
proof (induction toks arbitrary: n ts msg)
  case (Cons x toks)
  obtain lead tok where x: "x = (lead, tok)" by (cases x)
  obtain t ts' where ts: "ts = t # ts'" using Cons.prems(5) by (cases ts) auto
  have n: "uint (n + 1) = uint n + 1"
    using Cons.prems(3,4) by (simp add: uint_word_ariths)
  show ?case
    using Cons.prems extract_one [of cfg lead tok _ _ _ _ msg] n
      Cons.IH [of "n + 1" ts' "set_field string_alt (fst t) (snd t) tok msg"] by (simp add: x ts)
qed auto

text \<open>
  C27: Token extraction. From a value with tokens between the markers the first \<open>n_tokens\<close> tokens are stored, in
  order, in the target fields, provided there is a target for each; the text around them is ignored.
  After fewer well-formed tokens, a closing marker outside a token or an opening marker inside one is an
  error, and \<open>on_message\<close> being \<open>noexcept\<close> it ends the process.
\<close>

theorem tokens_are_extracted:
  assumes "list_all (\<lambda>(lead, tok). unmarked cfg lead \<and> unmarked cfg tok) toks" and "unmarked cfg rest"
    and "token_start cfg \<noteq> token_end cfg" and "0 < sint (n_tokens cfg)" and "sint (n_tokens cfg) < 256"
    and "length toks \<le> length (target_fields cfg) \<or> sint (n_tokens cfg) \<le> int (length (target_fields cfg))"
  shows "(get_field string_alt msg (fst (token_field cfg)) (snd (token_field cfg)) = Ok (render_tokens cfg toks rest) \<longrightarrow>
      augmentor_on_message [token_extracting_augment cfg] msg = Ok [(''message_out'',
        store_tokens (zip (target_fields cfg) (map snd (take (nat (sint (n_tokens cfg))) toks))) msg)]) \<and>
    (int (length toks) < sint (n_tokens cfg) \<and> unmarked cfg tok \<and>
      get_field string_alt msg (fst (token_field cfg)) (snd (token_field cfg)) \<in>
        {Ok (render_tokens cfg toks (rest @ token_end cfg # cs)),
         Ok (render_tokens cfg toks (rest @ token_start cfg # tok @ token_start cfg # cs))} \<longrightarrow>
      augmentor_on_message [token_extracting_augment cfg] msg = Fault (Terminate (Runtime_error ''Malformed'')))"
proof (intro conjI impI)
  assume "get_field string_alt msg (fst (token_field cfg)) (snd (token_field cfg)) = Ok (render_tokens cfg toks rest)"
  then show "augmentor_on_message [token_extracting_augment cfg] msg = Ok [(''message_out'',
      store_tokens (zip (target_fields cfg) (map snd (take (nat (sint (n_tokens cfg))) toks))) msg)]"
    using assms extract_render [OF assms(1,3,2), of 0 "target_fields cfg" msg]
    by (simp add: augmentor_on_message_def token_extracting_augment_def)
next
  assume bad: "int (length toks) < sint (n_tokens cfg) \<and> unmarked cfg tok \<and>
      get_field string_alt msg (fst (token_field cfg)) (snd (token_field cfg)) \<in>
        {Ok (render_tokens cfg toks (rest @ token_end cfg # cs)),
         Ok (render_tokens cfg toks (rest @ token_start cfg # tok @ token_start cfg # cs))}"
  then obtain cs' where cs': "get_field string_alt msg (fst (token_field cfg)) (snd (token_field cfg)) =
      Ok (render_tokens cfg toks (rest @ cs'))"
    and "cs' = token_end cfg # cs \<or> cs' = token_start cfg # tok @ token_start cfg # cs"
    by blast
  then have "extract_tokens cfg (rest @ cs') False [] n ts m = Throw (Runtime_error ''Malformed'')" for n ts and m :: "'a dynamic_message_scheme"
    using assms(2,3) bad by (auto simp: extract_text extract_token)
  then show "augmentor_on_message [token_extracting_augment cfg] msg = Fault (Terminate (Runtime_error ''Malformed''))"
    using assms bad cs' extract_prefix [OF assms(1,3), of 0 "target_fields cfg" "rest @ cs'" msg]
    by (auto simp: augmentor_on_message_def token_extracting_augment_def)
qed

definition example_token_config :: token_config where
  "example_token_config = \<lparr>token_field = (''http_info'', ''path''), token_start = CHR ''['', token_end = CHR '']'',
     n_tokens = 1, target_fields = [(''tokens'', ''first'')]\<rparr>"

theorem tokens_are_extracted_witness:
  "augmentor_on_message [token_extracting_augment example_token_config]
     (set_field string_alt ''http_info'' ''path'' ''/a/[x]/b'' empty_message) =
   Ok [(''message_out'', set_field string_alt ''tokens'' ''first'' ''x''
     (set_field string_alt ''http_info'' ''path'' ''/a/[x]/b'' empty_message))]"
  using tokens_are_extracted [of example_token_config "[(''/a/'', ''x'')]" "''/b''"
      "set_field string_alt ''http_info'' ''path'' ''/a/[x]/b'' empty_message"]
  by (simp add: example_token_config_def unmarked_def store_tokens_def)

end
