(* ===== verification/Jwt_Stages.thy ===== *)
theory Jwt_Stages
  imports Dynamic_Message Base_Stage
begin

text \<open>
  \<open>src/stages/jwt_decoder_stage\<close> and \<open>src/stages/jwt_validation_stage\<close>. The token library is a parameter:
  decoding a string, building a verifier for a public key and verifying return what they give or throw,
  and so does reading a header claim as a string. A decoded token is the record of what its getters return.
  The stages write fields one by one, and an exception leaves the ones already written, so the block
  that may throw returns the message in both cases. Logging is left out.
\<close>

section \<open>The library's values\<close>

record decoded_jwt =
  header_claims :: "(string \<times> string cxx) list"
  payload_claims :: "(string \<times> string) list"
  header_base64 :: string
  payload_base64 :: string
  signature_base64 :: string

text \<open>The message so far and how the block ended: normally, or with an exception.\<close>

type_synonym ('m, 'e) progress = "'m \<times> (unit, 'e) outcome"

fun set_header_claims ::
  "string \<Rightarrow> (string \<times> string cxx) list \<Rightarrow> 'z dynamic_message_scheme \<Rightarrow> ('z dynamic_message_scheme, exn) progress"
where
  "set_header_claims grp [] msg = (msg, Ok ())"
| "set_header_claims grp ((k, v) # claims) msg =
     (case v of
        Ok s \<Rightarrow> set_header_claims grp claims (set_field string_alt grp k s msg)
      | Throw e \<Rightarrow> (msg, Throw e)
      | Fault f \<Rightarrow> (msg, Fault f))"

fun set_payload_claims ::
  "string \<Rightarrow> (string \<times> string) list \<Rightarrow> 'z dynamic_message_scheme \<Rightarrow> 'z dynamic_message_scheme"
where
  "set_payload_claims grp [] msg = msg"
| "set_payload_claims grp ((k, v) # claims) msg = set_payload_claims grp claims (set_field string_alt grp k v msg)"

section \<open>\<open>JwtDecoderStage\<close>\<close>

definition decode_block ::
  "(string \<Rightarrow> decoded_jwt cxx) \<Rightarrow> string \<Rightarrow> 'z dynamic_message_scheme \<Rightarrow> ('z dynamic_message_scheme, exn) progress"
where
  "decode_block decode token_field_name msg =
     (case and_then (get_field string_alt msg ''auth'' token_field_name) decode of
        Throw e \<Rightarrow> (msg, Throw e)
      | Fault f \<Rightarrow> (msg, Fault f)
      | Ok decoded_token \<Rightarrow>
          (let (msg1, r) = set_header_claims ''jwt decoding'' (header_claims decoded_token) msg in
           case r of
             Ok _ \<Rightarrow>
               (set_field string_alt ''jwt decoding'' ''signature_base64'' (signature_base64 decoded_token)
                 (set_field string_alt ''jwt decoding'' ''payload_base64'' (payload_base64 decoded_token)
                   (set_field string_alt ''jwt decoding'' ''header_base64'' (header_base64 decoded_token)
                     (set_payload_claims ''jwt decoding'' (payload_claims decoded_token) msg1))), Ok ())
           | _ \<Rightarrow> (msg1, r)))"

definition decoder_on_message ::
  "cxx_runtime \<Rightarrow> (string \<Rightarrow> decoded_jwt cxx) \<Rightarrow> string \<Rightarrow> 'z dynamic_message_scheme
     \<Rightarrow> 'z dynamic_message_scheme emission list cxx"
where
  "decoder_on_message rt decode token_field_name msg =
     noexcept
       (let (msg1, r) = decode_block decode token_field_name msg in
        catch_if is_std_exception
          (\<lambda>e. Ok [(''error_decoding_out'',
             set_field string_alt ''jwt decoding'' ''jwt_decoder_error_description'' (exn_what rt e) msg1)])
          (and_then r (\<lambda>_. Ok [(''decoded_token_out'', msg1)])))"

section \<open>\<open>JwtValidationStage\<close>\<close>

record jwt_validation_stage =
  jwt_token_field :: "string \<times> string"
  decoded_group :: string
  rsa_public_key :: string

definition new_jwt_validation_stage :: "string \<times> string \<Rightarrow> string \<Rightarrow> string \<Rightarrow> jwt_validation_stage" where
  "new_jwt_validation_stage token_field grp rsa_pub_key =
     \<lparr>jwt_token_field = token_field, decoded_group = grp, rsa_public_key = rsa_pub_key\<rparr>"

definition validation_block ::
  "(string \<Rightarrow> 'v cxx) \<Rightarrow> (string \<Rightarrow> decoded_jwt cxx) \<Rightarrow> ('v \<Rightarrow> decoded_jwt \<Rightarrow> unit cxx) \<Rightarrow> jwt_validation_stage
     \<Rightarrow> string \<Rightarrow> 'z dynamic_message_scheme \<Rightarrow> ('z dynamic_message_scheme, exn) progress"
where
  "validation_block make_verifier decode verify st access_token msg =
     (case and_then (make_verifier (rsa_public_key st)) (\<lambda>jwt_verifier.
           and_then (decode access_token) (\<lambda>jwt_decoded.
           and_then (verify jwt_verifier jwt_decoded) (\<lambda>_. Ok jwt_decoded))) of
        Throw e \<Rightarrow> (msg, Throw e)
      | Fault f \<Rightarrow> (msg, Fault f)
      | Ok jwt_decoded \<Rightarrow>
          (let (msg1, r) = set_header_claims (decoded_group st) (header_claims jwt_decoded) msg in
           case r of
             Ok _ \<Rightarrow> (set_payload_claims (decoded_group st) (payload_claims jwt_decoded) msg1, Ok ())
           | _ \<Rightarrow> (msg1, r)))"

text \<open>The four handlers in their order.\<close>

definition jwt_validation_on_message ::
  "(string \<Rightarrow> 'v cxx) \<Rightarrow> (string \<Rightarrow> decoded_jwt cxx) \<Rightarrow> ('v \<Rightarrow> decoded_jwt \<Rightarrow> unit cxx) \<Rightarrow> jwt_validation_stage
     \<Rightarrow> 'z dynamic_message_scheme \<Rightarrow> 'z dynamic_message_scheme emission list cxx"
where
  "jwt_validation_on_message make_verifier decode verify st msg =
     noexcept
       (and_then (get_field string_alt msg (fst (jwt_token_field st)) (snd (jwt_token_field st))) (\<lambda>access_token.
          let (msg1, r) = validation_block make_verifier decode verify st access_token msg in
          case r of
            Ok _ \<Rightarrow> Ok [(''valid_out'', msg1)]
          | Fault f \<Rightarrow> Fault f
          | Throw e \<Rightarrow>
              (if is_token_verification e then Ok [(''expired_out'', msg1)]
               else if is_invalid_argument e then Ok [(''non_jwt_out'', msg1)]
               else if is_signature_verification e then Ok [(''invalid_out'', msg1)]
               else if is_runtime_error e then Ok [(''invalid_out'', msg1)]
               else Throw e)))"

section \<open>Properties\<close>

text \<open>The claims a decoded token contributes when all of them can be read.\<close>

fun read_claims :: "(string \<times> string cxx) list \<Rightarrow> (string \<times> string) list option" where
  "read_claims [] = Some []"
| "read_claims ((k, Ok v) # claims) = map_option (Cons (k, v)) (read_claims claims)"
| "read_claims ((k, _) # claims) = None"

lemma set_header_claims_read:
  "read_claims claims = Some kvs \<Longrightarrow> set_header_claims grp claims msg = (set_payload_claims grp kvs msg, Ok ())"
  by (induction claims arbitrary: msg kvs rule: read_claims.induct) auto

lemma set_payload_claims_append:
  "set_payload_claims grp (xs @ ys) msg = set_payload_claims grp ys (set_payload_claims grp xs msg)"
  by (induction xs arbitrary: msg) auto

lemma set_header_claims_keeps:
  "grp' \<noteq> grp \<Longrightarrow> get_field alt (fst (set_header_claims grp claims msg)) grp' k = get_field alt msg grp' k"
  by (induction claims arbitrary: msg) (auto split: outcome.splits)

lemma set_header_claims_stops:
  "read_claims pre = Some kvs \<Longrightarrow> set_header_claims grp (pre @ (k, Throw e) # post) msg = (set_payload_claims grp kvs msg, Throw e)"
  by (induction pre arbitrary: msg kvs rule: read_claims.induct) auto

text \<open>
  C28: The validation stage sorts tokens. A token that decodes and verifies under the key, and whose claims can be
  read, goes to \<open>valid_out\<close> with exactly its claims written; a failed verification of the claims goes to
  \<open>expired_out\<close> whatever the reason was, a token that is no token to \<open>non_jwt_out\<close>, a bad
  signature and every other runtime error to \<open>invalid_out\<close>; any other exception ends the process. A header claim that cannot be read is sorted in the
  same way by what it throws, with the claims before it written: one that is no string, which throws no runtime error, ends the process. So
  does a message without the token field.
\<close>

theorem jwt_validation_sorts_tokens:
  fixes msg :: "'z dynamic_message_scheme"
  assumes "get_field string_alt msg (fst (jwt_token_field st)) (snd (jwt_token_field st)) = Ok token"
    and "make_verifier (rsa_public_key st) = Ok v"
  shows "(\<forall>d kvs. decode token = Ok d \<and> verify v d = Ok () \<and> read_claims (header_claims d) = Some kvs \<longrightarrow>
       jwt_validation_on_message make_verifier decode verify st msg =
         Ok [(''valid_out'', set_payload_claims (decoded_group st) (kvs @ payload_claims d) msg)]) \<and>
    (\<forall>e. decode token = Throw e \<or> (\<exists>d. decode token = Ok d \<and> verify v d = Throw e) \<longrightarrow>
       jwt_validation_on_message make_verifier decode verify st msg =
         (if is_token_verification e then Ok [(''expired_out'', msg)]
          else if is_invalid_argument e then Ok [(''non_jwt_out'', msg)]
          else if is_runtime_error e then Ok [(''invalid_out'', msg)]
          else Fault (Terminate e))) \<and>
    (\<forall>d before k e after kvs. decode token = Ok d \<and> verify v d = Ok () \<and>
         header_claims d = before @ (k, Throw e) # after \<and> read_claims before = Some kvs \<longrightarrow>
       jwt_validation_on_message make_verifier decode verify st msg =
         (if is_token_verification e then Ok [(''expired_out'', set_payload_claims (decoded_group st) kvs msg)]
          else if is_invalid_argument e then Ok [(''non_jwt_out'', set_payload_claims (decoded_group st) kvs msg)]
          else if is_runtime_error e then Ok [(''invalid_out'', set_payload_claims (decoded_group st) kvs msg)]
          else Fault (Terminate e))) \<and>
    (\<forall>(m :: 'z dynamic_message_scheme) e. get_field string_alt m (fst (jwt_token_field st)) (snd (jwt_token_field st)) = Throw e \<longrightarrow>
       jwt_validation_on_message make_verifier decode verify st m = Fault (Terminate e))"
proof -
  let ?sorted = "\<lambda>e m. if is_token_verification e then Ok [(''expired_out'', m)] else if is_invalid_argument e then Ok [(''non_jwt_out'', m)]
    else if is_runtime_error e then Ok [(''invalid_out'', m)] else Fault (Terminate e)"
  have sorted: "jwt_validation_on_message make_verifier decode verify st msg = ?sorted e m"
    if "validation_block make_verifier decode verify st token msg = (m, Throw e)" for e m
  proof -
    have "is_signature_verification e \<Longrightarrow> is_runtime_error e" by (cases e) auto
    then show ?thesis using assms(1) that by (simp add: jwt_validation_on_message_def)
  qed
  have valid: "jwt_validation_on_message make_verifier decode verify st msg =
         Ok [(''valid_out'', set_payload_claims (decoded_group st) (kvs @ payload_claims d) msg)]"
    if "decode token = Ok d" "verify v d = Ok ()" "read_claims (header_claims d) = Some kvs" for d kvs
    using assms that
    by (simp add: jwt_validation_on_message_def validation_block_def set_header_claims_read set_payload_claims_append)
  have thrown: "validation_block make_verifier decode verify st token msg = (msg, Throw e)"
    if "decode token = Throw e \<or> (\<exists>d. decode token = Ok d \<and> verify v d = Throw e)" for e
    using assms(2) that by (auto simp: validation_block_def)
  have stopped: "validation_block make_verifier decode verify st token msg = (set_payload_claims (decoded_group st) kvs msg, Throw e)"
    if "decode token = Ok d" "verify v d = Ok ()" "header_claims d = before @ (k, Throw e) # after" "read_claims before = Some kvs"
    for d before k e after kvs
    using assms(2) that by (simp add: validation_block_def set_header_claims_stops)
  have missing: "jwt_validation_on_message make_verifier decode verify st m = Fault (Terminate e)"
    if "get_field string_alt m (fst (jwt_token_field st)) (snd (jwt_token_field st)) = Throw e" for m :: "'z dynamic_message_scheme" and e
    using that by (simp add: jwt_validation_on_message_def)
  show ?thesis
    by (intro conjI allI impI; (elim conjE)?) (rule valid sorted [OF thrown] sorted [OF stopped] missing; assumption)+
qed

definition example_jwt :: decoded_jwt where
  "example_jwt = \<lparr>header_claims = [(''alg'', Ok ''RS256'')], payload_claims = [(''sub'', ''u'')],
     header_base64 = ''h'', payload_base64 = ''p'', signature_base64 = ''s''\<rparr>"

definition example_jwt_stage :: jwt_validation_stage where
  "example_jwt_stage = \<lparr>jwt_token_field = (''auth'', ''token''), decoded_group = ''jwt'', rsa_public_key = ''key''\<rparr>"

theorem jwt_validation_sorts_tokens_witness:
  "jwt_validation_on_message Ok (\<lambda>t. Ok example_jwt) (\<lambda>v d. if v = ''key'' then Ok () else Throw (Token_verification_exception ''e''))
     example_jwt_stage (set_field string_alt ''auth'' ''token'' ''t'' empty_message) =
   Ok [(''valid_out'', set_field string_alt ''jwt'' ''sub'' ''u'' (set_field string_alt ''jwt'' ''alg'' ''RS256''
     (set_field string_alt ''auth'' ''token'' ''t'' empty_message)))]"
proof -
  have "jwt_token_field example_jwt_stage = (''auth'', ''token'')" by (simp add: example_jwt_stage_def)
  then show ?thesis
    using jwt_validation_sorts_tokens [of "set_field string_alt ''auth'' ''token'' ''t'' empty_message" example_jwt_stage
        "''t''" Ok "''key''" "\<lambda>t. Ok example_jwt" "\<lambda>v d. if v = ''key'' then Ok () else Throw (Token_verification_exception ''e'')", THEN conjunct1]
    by (simp add: example_jwt_stage_def example_jwt_def)
qed

lemma set_field_other_group:
  "grp \<noteq> g \<Longrightarrow> umap_find (field_values (set_field alt g k v msg)) grp = umap_find (field_values msg) grp"
  by (simp add: find_set_field)

lemma payload_claims_other_group:
  "grp \<noteq> g \<Longrightarrow> umap_find (field_values (set_payload_claims g claims msg)) grp = umap_find (field_values msg) grp"
  by (induction claims arbitrary: msg) (auto simp: set_field_other_group)

text \<open>A library that reports its errors as standard exceptions.\<close>

definition well_behaved :: "'a cxx \<Rightarrow> bool" where
  "well_behaved r \<longleftrightarrow> (\<exists>x. r = Ok x) \<or> (\<exists>e. r = Throw e \<and> is_std_exception e)"

lemma header_claims_outcome:
  assumes "list_all (\<lambda>c. well_behaved (snd c)) claims"
  shows "well_behaved (snd (set_header_claims g claims msg)) \<and>
    (grp \<noteq> g \<longrightarrow> umap_find (field_values (fst (set_header_claims g claims msg))) grp = umap_find (field_values msg) grp)"
  using assms
proof (induction claims arbitrary: msg)
  case (Cons c claims)
  then show ?case
    by (cases c; cases "snd c") (auto simp: well_behaved_def set_field_other_group)
qed (simp add: well_behaved_def)

lemma decode_block_outcome:
  assumes "\<forall>t. well_behaved (decode t)"
    and "\<forall>t d. decode t = Ok d \<longrightarrow> list_all (\<lambda>c. well_behaved (snd c)) (header_claims d)"
  shows "well_behaved (snd (decode_block decode nm msg)) \<and>
    (grp \<noteq> ''jwt decoding'' \<longrightarrow> umap_find (field_values (fst (decode_block decode nm msg))) grp = umap_find (field_values msg) grp)"
proof (cases "get_field string_alt msg ''auth'' nm")
  case (Ok t)
  show ?thesis
  proof (cases "decode t")
    case decoded: (Ok d)
    obtain msg1 r where b: "set_header_claims ''jwt decoding'' (header_claims d) msg = (msg1, r)" by fastforce
    then show ?thesis
      using header_claims_outcome [OF assms(2) [rule_format, OF decoded], of "''jwt decoding''" msg grp]
      by (cases r) (auto simp: decode_block_def Ok decoded b set_field_other_group payload_claims_other_group well_behaved_def)
  qed (use assms(1) [rule_format, of t] in \<open>auto simp: decode_block_def Ok well_behaved_def\<close>)
next
  case (Throw e)
  then show ?thesis by (auto simp: decode_block_def well_behaved_def get_field_throws_std)
qed simp

definition decoding_error :: "cxx_runtime \<Rightarrow> exn \<Rightarrow> 'z dynamic_message_scheme \<Rightarrow> 'z dynamic_message_scheme emission list" where
  "decoding_error rt e msg =
     [(''error_decoding_out'', set_field string_alt ''jwt decoding'' ''jwt_decoder_error_description'' (exn_what rt e) msg)]"

text \<open>
  C37: The decoder stage never ends the process, as long as the library throws standard exceptions
  only: it answers every message exactly once and touches no other group of fields. A message without the token field, and a token that cannot be
  decoded, go to \<open>error_decoding_out\<close> with nothing but the text of the error added; a header claim that cannot be read does the same after
  the claims before it have been written. Only a token that is decoded and read in full goes to \<open>decoded_token_out\<close>, with
  all its header and payload claims and its three encoded parts.
\<close>

theorem jwt_decoder_is_total:
  fixes msg :: "'z dynamic_message_scheme" and nm :: string
  assumes "\<forall>t. well_behaved (decode t)"
    and "\<forall>t d. decode t = Ok d \<longrightarrow> list_all (\<lambda>c. well_behaved (snd c)) (header_claims d)"
  defines "token \<equiv> get_field string_alt msg ''auth'' nm"
  shows "(\<exists>port msg'. decoder_on_message rt decode nm msg = Ok [(port, msg')] \<and>
      (\<forall>grp. grp \<noteq> ''jwt decoding'' \<longrightarrow> umap_find (field_values msg') grp = umap_find (field_values msg) grp)) \<and>
    (\<forall>e. token = Throw e \<or> (\<exists>t. token = Ok t \<and> decode t = Throw e) \<longrightarrow>
      decoder_on_message rt decode nm msg = Ok (decoding_error rt e msg)) \<and>
    (\<forall>t d before k e after kvs. token = Ok t \<and> decode t = Ok d \<and>
        header_claims d = before @ (k, Throw e) # after \<and> read_claims before = Some kvs \<longrightarrow>
      decoder_on_message rt decode nm msg = Ok (decoding_error rt e (set_payload_claims ''jwt decoding'' kvs msg))) \<and>
    (\<forall>t d kvs. token = Ok t \<and> decode t = Ok d \<and> read_claims (header_claims d) = Some kvs \<longrightarrow>
      decoder_on_message rt decode nm msg = Ok [(''decoded_token_out'',
        set_payload_claims ''jwt decoding'' (kvs @ payload_claims d @ [(''header_base64'', header_base64 d),
          (''payload_base64'', payload_base64 d), (''signature_base64'', signature_base64 d)]) msg)])"
proof -
  obtain msg1 r where b: "decode_block decode nm msg = (msg1, r)" by fastforce
  then have "well_behaved r"
    "\<And>grp. grp \<noteq> ''jwt decoding'' \<Longrightarrow> umap_find (field_values msg1) grp = umap_find (field_values msg) grp"
    using decode_block_outcome [where decode = decode and nm = nm and msg = msg, OF assms(1,2)] by simp_all
  then have once: "\<exists>port msg'. decoder_on_message rt decode nm msg = Ok [(port, msg')] \<and>
      (\<forall>grp. grp \<noteq> ''jwt decoding'' \<longrightarrow> umap_find (field_values msg') grp = umap_find (field_values msg) grp)"
    by (auto simp: decoder_on_message_def b well_behaved_def set_field_other_group)
  have std: "is_std_exception e" if "decode t = Throw e" for t e
    using assms(1) [rule_format, of t] that by (simp add: well_behaved_def)
  have claim: "is_std_exception e" if "decode t = Ok d" "header_claims d = before @ (k, Throw e) # after" for t d before k e after
    using assms(2) [rule_format, OF that(1)] that(2) by (simp add: well_behaved_def)
  have failed: "decoder_on_message rt decode nm msg = Ok (decoding_error rt e msg)"
    if "token = Throw e \<or> (\<exists>t. token = Ok t \<and> decode t = Throw e)" for e
    using that std get_field_throws_std [of string_alt msg "''auth''" nm]
    by (auto simp: token_def decoder_on_message_def decode_block_def decoding_error_def)
  have stopped: "decoder_on_message rt decode nm msg = Ok (decoding_error rt e (set_payload_claims ''jwt decoding'' kvs msg))"
    if "token = Ok t" "decode t = Ok d" "header_claims d = before @ (k, Throw e) # after" "read_claims before = Some kvs"
    for t d before k e after kvs
    using that claim [OF that(2,3)]
    by (simp add: token_def decoder_on_message_def decode_block_def decoding_error_def set_header_claims_stops)
  have read: "decoder_on_message rt decode nm msg = Ok [(''decoded_token_out'',
        set_payload_claims ''jwt decoding'' (kvs @ payload_claims d @ [(''header_base64'', header_base64 d),
          (''payload_base64'', payload_base64 d), (''signature_base64'', signature_base64 d)]) msg)]"
    if "token = Ok t" "decode t = Ok d" "read_claims (header_claims d) = Some kvs" for t d kvs
    using that by (simp add: token_def decoder_on_message_def decode_block_def set_header_claims_read set_payload_claims_append)
  show ?thesis
    by (intro conjI allI impI; (elim conjE)?) (rule once failed stopped read; assumption?)+
qed

text \<open>A library that knows two tokens, one of them with a header claim that is no string.\<close>

definition example_decode :: "string \<Rightarrow> decoded_jwt cxx" where
  "example_decode t =
     (if t = ''good'' then Ok example_jwt
      else if t = ''odd'' then Ok (example_jwt\<lparr>header_claims := [(''alg'', Ok ''RS256''), (''n'', Throw (Runtime_error ''no string''))]\<rparr>)
      else Throw (Runtime_error ''no token''))"

lemma example_decode_behaves:
  "\<forall>t. well_behaved (example_decode t)"
  "\<forall>t d. example_decode t = Ok d \<longrightarrow> list_all (\<lambda>c. well_behaved (snd c)) (header_claims d)"
  by (auto simp: example_decode_def well_behaved_def example_jwt_def split: if_splits)

definition token_message :: "string \<Rightarrow> dynamic_message" where
  "token_message t = set_field string_alt ''auth'' ''token'' t empty_message"

theorem jwt_decoder_is_total_witness:
  "decoder_on_message example_runtime example_decode ''token'' (token_message ''bad'') =
      Ok (decoding_error example_runtime (Runtime_error ''no token'') (token_message ''bad'')) \<and>
    decoder_on_message example_runtime example_decode ''token'' (token_message ''odd'') =
      Ok (decoding_error example_runtime (Runtime_error ''no string'') (set_field string_alt ''jwt decoding'' ''alg'' ''RS256'' (token_message ''odd''))) \<and>
    decoder_on_message example_runtime example_decode ''token'' (token_message ''good'') =
      Ok [(''decoded_token_out'', set_payload_claims ''jwt decoding'' [(''alg'', ''RS256''), (''sub'', ''u''), (''header_base64'', ''h''),
        (''payload_base64'', ''p''), (''signature_base64'', ''s'')] (token_message ''good''))]"
proof -
  note total = jwt_decoder_is_total [where rt = example_runtime and nm = "''token''", OF example_decode_behaves]
  have token: "get_field string_alt (token_message t) ''auth'' ''token'' = Ok t" for t by (simp add: token_message_def)
  have "example_decode ''bad'' = Throw (Runtime_error ''no token'')" "example_decode ''good'' = Ok example_jwt"
    "example_decode ''odd'' = Ok (example_jwt\<lparr>header_claims := [(''alg'', Ok ''RS256'')] @ (''n'', Throw (Runtime_error ''no string'')) # []\<rparr>)"
    by (simp_all add: example_decode_def)
  note decodes = this
  have bad: "decoder_on_message example_runtime example_decode ''token'' (token_message ''bad'') =
      Ok (decoding_error example_runtime (Runtime_error ''no token'') (token_message ''bad''))"
    using total [where msg = "token_message ''bad''"] token decodes(1) by blast
  have odd: "decoder_on_message example_runtime example_decode ''token'' (token_message ''odd'') =
      Ok (decoding_error example_runtime (Runtime_error ''no string'') (set_payload_claims ''jwt decoding'' [(''alg'', ''RS256'')] (token_message ''odd'')))"
  proof -
    let ?d = "example_jwt\<lparr>header_claims := [(''alg'', Ok ''RS256'')] @ (''n'', Throw (Runtime_error ''no string'')) # []\<rparr>"
    have "header_claims ?d = [(''alg'', Ok ''RS256'')] @ (''n'', Throw (Runtime_error ''no string'')) # []"
      "read_claims [(''alg'', Ok ''RS256'')] = Some [(''alg'', ''RS256'')]" by simp_all
    then show ?thesis using total [where msg = "token_message ''odd''"] token decodes(3) by blast
  qed
  have "decoder_on_message example_runtime example_decode ''token'' (token_message ''good'') =
      Ok [(''decoded_token_out'', set_payload_claims ''jwt decoding'' ([(''alg'', ''RS256'')] @ payload_claims example_jwt @
        [(''header_base64'', header_base64 example_jwt), (''payload_base64'', payload_base64 example_jwt),
         (''signature_base64'', signature_base64 example_jwt)]) (token_message ''good''))]"
  proof -
    have "read_claims (header_claims example_jwt) = Some [(''alg'', ''RS256'')]" by (simp add: example_jwt_def)
    then show ?thesis using total [where msg = "token_message ''good''"] token decodes(2) by blast
  qed
  then show ?thesis using bad odd by (simp add: example_jwt_def)
qed

end
