(* ===== verification/Misc_Stages.thy ===== *)
theory Misc_Stages
  imports Base_Stage
begin

text \<open>
  \<open>src/stages/misc_stages\<close> and \<open>task_execution_message.h\<close>: the routers by message type, the broadcasting and
  the delay stage, and the sinks that swallow, print and execute. A router sees of a message its type id.
\<close>

section \<open>Routers\<close>

definition two_way_router :: "u64 \<Rightarrow> ('m \<Rightarrow> u64) \<Rightarrow> 'm \<Rightarrow> 'm emission list" where
  "two_way_router message_type_id type_of msg =
     (if message_type_id = type_of msg then [(''source_1'', msg)] else [(''remaining_source'', msg)])"

definition three_way_router :: "u64 \<Rightarrow> u64 \<Rightarrow> ('m \<Rightarrow> u64) \<Rightarrow> 'm \<Rightarrow> 'm emission list" where
  "three_way_router message_type_1_id message_type_2_id type_of msg =
     (if message_type_1_id = type_of msg then [(''source_1'', msg)]
      else if message_type_2_id = type_of msg then [(''source_2'', msg)]
      else [(''remaining_source'', msg)])"

definition four_way_router :: "u64 \<Rightarrow> u64 \<Rightarrow> u64 \<Rightarrow> ('m \<Rightarrow> u64) \<Rightarrow> 'm \<Rightarrow> 'm emission list" where
  "four_way_router message_type_1_id message_type_2_id message_type_3_id type_of msg =
     (if message_type_1_id = type_of msg then [(''source_1'', msg)]
      else if message_type_2_id = type_of msg then [(''source_2'', msg)]
      else if message_type_3_id = type_of msg then [(''source_3'', msg)]
      else [(''remaining_source'', msg)])"

section \<open>Broadcasting and delay\<close>

definition broadcasting_outputs :: "nat \<Rightarrow> string list" where
  "broadcasting_outputs output_sink_count = map (\<lambda>i. ''out-'' @ nat_to_string i) [0..<output_sink_count]"

definition broadcasting_on_message :: "nat \<Rightarrow> 'm \<Rightarrow> 'm emission list" where
  "broadcasting_on_message output_sink_count msg = map (\<lambda>nm. (nm, msg)) (broadcasting_outputs output_sink_count)"

text \<open>
  A delayed message is held by a thread of its own; the threads wake up in any order.
\<close>

record 'm delay_stage =
  delay_us :: i64
  sleeping :: "'m list"

definition new_delay_stage :: "i64 \<Rightarrow> 'm delay_stage" where
  "new_delay_stage us = \<lparr>delay_us = us, sleeping = []\<rparr>"

definition delay_on_message :: "'m \<Rightarrow> 'm delay_stage \<Rightarrow> 'm delay_stage" where
  "delay_on_message msg st = st\<lparr>sleeping := sleeping st @ [msg]\<rparr>"

definition delay_thread_wakes :: "nat \<Rightarrow> 'm delay_stage \<Rightarrow> 'm delay_stage \<times> 'm emission list" where
  "delay_thread_wakes i st =
     (if i < length (sleeping st)
      then (st\<lparr>sleeping := take i (sleeping st) @ drop (Suc i) (sleeping st)\<rparr>, [(''out'', sleeping st ! i)])
      else (st, []))"

section \<open>Sinks\<close>

definition no_op_on_message :: "'m \<Rightarrow> 's \<Rightarrow> 's" where
  "no_op_on_message msg s = s"

text \<open>The printing sink writes its prefix and a line end, not the message.\<close>

definition printing_on_message :: "string \<Rightarrow> 'm \<Rightarrow> string \<Rightarrow> string" where
  "printing_on_message sink_prefix msg standard_output = standard_output @ sink_prefix @ [CHR 0x0A]"

text \<open>A task is the function it executes on the rest of the program; an empty one throws.\<close>

record 'w task_execution_message =
  execution_function :: "('w \<Rightarrow> 'w cxx) option"

definition execute :: "'w task_execution_message \<Rightarrow> 'w \<Rightarrow> 'w cxx" where
  "execute m w =
     (case execution_function m of
        Some f \<Rightarrow> f w
      | None \<Rightarrow> Throw (Library_exception ''bad_function_call''))"

definition task_execution_on_message :: "'w task_execution_message \<Rightarrow> 'w \<Rightarrow> 'w cxx" where
  "task_execution_on_message m w = noexcept (execute m w)"

section \<open>Properties\<close>

text \<open>A second stage behind the port \<open>remaining_source\<close> of a first one.\<close>

definition cascade ::
  "('m \<Rightarrow> 'm emission list) \<Rightarrow> (string \<Rightarrow> string) \<Rightarrow> ('m \<Rightarrow> 'm emission list) \<Rightarrow> 'm \<Rightarrow> 'm emission list"
where
  "cascade first_stage rename second_stage msg =
     concat (map (\<lambda>(port, m). if port = ''remaining_source'' then map (\<lambda>(p, m'). (rename p, m')) (second_stage m)
       else [(port, m)]) (first_stage msg))"

definition next_source :: "string \<Rightarrow> string" where
  "next_source p = (if p = ''source_1'' then ''source_2'' else if p = ''source_2'' then ''source_3'' else p)"

text \<open>
  Routers are cascades of two-way routers, as their documentation says: the three-way and the four-way
  router do what a chain of two-way routers does, and over the repository's message classes a
  message leaves by the port of its own class.
\<close>

theorem routers_are_cascades:
  "three_way_router a b type_of = cascade (two_way_router a type_of) next_source (two_way_router b type_of) \<and>
   four_way_router a b c type_of = cascade (two_way_router a type_of) next_source (three_way_router b c type_of) \<and>
   (c1 \<noteq> c2 \<longrightarrow>
      three_way_router (message_type c1) (message_type c2) message_type c1 = [(''source_1'', c1)] \<and>
      three_way_router (message_type c1) (message_type c2) message_type c2 = [(''source_2'', c2)] \<and>
      (\<forall>c3. c3 \<noteq> c1 \<and> c3 \<noteq> c2 \<longrightarrow>
         three_way_router (message_type c1) (message_type c2) message_type c3 = [(''remaining_source'', c3)]))"
  by (auto simp: fun_eq_iff cascade_def two_way_router_def three_way_router_def four_way_router_def next_source_def)

theorem routers_are_cascades_witness:
  "three_way_router (message_type DynamicMessage_class) (message_type HttpRequestMessage_class) message_type
     HttpRequestMessage_class = [(''source_2'', HttpRequestMessage_class)]"
  using routers_are_cascades [of 0 0 "id :: u64 \<Rightarrow> u64" 0 DynamicMessage_class HttpRequestMessage_class] by simp

text \<open>Broadcasting emits the message once on each output; the ports have different names.\<close>

lemma broadcasting_length: "length (broadcasting_on_message n msg) = n"
  by (simp add: broadcasting_on_message_def broadcasting_outputs_def)

lemma task_execution_terminates:
  "execution_function m = None \<Longrightarrow> task_execution_on_message m w = Fault (Terminate (Library_exception ''bad_function_call''))"
  by (simp add: task_execution_on_message_def execute_def)

end
