(* ===== verification/Queue_Stage.thy ===== *)
theory Queue_Stage
  imports Base_Stage
begin

text \<open>
  \<open>src/stages/queue_stages\<close>: \<open>MPMCQueue\<close>, which decouples the threads that hand it messages from the worker
  that sends them on. The queue is \<open>folly::ProducerConsumerQueue\<close>, a parameter: its \<open>write\<close> and \<open>read\<close> return
  the new queue with what the calls return. The handler, one iteration of the worker's loop
  and \<open>stop\<close> are steps that interleave in any order.
\<close>

section \<open>The library queue\<close>

record ('q, 'm) queue_ops =
  queue_write :: "'q \<Rightarrow> 'm \<Rightarrow> 'q \<times> bool"
  queue_read :: "'q \<Rightarrow> 'q \<times> 'm option"

text \<open>
  Its documentation: a bounded first-in first-out queue. A write is refused exactly when the queue holds as many
  elements as it can, a read fails exactly when it is empty.
\<close>

definition bounded_fifo :: "('q, 'm) queue_ops \<Rightarrow> ('q \<Rightarrow> 'm list) \<Rightarrow> nat \<Rightarrow> bool" where
  "bounded_fifo ops contents capacity \<longleftrightarrow>
     (\<forall>q m. if length (contents q) < capacity
        then snd (queue_write ops q m) \<and> contents (fst (queue_write ops q m)) = contents q @ [m]
        else queue_write ops q m = (q, False)) \<and>
     (\<forall>q. case contents q of
        [] \<Rightarrow> queue_read ops q = (q, None)
      | m # ms \<Rightarrow> snd (queue_read ops q) = Some m \<and> contents (fst (queue_read ops q)) = ms)"

section \<open>The stage\<close>

record 'q mpmc_queue =
  message_queue :: 'q
  stop_flag :: bool
  worker_returned :: bool

definition new_mpmc_queue :: "'q \<Rightarrow> 'q mpmc_queue" where
  "new_mpmc_queue q = \<lparr>message_queue = q, stop_flag = False, worker_returned = False\<rparr>"

definition mpmc_on_message :: "('q, 'm) queue_ops \<Rightarrow> 'm \<Rightarrow> 'q mpmc_queue \<Rightarrow> 'q mpmc_queue \<times> 'm emission list" where
  "mpmc_on_message ops msg st =
     (let (q, ret) = queue_write ops (message_queue st) msg; st' = st\<lparr>message_queue := q\<rparr> in
      if \<not> ret then (st', [(''buffer_full_out'', msg)]) else (st', []))"

text \<open>The test of \<open>_stop\<close> and one iteration of the body; the sleep is an iteration without effect.\<close>

definition mpmc_run_iteration :: "('q, 'm) queue_ops \<Rightarrow> 'q mpmc_queue \<Rightarrow> 'q mpmc_queue \<times> 'm emission list" where
  "mpmc_run_iteration ops st =
     (if worker_returned st then (st, [])
      else if stop_flag st then (st\<lparr>worker_returned := True\<rparr>, [])
      else
        (case queue_read ops (message_queue st) of
           (q, Some msg) \<Rightarrow> (st\<lparr>message_queue := q\<rparr>, [(''message_out'', msg)])
         | (q, None) \<Rightarrow> (st\<lparr>message_queue := q\<rparr>, [])))"

definition mpmc_stop :: "'q mpmc_queue \<Rightarrow> 'q mpmc_queue" where
  "mpmc_stop st = st\<lparr>stop_flag := True\<rparr>"

datatype 'm queue_event = On_message 'm | Run_iteration | Stop

fun mpmc_step :: "('q, 'm) queue_ops \<Rightarrow> 'm queue_event \<Rightarrow> 'q mpmc_queue \<Rightarrow> 'q mpmc_queue \<times> 'm emission list" where
  "mpmc_step ops (On_message msg) st = mpmc_on_message ops msg st"
| "mpmc_step ops Run_iteration st = mpmc_run_iteration ops st"
| "mpmc_step ops Stop st = (mpmc_stop st, [])"

fun mpmc_steps ::
  "('q, 'm) queue_ops \<Rightarrow> 'm queue_event list \<Rightarrow> 'q mpmc_queue \<Rightarrow> 'q mpmc_queue \<times> 'm emission list"
where
  "mpmc_steps ops [] st = (st, [])"
| "mpmc_steps ops (ev # evs) st =
     (let (st1, out1) = mpmc_step ops ev st; (st2, out2) = mpmc_steps ops evs st1 in (st2, out1 @ out2))"

section \<open>No message is lost, doubled or overtaken\<close>

definition submitted :: "'m queue_event list \<Rightarrow> 'm list" where
  "submitted evs = concat (map (\<lambda>ev. case ev of On_message m \<Rightarrow> [m] | _ \<Rightarrow> []) evs)"

definition sent_on :: "string \<Rightarrow> 'm emission list \<Rightarrow> 'm list" where
  "sent_on port out = map snd (filter (\<lambda>e. fst e = port) out)"

text \<open>The submitted messages split into accepted and refused ones, keeping the order of each.\<close>

inductive interleaved :: "'a list \<Rightarrow> 'a list \<Rightarrow> 'a list \<Rightarrow> bool" where
  none: "interleaved [] [] []"
| left: "interleaved xs ys zs \<Longrightarrow> interleaved (x # xs) (x # ys) zs"
| right: "interleaved xs ys zs \<Longrightarrow> interleaved (x # xs) ys (x # zs)"

lemma bounded_fifo_write:
  assumes "bounded_fifo ops contents capacity"
  shows "(\<exists>q'. queue_write ops q m = (q', True) \<and> contents q' = contents q @ [m] \<and> length (contents q) < capacity) \<or>
    (queue_write ops q m = (q, False) \<and> capacity \<le> length (contents q))"
proof (cases "length (contents q) < capacity")
  case True
  then have "snd (queue_write ops q m) \<and> contents (fst (queue_write ops q m)) = contents q @ [m]"
    using assms by (simp add: bounded_fifo_def)
  then show ?thesis using True by (cases "queue_write ops q m") simp
next
  case False
  then show ?thesis using assms by (auto simp: bounded_fifo_def)
qed

lemma bounded_fifo_read:
  assumes "bounded_fifo ops contents capacity"
  shows "(contents q = [] \<and> queue_read ops q = (q, None)) \<or>
    (\<exists>q' m. queue_read ops q = (q', Some m) \<and> contents q = m # contents q')"
proof -
  have r: "case contents q of
        [] \<Rightarrow> queue_read ops q = (q, None)
      | m # ms \<Rightarrow> snd (queue_read ops q) = Some m \<and> contents (fst (queue_read ops q)) = ms"
    using assms unfolding bounded_fifo_def by blast
  show ?thesis
  proof (cases "contents q")
    case Nil
    then show ?thesis using r by simp
  next
    case (Cons m ms)
    then show ?thesis using r by (cases "queue_read ops q") simp
  qed
qed

lemma queue_conservation:
  assumes "bounded_fifo ops contents capacity" and "mpmc_steps ops evs st = (st', out)"
  shows "\<exists>accepted. interleaved (submitted evs) accepted (sent_on ''buffer_full_out'' out) \<and>
    contents (message_queue st) @ accepted = sent_on ''message_out'' out @ contents (message_queue st')"
  using assms(2)
proof (induction evs arbitrary: st out)
  case Nil
  then show ?case by (auto simp: submitted_def sent_on_def intro: interleaved.none)
next
  case (Cons ev evs)
  obtain st1 out1 out2 where step: "mpmc_step ops ev st = (st1, out1)" "mpmc_steps ops evs st1 = (st', out2)"
    and out: "out = out1 @ out2"
    using Cons.prems by (auto simp: Let_def split: prod.splits)
  obtain accepted where ih: "interleaved (submitted evs) accepted (sent_on ''buffer_full_out'' out2)"
    "contents (message_queue st1) @ accepted = sent_on ''message_out'' out2 @ contents (message_queue st')"
    using Cons.IH [OF step(2)] by blast
  show ?case
  proof (cases ev)
    case (On_message m)
    from bounded_fifo_write [OF assms(1), of "message_queue st" m] show ?thesis
    proof (elim disjE exE conjE)
      fix q'
      assume "queue_write ops (message_queue st) m = (q', True)" "contents q' = contents (message_queue st) @ [m]"
      then show ?thesis
        using step(1) ih by (intro exI [of _ "m # accepted"])
          (auto simp: On_message mpmc_on_message_def out submitted_def sent_on_def intro: interleaved.left)
    next
      assume "queue_write ops (message_queue st) m = (message_queue st, False)"
      then show ?thesis
        using step(1) ih by (intro exI [of _ accepted])
          (auto simp: On_message mpmc_on_message_def out submitted_def sent_on_def intro: interleaved.right)
    qed
  next
    case Run_iteration
    from bounded_fifo_read [OF assms(1), of "message_queue st"] show ?thesis
      using step(1) ih by (intro exI [of _ accepted])
        (auto simp: Run_iteration mpmc_run_iteration_def out submitted_def sent_on_def split: if_splits)
  next
    case Stop
    then show ?thesis using step(1) ih by (auto simp: mpmc_stop_def out submitted_def sent_on_def)
  qed
qed

text \<open>
  C23: Over any interleaving of submissions, iterations of the worker and stop requests, the stage loses,
  doubles and reorders nothing: the submitted messages are an interleaving of those refused to
  \<open>buffer_full_out\<close> and those accepted, and the accepted ones are, in order, the ones sent on followed by the
  ones still queued. A message is refused only while the queue is full.
\<close>

theorem queue_stage_conserves_messages:
  assumes "bounded_fifo ops contents capacity" and "contents q = []"
    and "mpmc_steps ops evs (new_mpmc_queue q) = (st', out)"
  shows "(\<exists>accepted. interleaved (submitted evs) accepted (sent_on ''buffer_full_out'' out) \<and>
      accepted = sent_on ''message_out'' out @ contents (message_queue st')) \<and>
    (\<forall>m. snd (mpmc_on_message ops m st') \<noteq> [] \<longleftrightarrow> capacity \<le> length (contents (message_queue st')))"
proof (intro conjI allI)
  show "\<exists>accepted. interleaved (submitted evs) accepted (sent_on ''buffer_full_out'' out) \<and>
      accepted = sent_on ''message_out'' out @ contents (message_queue st')"
    using queue_conservation [OF assms(1,3)] assms(2) by (simp add: new_mpmc_queue_def)
  fix m
  show "snd (mpmc_on_message ops m st') \<noteq> [] \<longleftrightarrow> capacity \<le> length (contents (message_queue st'))"
    using bounded_fifo_write [OF assms(1), of "message_queue st'" m] by (auto simp: mpmc_on_message_def)
qed

text \<open>A list with a capacity of two is such a queue.\<close>

definition list_queue :: "(nat list, nat) queue_ops" where
  "list_queue = \<lparr>queue_write = (\<lambda>q m. if length q < 2 then (q @ [m], True) else (q, False)),
     queue_read = (\<lambda>q. case q of [] \<Rightarrow> ([], None) | m # ms \<Rightarrow> (ms, Some m))\<rparr>"

lemma list_queue_fifo: "bounded_fifo list_queue id 2"
  by (auto simp: bounded_fifo_def list_queue_def split: list.splits)

theorem queue_stage_conserves_messages_witness:
  "\<exists>accepted. interleaved [1, 2, 3 :: nat] accepted (sent_on ''buffer_full_out'' [(''buffer_full_out'', 3), (''message_out'', 1)]) \<and>
     accepted = sent_on ''message_out'' [(''buffer_full_out'', 3), (''message_out'', 1)] @ [2]"
proof -
  have "mpmc_steps list_queue [On_message 1, On_message 2, On_message 3, Run_iteration] (new_mpmc_queue []) =
     (\<lparr>message_queue = [2], stop_flag = False, worker_returned = False\<rparr>, [(''buffer_full_out'', 3), (''message_out'', 1)])"
    by (simp add: list_queue_def new_mpmc_queue_def mpmc_on_message_def mpmc_run_iteration_def)
  from queue_stage_conserves_messages [OF list_queue_fifo _ this] show ?thesis by (simp add: submitted_def)
qed

end
