(* ===== verification/Tcp_Udp_Servers.thy ===== *)
theory Tcp_Udp_Servers
  imports Base_Stage
begin

text \<open>
  \<open>src/stages/tcp_server_stage\<close> and \<open>src/stages/udp_server_stage\<close>: the asynchronous loops that accept
  connections and read from them. Sockets are numbered in the order they are created; the network library
  shows in the events it delivers and in the operations in flight. The message assembler is the template parameter
  of the code: a function from its state and the bytes read to its state and the messages they complete.
  Logging is left out.
\<close>

section \<open>The TCP server\<close>

text \<open>\<open>TcpRequestMessage\<close> with its user data, here the number of the socket, and the response.\<close>

record 'r tcp_request_message =
  request_content :: 'r
  user_data :: nat

record 'r tcp_response_message =
  response_request :: "'r tcp_request_message"
  str_response :: string

record 'asm tcp_server =
  tcp_connections :: "'asm list"
  accept_in_flight :: "nat option"
  reads_in_flight :: "nat list"
  acceptor_open :: bool

definition new_tcp_server :: "'asm tcp_server" where
  "new_tcp_server = \<lparr>tcp_connections = [], accept_in_flight = None, reads_in_flight = [], acceptor_open = False\<rparr>"

text \<open>A new connection object, with a fresh assembler, is created for each accept that is started.\<close>

definition async_accept_next :: "'asm \<Rightarrow> 'asm tcp_server \<Rightarrow> 'asm tcp_server cxx" where
  "async_accept_next fresh_assembler st =
     (let st1 = st\<lparr>tcp_connections := tcp_connections st @ [fresh_assembler]\<rparr> in
      if acceptor_open st1 then Ok (st1\<lparr>accept_in_flight := Some (length (tcp_connections st))\<rparr>)
      else Fault (Undefined ''call through a null acceptor''))"

definition tcp_async_read :: "nat \<Rightarrow> 'asm tcp_server \<Rightarrow> 'asm tcp_server" where
  "tcp_async_read i st = st\<lparr>reads_in_flight := reads_in_flight st @ [i]\<rparr>"

text \<open>\<open>open_result\<close> is what constructing the acceptor gives; a runtime error is caught and logged.\<close>

definition tcp_start :: "unit cxx \<Rightarrow> 'asm \<Rightarrow> 'asm tcp_server \<Rightarrow> 'asm tcp_server cxx" where
  "tcp_start open_result fresh_assembler st =
     and_then (catch_if is_runtime_error (\<lambda>ex. Ok st) (and_then open_result (\<lambda>_. Ok (st\<lparr>acceptor_open := True\<rparr>))))
       (async_accept_next fresh_assembler)"

definition on_accept :: "'asm \<Rightarrow> nat \<Rightarrow> bool \<Rightarrow> 'asm tcp_server \<Rightarrow> 'asm tcp_server cxx" where
  "on_accept fresh_assembler i failed st =
     (if failed then Ok st else async_accept_next fresh_assembler (tcp_async_read i st))"

text \<open>An error is only logged: the bytes are assembled and the next read is started all the same.\<close>

definition on_read ::
  "('asm \<Rightarrow> string \<Rightarrow> 'asm \<times> 'r list) \<Rightarrow> nat \<Rightarrow> bool \<Rightarrow> string \<Rightarrow> 'asm tcp_server
     \<Rightarrow> 'asm tcp_server \<times> 'r tcp_request_message emission list"
where
  "on_read assemble i failed bytes st =
     (let (a, msgs) = assemble (tcp_connections st ! i) bytes;
          st1 = st\<lparr>tcp_connections := (tcp_connections st)[i := a]\<rparr> in
      (tcp_async_read i st1, map (\<lambda>r. (''tcp_request_out'', \<lparr>request_content = r, user_data = i\<rparr>)) msgs))"

text \<open>The handler posted by \<open>on_message\<close>: the socket written to and the bytes.\<close>

definition tcp_on_message :: "'r tcp_response_message \<Rightarrow> nat \<times> string" where
  "tcp_on_message response = (user_data (response_request response), str_response response)"

section \<open>Events\<close>

datatype tcp_event = Accept_completes bool | Read_completes nat bool string

text \<open>The operation that completes is no longer in flight when its handler runs.\<close>

fun tcp_event_step ::
  "('asm \<Rightarrow> string \<Rightarrow> 'asm \<times> 'r list) \<Rightarrow> 'asm \<Rightarrow> tcp_event \<Rightarrow> 'asm tcp_server
     \<Rightarrow> ('asm tcp_server \<times> 'r tcp_request_message emission list) cxx"
where
  "tcp_event_step assemble fresh (Accept_completes failed) st =
     (case accept_in_flight st of
        None \<Rightarrow> Ok (st, [])
      | Some i \<Rightarrow> and_then (on_accept fresh i failed (st\<lparr>accept_in_flight := None\<rparr>)) (\<lambda>st'. Ok (st', [])))"
| "tcp_event_step assemble fresh (Read_completes i failed bytes) st =
     (if i \<in> set (reads_in_flight st)
      then Ok (on_read assemble i failed bytes (st\<lparr>reads_in_flight := remove1 i (reads_in_flight st)\<rparr>))
      else Ok (st, []))"

fun tcp_events ::
  "('asm \<Rightarrow> string \<Rightarrow> 'asm \<times> 'r list) \<Rightarrow> 'asm \<Rightarrow> tcp_event list \<Rightarrow> 'asm tcp_server
     \<Rightarrow> ('asm tcp_server \<times> 'r tcp_request_message emission list) cxx"
where
  "tcp_events assemble fresh [] st = Ok (st, [])"
| "tcp_events assemble fresh (ev # evs) st =
     and_then (tcp_event_step assemble fresh ev st) (\<lambda>(st1, out1).
       and_then (tcp_events assemble fresh evs st1) (\<lambda>(st2, out2). Ok (st2, out1 @ out2)))"

section \<open>The UDP server\<close>

text \<open>
  Receiving re-arms itself whatever the result; the data is not given to \<open>udp_data_out\<close>. \<open>bind_socket\<close> gives the
  outcome of opening the socket, binding it to host and port and joining the multicast group.
\<close>

record udp_server =
  udp_host :: string
  udp_port :: i32
  multicast_address :: string
  receive_in_flight :: bool

definition new_udp_server :: "string \<Rightarrow> i32 \<Rightarrow> string \<Rightarrow> udp_server" where
  "new_udp_server host port address =
     \<lparr>udp_host = host, udp_port = port, multicast_address = address, receive_in_flight = False\<rparr>"

definition udp_async_receive :: "udp_server \<Rightarrow> udp_server" where
  "udp_async_receive st = st\<lparr>receive_in_flight := True\<rparr>"

definition udp_start :: "(string \<Rightarrow> i32 \<Rightarrow> string \<Rightarrow> unit cxx) \<Rightarrow> udp_server \<Rightarrow> udp_server cxx" where
  "udp_start bind_socket st =
     catch_if is_runtime_error (\<lambda>ex. Ok st)
       (and_then (bind_socket (udp_host st) (udp_port st) (multicast_address st)) (\<lambda>_. Ok (udp_async_receive st)))"

definition udp_on_receive :: "string \<Rightarrow> udp_server \<Rightarrow> udp_server \<times> string emission list" where
  "udp_on_receive bytes st = (udp_async_receive st, [])"

section \<open>Properties\<close>

text \<open>
  The connections up to the one waiting to be accepted, or all but the last one when accepting has ended, have exactly one
  read in flight each.
\<close>

definition tcp_inv :: "'asm tcp_server \<Rightarrow> bool" where
  "tcp_inv st \<longleftrightarrow> acceptor_open st \<and> tcp_connections st \<noteq> [] \<and>
     accept_in_flight st \<in> {None, Some (length (tcp_connections st) - 1)} \<and>
     distinct (reads_in_flight st) \<and> set (reads_in_flight st) = {0..<length (tcp_connections st) - 1}"

lemma tcp_start_inv:
  "tcp_start (Ok ()) fresh new_tcp_server = Ok st \<Longrightarrow> tcp_inv st"
  by (auto simp: tcp_start_def new_tcp_server_def async_accept_next_def tcp_inv_def)

lemma tcp_event_inv:
  assumes "tcp_inv st"
  shows "\<exists>st' out. tcp_event_step assemble fresh ev st = Ok (st', out) \<and> tcp_inv st' \<and>
    (\<forall>e \<in> set out. fst e = ''tcp_request_out'' \<and> user_data (snd e) \<in> set (reads_in_flight st)) \<and>
    (accept_in_flight st = None \<longrightarrow> accept_in_flight st' = None \<and> length (tcp_connections st') = length (tcp_connections st))"
proof (cases ev)
  case (Accept_completes failed)
  from assms obtain n where n: "length (tcp_connections st) = Suc n"
    by (cases "tcp_connections st") (auto simp: tcp_inv_def)
  from assms n have r: "set (reads_in_flight st) = {0..<n}" "distinct (reads_in_flight st)" "acceptor_open st"
    "accept_in_flight st = None \<or> accept_in_flight st = Some n"
    by (auto simp: tcp_inv_def)
  show ?thesis
  proof (cases "accept_in_flight st = None \<or> failed")
    case True
    then show ?thesis
      using r n assms by (auto simp: Accept_completes tcp_inv_def on_accept_def)
  next
    case False
    then have "accept_in_flight st = Some n" "\<not> failed" using r(4) by auto
    then show ?thesis
      using r(1-3) n by (simp add: Accept_completes tcp_inv_def on_accept_def async_accept_next_def tcp_async_read_def
          Let_def nth_append atLeast0_lessThan_Suc)
  qed
next
  case (Read_completes i failed bytes)
  obtain a msgs where "assemble (tcp_connections st ! i) bytes = (a, msgs)" by fastforce
  moreover have "insert i (set (reads_in_flight st) - {i}) = set (reads_in_flight st)"
    if "i \<in> set (reads_in_flight st)" using that by blast
  ultimately show ?thesis
    using assms by (cases "i \<in> set (reads_in_flight st)")
      (simp_all add: Read_completes tcp_inv_def on_read_def tcp_async_read_def)
qed

lemma tcp_events_inv:
  assumes "tcp_inv st"
  shows "\<exists>st' out. tcp_events assemble fresh evs st = Ok (st', out) \<and> tcp_inv st' \<and>
    (accept_in_flight st = None \<longrightarrow> length (tcp_connections st') = length (tcp_connections st))"
  using assms
proof (induction evs arbitrary: st)
  case (Cons ev evs)
  obtain st1 out1 where 1: "tcp_event_step assemble fresh ev st = Ok (st1, out1)" "tcp_inv st1"
    "accept_in_flight st = None \<longrightarrow> accept_in_flight st1 = None \<and> length (tcp_connections st1) = length (tcp_connections st)"
    using tcp_event_inv [OF Cons.prems] by blast
  show ?case using Cons.IH [OF 1(2)] 1 by auto
qed simp

text \<open>
  C38: Once its acceptor is open the TCP server never stops by itself: through any events every accepted
  connection has exactly one read in flight, also one whose reads fail, so a closed connection is read for
  ever; and after one failed accept no further connection is ever accepted.
\<close>

theorem tcp_server_loops:
  assumes "tcp_start (Ok ()) fresh new_tcp_server = Ok st0"
  shows "\<exists>st out. tcp_events assemble fresh evs st0 = Ok (st, out) \<and> distinct (reads_in_flight st) \<and>
    set (reads_in_flight st) = {0..<length (tcp_connections st) - 1} \<and>
    (\<exists>st' out' st'' out''. tcp_event_step assemble fresh (Accept_completes True) st = Ok (st', out') \<and>
       tcp_events assemble fresh evs' st' = Ok (st'', out'') \<and>
       length (tcp_connections st'') = length (tcp_connections st))"
proof -
  obtain st out where st: "tcp_events assemble fresh evs st0 = Ok (st, out)" "tcp_inv st"
    using tcp_events_inv [OF tcp_start_inv [OF assms]] by blast
  have "tcp_event_step assemble fresh (Accept_completes True) st = Ok (st\<lparr>accept_in_flight := None\<rparr>, [])"
    by (cases st) (auto simp: on_accept_def split: option.splits)
  moreover have "tcp_inv (st\<lparr>accept_in_flight := None\<rparr>)" using st(2) by (simp add: tcp_inv_def)
  from tcp_events_inv [OF this, of assemble fresh evs'] obtain st'' out'' where
    "tcp_events assemble fresh evs' (st\<lparr>accept_in_flight := None\<rparr>) = Ok (st'', out'')"
    "length (tcp_connections st'') = length (tcp_connections st)" by auto
  ultimately show ?thesis using st by (auto simp: tcp_inv_def)
qed

theorem tcp_server_loops_witness:
  "\<exists>st out. tcp_events (\<lambda>a s. (a, [s])) () [Accept_completes False, Read_completes 0 True []]
     \<lparr>tcp_connections = [()], accept_in_flight = Some 0, reads_in_flight = [], acceptor_open = True\<rparr> = Ok (st, out) \<and>
     distinct (reads_in_flight st)"
proof -
  have "tcp_start (Ok ()) () new_tcp_server =
      Ok \<lparr>tcp_connections = [()], accept_in_flight = Some 0, reads_in_flight = [], acceptor_open = True\<rparr>"
    by (simp add: tcp_start_def new_tcp_server_def async_accept_next_def)
  from tcp_server_loops [OF this] show ?thesis by blast
qed

end
