(* ===== verification/Stage_Ports.thy ===== *)
theory Stage_Ports
  imports Base_Stage Throttle_State_Builder Throttling_Enforcer Load_Balancers Misc_Stages
begin

text \<open>
  How the stages of the repository are put together: the sources and sinks each constructor registers, in
  its order, on the registry of \<open>Base_Stage\<close>; and the wiring of one stage's source to another's sink. A sink is
  referred to by the names of its stage and of the sink.
\<close>

section \<open>Constructors\<close>

datatype port = Source string | Sink string

type_synonym sink_ref = "string \<times> string"

type_synonym stage_ports = "(sink_ref base_source, sink_ref) base_stage"

text \<open>A constructor: \<open>BaseStage(name)\<close>, then a call of \<open>register_source\<close> or \<open>register_sink\<close> for each port.\<close>

fun register_ports :: "port list \<Rightarrow> stage_ports \<Rightarrow> stage_ports cxx" where
  "register_ports [] st = Ok st"
| "register_ports (Source nm # ps) st = and_then (register_source nm new_base_source st) (register_ports ps)"
| "register_ports (Sink nm # ps) st = and_then (register_sink nm (stage_name st, nm) st) (register_ports ps)"

definition construct_stage :: "string \<Rightarrow> port list \<Rightarrow> stage_ports cxx" where
  "construct_stage name ps = register_ports ps (new_base_stage name)"

definition get_name :: "stage_ports \<Rightarrow> string" where
  "get_name st = stage_name st"

definition builder_ports :: "port list" where
  "builder_ports = map Source builder_sources @ map Sink builder_sinks"

definition enforcer_ports :: "port list" where
  "enforcer_ports = map Source enforcer_sources @ map Sink enforcer_sinks"

definition validation_ports :: "port list" where
  "validation_ports = [Source ''valid_requests_out'', Source ''invalid_requests_out'', Sink ''in'']"

definition filter_ports :: "port list" where
  "filter_ports = [Sink ''message_in'', Source ''out'', Source ''filtered'', Source ''exception_out'']"

definition round_robin_ports :: "port list" where
  "round_robin_ports = [Sink ''in'', Source ''out'']"

definition in_process_ports :: "nat \<Rightarrow> port list" where
  "in_process_ports outbound_count = Sink ''message_in'' # map Source (in_process_sources outbound_count)"

definition http_server_ports :: "port list" where
  "http_server_ports = [Source ''http_request_out'', Sink ''http_response_in'', Sink ''configuration_in'']"

definition http_dispatcher_ports :: "port list" where
  "http_dispatcher_ports = [Source ''http_response_out'', Source ''dropped_requests_out'',
     Source ''connection_status_out'', Sink ''http_request_in'']"

definition augmentor_ports :: "port list" where
  "augmentor_ports = [Source ''message_out'', Sink ''message_in'']"

definition jwt_decoder_ports :: "port list" where
  "jwt_decoder_ports = [Source ''decoded_token_out'', Source ''error_decoding_out'', Sink ''message_in'']"

definition jwt_validation_ports :: "port list" where
  "jwt_validation_ports = [Source ''valid_out'', Source ''invalid_out'', Source ''expired_out'', Source ''non_jwt_out'',
     Sink ''message_in'']"

definition two_way_router_ports :: "port list" where
  "two_way_router_ports = [Source ''source_1'', Source ''remaining_source'', Sink ''message_in'']"

definition three_way_router_ports :: "port list" where
  "three_way_router_ports = [Source ''source_1'', Source ''source_2'', Source ''remaining_source'', Sink ''message_in'']"

definition four_way_router_ports :: "port list" where
  "four_way_router_ports = [Source ''source_1'', Source ''source_2'', Source ''source_3'', Source ''remaining_source'',
     Sink ''message_in'']"

definition broadcasting_ports :: "nat \<Rightarrow> port list" where
  "broadcasting_ports output_sink_count = map Source (broadcasting_outputs output_sink_count) @ [Sink ''in'']"

definition delay_ports :: "port list" where
  "delay_ports = [Source ''out'', Sink ''in'']"

definition mpmc_queue_ports :: "port list" where
  "mpmc_queue_ports = [Source ''message_out'', Source ''buffer_full_out'', Sink ''message_in'']"

definition tcp_server_ports :: "port list" where
  "tcp_server_ports = [Source ''tcp_request_out'', Sink ''tcp_response_in'']"

definition udp_server_ports :: "port list" where
  "udp_server_ports = [Source ''udp_data_out'']"

definition all_stage_ports :: "nat \<Rightarrow> port list list" where
  "all_stage_ports n = [builder_ports, enforcer_ports, validation_ports, filter_ports, round_robin_ports, in_process_ports n,
     http_server_ports, http_dispatcher_ports, augmentor_ports, jwt_decoder_ports, jwt_validation_ports,
     two_way_router_ports, three_way_router_ports, four_way_router_ports, broadcasting_ports n, delay_ports,
     mpmc_queue_ports, tcp_server_ports, udp_server_ports]"

section \<open>Wiring\<close>

text \<open>\<open>from.get_source(src)->set_sink(ref)\<close>, where \<open>ref\<close> is \<open>to.get_sink(snk)\<close>; the result is the stage \<open>from\<close>.\<close>

definition connect_source :: "string \<Rightarrow> sink_ref \<Rightarrow> stage_ports \<Rightarrow> stage_ports cxx" where
  "connect_source src ref from_stage =
     and_then (get_source from_stage src) (\<lambda>source.
       Ok (from_stage\<lparr>stage_sources :=
         umap_insert_or_assign src (base_source_set_sink (Some ref) source) (stage_sources from_stage)\<rparr>))"

definition connect_stages :: "string \<Rightarrow> stage_ports \<Rightarrow> string \<Rightarrow> stage_ports \<Rightarrow> stage_ports cxx" where
  "connect_stages src to_stage snk from_stage =
     and_then (get_sink to_stage snk) (\<lambda>ref. connect_source src ref from_stage)"

text \<open>\<open>_source.get_sink()->on_message(message)\<close> inside a stage: where the message goes.\<close>

definition emit_from :: "stage_ports \<Rightarrow> string \<Rightarrow> 'm \<Rightarrow> (sink_ref \<times> 'm) cxx" where
  "emit_from st src msg = and_then (get_source st src) (\<lambda>source. base_source_emit source msg)"

section \<open>Constructing every stage\<close>

text \<open>Decimal representations are distinct: a representation is read back.\<close>

lemma nat_to_string_value: "foldl (\<lambda>a c. a * 10 + (of_char c - 48)) 0 (nat_to_string n) = (n :: nat)"
proof (induction n rule: less_induct)
  case (less n)
  show ?case
  proof (cases "n < 10")
    case True
    then show ?thesis by (simp add: nat_to_string.simps [of n])
  next
    case False
    then have "foldl (\<lambda>a c. a * 10 + (of_char c - 48)) 0 (nat_to_string (n div 10)) = n div 10"
      by (intro less.IH) simp
    then show ?thesis using False by (simp add: nat_to_string.simps [of n])
  qed
qed

lemma inj_nat_to_string: "inj nat_to_string"
  by (rule inj_on_inverseI [of _ "foldl (\<lambda>a c. a * 10 + (of_char c - 48)) 0"]) (rule nat_to_string_value)

lemma numbered_distinct: "distinct (map (\<lambda>i. prefix @ nat_to_string i) [0..<n])"
  by (auto simp: distinct_map inj_on_def dest: injD [OF inj_nat_to_string])

definition source_names :: "port list \<Rightarrow> string list" where
  "source_names ps = List.map_filter (\<lambda>p. case p of Source nm \<Rightarrow> Some nm | Sink nm \<Rightarrow> None) ps"

definition sink_names :: "port list \<Rightarrow> string list" where
  "sink_names ps = List.map_filter (\<lambda>p. case p of Sink nm \<Rightarrow> Some nm | Source nm \<Rightarrow> None) ps"

lemma port_names [simp]:
  "source_names [] = []" "sink_names [] = []"
  "source_names (Source nm # ps) = nm # source_names ps" "sink_names (Source nm # ps) = sink_names ps"
  "source_names (Sink nm # ps) = source_names ps" "sink_names (Sink nm # ps) = nm # sink_names ps"
  "source_names (map Source nms) = nms" "sink_names (map Source nms) = []"
  "source_names (map Sink nms) = []" "sink_names (map Sink nms) = nms"
  "source_names (ps @ qs) = source_names ps @ source_names qs" "sink_names (ps @ qs) = sink_names ps @ sink_names qs"
  by (simp_all add: source_names_def sink_names_def List.map_filter_def) (induction nms; simp)+

lemma register_ports_Ok:
  assumes "distinct (map fst (stage_sources st) @ source_names ps)" and "distinct (map fst (stage_sinks st) @ sink_names ps)"
  shows "register_ports ps st = Ok (st\<lparr>stage_sources := stage_sources st @ map (\<lambda>nm. (nm, new_base_source)) (source_names ps),
    stage_sinks := stage_sinks st @ map (\<lambda>nm. (nm, (stage_name st, nm))) (sink_names ps)\<rparr>)"
  using assms
proof (induction ps arbitrary: st)
  case (Cons p ps)
  show ?case
  proof (cases p)
    case (Source nm)
    then show ?thesis using Cons by (simp add: register_source_cases umap_contains_keys)
  next
    case (Sink nm)
    then show ?thesis using Cons by (simp add: register_sink_cases umap_contains_keys)
  qed
qed simp

lemma find_named: "umap_find (map (\<lambda>nm. (nm, f nm)) nms) nm = (if nm \<in> set nms then Some (f nm) else None)"
  by (simp add: umap_find_def map_of_map_restrict restrict_map_def)

lemma construct_distinct:
  assumes "distinct (source_names ps)" and "distinct (sink_names ps)"
  obtains st where "construct_stage name ps = Ok st" and "get_name st = name"
    and "\<And>nm. get_source st nm = (if nm \<in> set (source_names ps) then Ok new_base_source
      else Throw (SourceDoesNotExistException (''['' @ name @ '']'' @ ''No source found by the name '' @ nm)))"
    and "\<And>nm. get_sink st nm = (if nm \<in> set (sink_names ps) then Ok (name, nm)
      else Throw (SinkDoesNotExistException (''['' @ name @ '']'' @ ''No sink found by the name '' @ nm)))"
proof
  show "construct_stage name ps = Ok \<lparr>stage_name = name,
      stage_sources = map (\<lambda>nm. (nm, new_base_source)) (source_names ps),
      stage_sinks = map (\<lambda>nm. (nm, (name, nm))) (sink_names ps)\<rparr>" (is "_ = Ok ?st")
    using assms register_ports_Ok [of "new_base_stage name" ps] by (simp add: construct_stage_def new_base_stage_def)
  show "get_name ?st = name" by (simp add: get_name_def)
  show "get_source ?st nm = (if nm \<in> set (source_names ps) then Ok new_base_source
      else Throw (SourceDoesNotExistException (''['' @ name @ '']'' @ ''No source found by the name '' @ nm)))" for nm
    by (simp add: get_source_def find_named)
  show "get_sink ?st nm = (if nm \<in> set (sink_names ps) then Ok (name, nm)
      else Throw (SinkDoesNotExistException (''['' @ name @ '']'' @ ''No sink found by the name '' @ nm)))" for nm
    by (simp add: get_sink_def find_named)
qed

lemmas port_defs = builder_ports_def enforcer_ports_def validation_ports_def filter_ports_def round_robin_ports_def
  in_process_ports_def http_server_ports_def http_dispatcher_ports_def augmentor_ports_def jwt_decoder_ports_def
  jwt_validation_ports_def two_way_router_ports_def three_way_router_ports_def four_way_router_ports_def
  broadcasting_ports_def delay_ports_def mpmc_queue_ports_def tcp_server_ports_def udp_server_ports_def
  builder_sources_def builder_sinks_def enforcer_sources_def enforcer_sinks_def

lemma distinct_outputs: "distinct (in_process_sources n)" "distinct (broadcasting_outputs n)"
  unfolding in_process_sources_def broadcasting_outputs_def by (rule numbered_distinct)+

lemma all_ports_distinct:
  "ps \<in> set (all_stage_ports n) \<Longrightarrow> distinct (source_names ps) \<and> distinct (sink_names ps)"
  unfolding all_stage_ports_def
  by (auto simp: port_defs distinct_outputs)

text \<open>A connected source emits to its sink, and no other source of the stage is touched.\<close>

lemma connect_emits:
  assumes "get_source st src = Ok source" and "get_sink to_stage snk = Ok ref"
  obtains st' where "connect_stages src to_stage snk st = Ok st'" and "emit_from st' src msg = Ok (ref, msg)"
    and "\<And>nm. nm \<noteq> src \<Longrightarrow> get_source st' nm = get_source st nm" and "\<And>nm. get_sink st' nm = get_sink st nm"
proof
  let ?st' = "st\<lparr>stage_sources := umap_insert_or_assign src (base_source_set_sink (Some ref) source) (stage_sources st)\<rparr>"
  show "connect_stages src to_stage snk st = Ok ?st'" using assms by (simp add: connect_stages_def connect_source_def)
  show "emit_from ?st' src msg = Ok (ref, msg)" by (simp add: emit_from_def get_source_def)
  show "get_source ?st' nm = get_source st nm" if "nm \<noteq> src" for nm using that by (simp add: get_source_def split: option.split)
  show "get_sink ?st' nm = get_sink st nm" for nm by (simp add: get_sink_def split: option.split)
qed

text \<open>
  C22: Every stage of the repository can be constructed and wired. Whatever its name and the number of
  its numbered ports, no constructor registers a port twice, so none throws; the new stage has exactly the
  ports its constructor names, and reports any other name. A new source has no sink: a message emitted through
  it is a call through a null pointer. Once connected to a sink it emits there, and the other ports are as before.
\<close>

theorem every_stage_can_be_wired:
  assumes "ps \<in> set (all_stage_ports n)"
  shows "\<exists>st. construct_stage name ps = Ok st \<and> get_name st = name \<and>
    (\<forall>nm. (nm \<in> set (sink_names ps) \<longrightarrow> get_sink st nm = Ok (name, nm)) \<and>
      (nm \<notin> set (sink_names ps) \<longrightarrow> (\<exists>w. get_sink st nm = Throw (SinkDoesNotExistException w))) \<and>
      (nm \<notin> set (source_names ps) \<longrightarrow> (\<exists>w. get_source st nm = Throw (SourceDoesNotExistException w)))) \<and>
    (\<forall>src \<in> set (source_names ps). (\<exists>w. emit_from st src msg = Fault (Undefined w)) \<and>
      (\<forall>to_stage snk ref. get_sink to_stage snk = Ok ref \<longrightarrow>
        (\<exists>st'. connect_stages src to_stage snk st = Ok st' \<and> emit_from st' src msg = Ok (ref, msg) \<and>
          (\<forall>nm. nm \<noteq> src \<longrightarrow> get_source st' nm = get_source st nm) \<and> (\<forall>nm. get_sink st' nm = get_sink st nm))))"
proof -
  obtain st where st: "construct_stage name ps = Ok st" "get_name st = name"
    "\<And>nm. get_source st nm = (if nm \<in> set (source_names ps) then Ok new_base_source
      else Throw (SourceDoesNotExistException (''['' @ name @ '']'' @ ''No source found by the name '' @ nm)))"
    "\<And>nm. get_sink st nm = (if nm \<in> set (sink_names ps) then Ok (name, nm)
      else Throw (SinkDoesNotExistException (''['' @ name @ '']'' @ ''No sink found by the name '' @ nm)))"
    using all_ports_distinct [OF assms] construct_distinct by blast
  have null: "emit_from st src msg = Fault (Undefined ''call through a null sink'')" if "src \<in> set (source_names ps)" for src
    using that by (simp add: emit_from_def st(3) base_source_emit_def base_source_get_sink_def new_base_source_def)
  have wired: "\<exists>st'. connect_stages src to_stage snk st = Ok st' \<and> emit_from st' src msg = Ok (ref, msg) \<and>
      (\<forall>nm. nm \<noteq> src \<longrightarrow> get_source st' nm = get_source st nm) \<and> (\<forall>nm. get_sink st' nm = get_sink st nm)"
    if "src \<in> set (source_names ps)" "get_sink to_stage snk = Ok ref" for src to_stage snk ref
  proof -
    have "get_source st src = Ok new_base_source" using that(1) by (simp add: st(3))
    from connect_emits [OF this that(2)] show ?thesis by metis
  qed
  show ?thesis using st null wired by auto
qed

theorem every_stage_can_be_wired_witness:
  "\<exists>st. construct_stage ''balancer'' (in_process_ports 12) = Ok st \<and> get_name st = ''balancer'' \<and>
     get_sink st ''message_in'' = Ok (''balancer'', ''message_in'')"
proof -
  have ports: "in_process_ports 12 \<in> set (all_stage_ports 12)" by (simp add: all_stage_ports_def)
  have mem: "''message_in'' \<in> set (sink_names (in_process_ports 12))" by (simp add: in_process_ports_def)
  from every_stage_can_be_wired [OF ports, of "''balancer''" "()"] show ?thesis
    by (elim exE conjE) (rule exI, intro conjI, assumption, assumption, drule spec [of _ "''message_in''"], simp add: mem)
qed

end
