(* ===== verification/Gateway.thy ===== *)
theory Gateway
  imports Stage_Ports Http_Server Http_Dispatcher Request_Validation Throttle_Loop
begin

text \<open>
  The stages put together, as the repository's ports are meant to be wired: requests of the HTTP server are validated,
  throttled, balanced over a pool of end points and dispatched, and the responses go back to the server; what
  is refused on the way goes to the sink of a stage \<open>rejected\<close>. Behind each of the two outputs of the enforcer a
  broadcasting stage hands the marked request to the state builder first, whose state messages go back to the
  enforcer. A call of \<open>on_message\<close> runs the handlers of all stages it reaches before it returns, so one request is one
  nested run of calls up to the dispatcher's event loop.
\<close>

section \<open>The wiring\<close>

type_synonym wire = "(string \<times> string) \<times> (string \<times> string)"

definition gateway_wires :: "wire list" where
  "gateway_wires =
     [((''server'', ''http_request_out''), (''validator'', ''in'')),
      ((''validator'', ''valid_requests_out''), (''enforcer'', ''message_in'')),
      ((''validator'', ''invalid_requests_out''), (''rejected'', ''in'')),
      ((''enforcer'', ''allowed_out''), (''admitted'', ''in'')),
      ((''enforcer'', ''throttled_out''), (''suppressed'', ''in'')),
      ((''admitted'', ''out-0''), (''builder'', ''message_in'')),
      ((''admitted'', ''out-1''), (''balancer'', ''in'')),
      ((''suppressed'', ''out-0''), (''builder'', ''message_in'')),
      ((''suppressed'', ''out-1''), (''rejected'', ''in'')),
      ((''builder'', ''state_out''), (''enforcer'', ''throttle_state_in'')),
      ((''builder'', ''error_out''), (''monitor'', ''in'')),
      ((''balancer'', ''out''), (''dispatcher'', ''http_request_in'')),
      ((''dispatcher'', ''http_response_out''), (''server'', ''http_response_in'')),
      ((''dispatcher'', ''dropped_requests_out''), (''rejected'', ''in''))]"

fun construct_stages :: "(string \<times> port list) list \<Rightarrow> (string, stage_ports) umap cxx" where
  "construct_stages [] = Ok []"
| "construct_stages ((name, ps) # rest) =
     and_then (construct_stage name ps) (\<lambda>st. and_then (construct_stages rest) (\<lambda>sts. Ok ((name, st) # sts)))"

definition find_stage :: "(string, stage_ports) umap \<Rightarrow> string \<Rightarrow> stage_ports cxx" where
  "find_stage stages name =
     (case umap_find stages name of Some st \<Rightarrow> Ok st | None \<Rightarrow> Fault (Undefined ''no such stage''))"

fun connect_wires :: "wire list \<Rightarrow> (string, stage_ports) umap \<Rightarrow> (string, stage_ports) umap cxx" where
  "connect_wires [] stages = Ok stages"
| "connect_wires (((from_name, src), (to_name, snk)) # ws) stages =
     and_then (find_stage stages from_name) (\<lambda>from_stage.
     and_then (find_stage stages to_name) (\<lambda>to_stage.
     and_then (connect_stages src to_stage snk from_stage) (\<lambda>st.
       connect_wires ws (umap_insert_or_assign from_name st stages))))"

definition build_gateway :: "(string, stage_ports) umap cxx" where
  "build_gateway =
     and_then (construct_stages [(''server'', http_server_ports), (''validator'', validation_ports),
        (''enforcer'', enforcer_ports), (''admitted'', broadcasting_ports 2), (''suppressed'', broadcasting_ports 2),
        (''builder'', builder_ports), (''balancer'', round_robin_ports), (''dispatcher'', http_dispatcher_ports),
        (''rejected'', [Sink ''in'']), (''monitor'', [Sink ''in''])])
       (connect_wires gateway_wires)"

definition emit_at :: "(string, stage_ports) umap \<Rightarrow> string \<Rightarrow> string \<Rightarrow> 'm \<Rightarrow> (sink_ref \<times> 'm) cxx" where
  "emit_at stages name src msg = and_then (find_stage stages name) (\<lambda>st. emit_from st src msg)"

definition wired :: "(string, stage_ports) umap \<Rightarrow> bool" where
  "wired stages \<longleftrightarrow> list_all (\<lambda>((name, src), ref). emit_at stages name src () = Ok (ref, ())) gateway_wires"

section \<open>Running a request\<close>

record gateway =
  gw_stages :: "(string, stage_ports) umap"
  gw_validator :: http_request_validation_stage
  gw_enforcer :: throttling_enforcer
  gw_builder :: throttle_state_builder
  gw_balancer :: round_robin_load_balancer
  gw_dispatcher :: http_dispatcher

text \<open>
  Messages are handed on by pointer: the object a handler has written is what the next one reads, and what a
  broadcasting stage's second sink finds is the object as the first sink's handlers left it. So a run threads
  the one message object through all calls. A handler that emits leaves the object as it is in its emissions.
\<close>

definition handed_on :: "http_request_message emission list \<Rightarrow> http_request_message \<Rightarrow> http_request_message" where
  "handed_on es msg = (if es = [] then msg else snd (last es))"

text \<open>
  One handler: the gateway after it, the message object, the sources it emits through, and what arrives at a sink
  outside.
\<close>

definition run_handler :: "cxx_runtime \<Rightarrow> sink_ref \<Rightarrow> http_request_message \<Rightarrow> gateway
    \<Rightarrow> (gateway \<times> http_request_message \<times> string list \<times> (sink_ref \<times> http_request_message) list) cxx"
where
  "run_handler rt ref msg g =
     (if ref = (''validator'', ''in'')
      then and_then (validation_on_message rt msg (gw_validator g)) (\<lambda>(v, es).
        Ok (g\<lparr>gw_validator := v\<rparr>, handed_on es msg, map fst es, []))
      else if ref = (''enforcer'', ''message_in'')
      then and_then (enforcer_on_message msg (gw_enforcer g)) (\<lambda>es. Ok (g, handed_on es msg, map fst es, []))
      else if ref = (''admitted'', ''in'') \<or> ref = (''suppressed'', ''in'')
      then Ok (g, msg, map fst (broadcasting_on_message 2 msg), [])
      else if ref = (''builder'', ''message_in'')
      then and_then (builder_on_message msg (gw_builder g)) (\<lambda>(b, es).
        Ok (g\<lparr>gw_builder := b\<rparr>, handed_on es msg, map fst es, []))
      else if ref = (''balancer'', ''in'')
      then and_then (round_robin_on_message msg (gw_balancer g)) (\<lambda>(b, es).
        Ok (g\<lparr>gw_balancer := b\<rparr>, handed_on es msg, map fst es, []))
      else if ref = (''dispatcher'', ''http_request_in'')
      then Ok (g\<lparr>gw_dispatcher := dispatcher_on_message msg (gw_dispatcher g)\<rparr>, msg, [], [])
      else Ok (g, msg, [], [(ref, msg)]))"

text \<open>
  \<open>on_message\<close> of a sink, with the handlers its emissions reach in turn. The fuel bounds the depth of nested
  calls; five is the length of the longest path.
\<close>

fun deliver :: "nat \<Rightarrow> cxx_runtime \<Rightarrow> sink_ref \<Rightarrow> http_request_message \<Rightarrow> gateway
    \<Rightarrow> (gateway \<times> http_request_message \<times> (sink_ref \<times> http_request_message) list) cxx"
and deliver_all :: "nat \<Rightarrow> cxx_runtime \<Rightarrow> string \<Rightarrow> string list \<Rightarrow> http_request_message \<Rightarrow> gateway
    \<Rightarrow> (gateway \<times> http_request_message \<times> (sink_ref \<times> http_request_message) list) cxx"
where
  "deliver 0 rt ref msg g = Fault (Undefined ''calls nested too deeply'')"
| "deliver (Suc n) rt ref msg g =
     and_then (run_handler rt ref msg g) (\<lambda>(g1, msg1, srcs, out1).
     and_then (deliver_all n rt (fst ref) srcs msg1 g1) (\<lambda>(g2, msg2, out2). Ok (g2, msg2, out1 @ out2)))"
| "deliver_all n rt name [] msg g = Ok (g, msg, [])"
| "deliver_all n rt name (src # srcs) msg g =
     and_then (emit_at (gw_stages g) name src msg) (\<lambda>(ref, msg0).
     and_then (deliver n rt ref msg0 g) (\<lambda>(g1, msg1, out1).
     and_then (deliver_all n rt name srcs msg1 g1) (\<lambda>(g2, msg2, out2). Ok (g2, msg2, out1 @ out2))))"

text \<open>A request the server has received, and the response of the dispatcher on its way back.\<close>

definition gateway_request :: "cxx_runtime \<Rightarrow> http_request_message \<Rightarrow> gateway
    \<Rightarrow> (gateway \<times> (sink_ref \<times> http_request_message) list) cxx" where
  "gateway_request rt msg g =
     and_then (deliver_all 5 rt ''server'' (map fst (on_request_data True msg)) msg g) (\<lambda>(g', msg', out). Ok (g', out))"

definition gateway_respond :: "gateway \<Rightarrow> http_response_message \<Rightarrow> (u64 \<times> response_action list) cxx" where
  "gateway_respond g response =
     and_then (emit_at (gw_stages g) ''dispatcher'' ''http_response_out'' response) (\<lambda>(ref, response').
       if ref = (''server'', ''http_response_in'') then server_on_response response'
       else Fault (Undefined ''not the server''))"

text \<open>A flush message at the builder: its state messages go back to the enforcer.\<close>

fun deliver_states :: "throttle_state_message emission list \<Rightarrow> gateway \<Rightarrow> gateway cxx" where
  "deliver_states [] g = Ok g"
| "deliver_states ((src, m) # es) g =
     and_then (emit_at (gw_stages g) ''builder'' src m) (\<lambda>(ref, m').
       if ref = (''enforcer'', ''throttle_state_in'')
       then deliver_states es (g\<lparr>gw_enforcer := on_throttle_state_message m' (gw_enforcer g)\<rparr>)
       else Fault (Undefined ''not the enforcer''))"

definition gateway_flush :: "gateway \<Rightarrow> gateway cxx" where
  "gateway_flush g =
     (let (b, es) = builder_on_flush_message (gw_builder g) in deliver_states es (g\<lparr>gw_builder := b\<rparr>))"

section \<open>The gateway is wired\<close>

lemma build_gateway_wired: "\<exists>stages. build_gateway = Ok stages \<and> wired stages"
proof -
  have "(case build_gateway of Ok stages \<Rightarrow> wired stages | _ \<Rightarrow> False)" by code_simp
  then show ?thesis by (auto split: outcome.splits)
qed

lemma built_gateway_wired: "build_gateway = Ok stages \<Longrightarrow> wired stages"
  using build_gateway_wired by (metis outcome.inject(1))

lemma emit_at_any: "emit_at stages name src () = Ok (ref, ()) \<Longrightarrow> emit_at stages name src msg = Ok (ref, msg)"
  by (auto simp: emit_at_def emit_from_def base_source_emit_def and_then_Ok_iff split: option.splits)

lemma wired_emits:
  assumes "wired stages"
  shows "emit_at stages ''server'' ''http_request_out'' msg = Ok ((''validator'', ''in''), msg)"
    and "emit_at stages ''validator'' ''valid_requests_out'' msg = Ok ((''enforcer'', ''message_in''), msg)"
    and "emit_at stages ''validator'' ''invalid_requests_out'' msg = Ok ((''rejected'', ''in''), msg)"
    and "emit_at stages ''enforcer'' ''allowed_out'' msg = Ok ((''admitted'', ''in''), msg)"
    and "emit_at stages ''enforcer'' ''throttled_out'' msg = Ok ((''suppressed'', ''in''), msg)"
    and "emit_at stages ''admitted'' ''out-0'' msg = Ok ((''builder'', ''message_in''), msg)"
    and "emit_at stages ''admitted'' ''out-1'' msg = Ok ((''balancer'', ''in''), msg)"
    and "emit_at stages ''suppressed'' ''out-0'' msg = Ok ((''builder'', ''message_in''), msg)"
    and "emit_at stages ''suppressed'' ''out-1'' msg = Ok ((''rejected'', ''in''), msg)"
    and "emit_at stages ''builder'' ''state_out'' sm = Ok ((''enforcer'', ''throttle_state_in''), sm)"
    and "emit_at stages ''builder'' ''error_out'' msg = Ok ((''monitor'', ''in''), msg)"
    and "emit_at stages ''balancer'' ''out'' msg = Ok ((''dispatcher'', ''http_request_in''), msg)"
    and "emit_at stages ''dispatcher'' ''http_response_out'' msg' = Ok ((''server'', ''http_response_in''), msg')"
  using assms by (auto simp: wired_def gateway_wires_def intro: emit_at_any)

section \<open>One request through the gateway\<close>

lemma fuel_numerals: "(5::nat) = Suc (Suc (Suc (Suc (Suc 0))))"
  by simp

lemma enforcer_allows:
  "list_all (passes msg (enforcer_states e)) (enforcer_lookup_filed_names e) \<Longrightarrow>
   enforcer_on_message msg e = Ok [(''allowed_out'', set_field string_alt ''throttling'' ''state'' ''allowed'' msg)]"
  using enforcer_loop_prefix [of msg "enforcer_states e" "enforcer_lookup_filed_names e" "[]"]
  by (simp add: enforcer_on_message_def)

lemma enforcer_suppresses:
  assumes "enforcer_lookup_filed_names e = pre @ nm # post" and "list_all (passes msg (enforcer_states e)) pre"
    and "blocks msg (enforcer_states e) nm"
  shows "enforcer_on_message msg e = Ok [(''throttled_out'', set_field string_alt ''throttling'' ''state'' ''suppressed'' msg)]"
  using assms by (simp add: enforcer_on_message_def enforcer_loop_prefix enforcer_loop_Cons blocks_not_passes
      del: enforcer_loop.simps(2))

text \<open>
  What the state builder makes of a request: the throttlers its lookup fields name are fed, and each lookup field that
  names none is reported once.
\<close>

definition fed :: "u64 \<Rightarrow> string \<Rightarrow> http_request_message \<Rightarrow> throttle_state_builder \<Rightarrow> throttle_state_builder" where
  "fed ts st msg b = fold (feed_one ts st) (List.map_filter (lookup_id msg) (builder_lookup_filed_names b)) b"

definition reports :: "http_request_message \<Rightarrow> throttle_state_builder \<Rightarrow> nat" where
  "reports msg b = length (filter (\<lambda>nm. \<not> feeds msg b nm) (builder_lookup_filed_names b))"

abbreviation marked :: "string \<Rightarrow> http_request_message \<Rightarrow> http_request_message" where
  "marked st msg \<equiv> set_field string_alt ''throttling'' ''state'' st msg"

text \<open>A request the builder can read: its time stamp, and its lookup fields where they exist.\<close>

definition readable :: "throttle_state_builder \<Rightarrow> http_request_message \<Rightarrow> u64 \<Rightarrow> bool" where
  "readable b msg ts \<longleftrightarrow> get_field int64_alt msg ''info'' (time_stamp_field_name b) = Ok ts \<and>
     lookups_readable msg (builder_lookup_filed_names b)"

lemma builder_fed:
  assumes "readable b msg ts"
  shows "builder_on_message (marked st msg) b = Ok (fed ts st msg b, replicate (reports msg b) (''error_out'', marked st msg))"
proof -
  have id: "lookup_id (marked st msg) = lookup_id msg" by (simp add: lookup_id_def fun_eq_iff)
  have "lookups_readable (marked st msg) (builder_lookup_filed_names b)"
    using assms by (simp add: readable_def lookups_readable_def id)
  moreover have "feeds (marked st msg) b nm = feeds msg b nm" for nm by (simp add: feeds_def id)
  ultimately show ?thesis
    using assms builder_on_message_effect_of [of "marked st msg" b ts st]
    by (simp add: readable_def fed_def reports_def id)
qed

lemma two_outputs: "broadcasting_outputs 2 = [''out-0'', ''out-1'']"
  by code_simp

lemma broadcast_outputs: "map fst (broadcasting_on_message 2 msg) = [''out-0'', ''out-1'']"
  by (simp add: broadcasting_on_message_def two_outputs)

lemma handed_on_simps [simp]:
  "handed_on [] msg = msg" "handed_on [(src, m)] msg = m" "handed_on (replicate k (src, msg)) msg = msg"
  by (simp_all add: handed_on_def)

lemma monitor_reports:
  "wired (gw_stages g) \<Longrightarrow> deliver_all (Suc n) rt ''builder'' (replicate k ''error_out'') m g =
     Ok (g, m, replicate k ((''monitor'', ''in''), m))"
  by (induction k) (simp_all add: wired_emits run_handler_def)

lemma deliver_builder:
  assumes "wired (gw_stages g)" and "readable (gw_builder g) msg ts"
  shows "deliver (Suc (Suc n)) rt (''builder'', ''message_in'') (marked st msg) g =
    Ok (g\<lparr>gw_builder := fed ts st msg (gw_builder g)\<rparr>, marked st msg,
      replicate (reports msg (gw_builder g)) ((''monitor'', ''in''), marked st msg))"
  using assms(1) by (simp add: run_handler_def builder_fed [OF assms(2)] monitor_reports del: replicate.simps)

lemma deliver_suppressed:
  assumes "wired (gw_stages g)" and "readable (gw_builder g) msg ts"
  shows "deliver (Suc (Suc (Suc n))) rt (''suppressed'', ''in'') (marked st msg) g =
    Ok (g\<lparr>gw_builder := fed ts st msg (gw_builder g)\<rparr>, marked st msg,
      replicate (reports msg (gw_builder g)) ((''monitor'', ''in''), marked st msg) @ [((''rejected'', ''in''), marked st msg)])"
  using assms(1)
  by (simp add: deliver.simps(2) [of "Suc (Suc n)"] run_handler_def broadcast_outputs wired_emits deliver_builder [OF assms]
      del: deliver.simps) (simp add: run_handler_def)

lemma deliver_admitted:
  assumes "wired (gw_stages g)" and "readable (gw_builder g) msg ts"
    and "round_robin_on_message (marked st msg) (gw_balancer g) = Ok (b', [(''out'', m')])"
  shows "deliver (Suc (Suc (Suc n))) rt (''admitted'', ''in'') (marked st msg) g =
    Ok (g\<lparr>gw_builder := fed ts st msg (gw_builder g), gw_balancer := b',
        gw_dispatcher := dispatcher_on_message m' (gw_dispatcher g)\<rparr>, m',
      replicate (reports msg (gw_builder g)) ((''monitor'', ''in''), marked st msg))"
  using assms(1)
  by (simp add: deliver.simps(2) [of "Suc (Suc n)"] run_handler_def broadcast_outputs wired_emits deliver_builder [OF assms(1,2)]
      del: deliver.simps) (simp add: run_handler_def wired_emits assms(3))

text \<open>A balancer that can place a message: its pool has between one and 256 end points and the next one is \<open>ep\<close>.\<close>

definition places :: "round_robin_load_balancer \<Rightarrow> http_request_message \<Rightarrow> string \<times> string \<times> string \<Rightarrow> bool" where
  "places b msg ep \<longleftrightarrow> fst (pool_lookup_field b) \<noteq> ''throttling'' \<and>
     (\<exists>key es. get_field string_alt msg (fst (pool_lookup_field b)) (snd (pool_lookup_field b)) = Ok key \<and>
       pool_configured (balancer_store b) key es \<and> es \<noteq> [] \<and> length es \<le> 256 \<and> pool_index b key < length es \<and>
       ep = es ! ((pool_index b key + 1) mod length es))"

lemma balancer_places:
  assumes "places b msg (e, host, port)"
  shows "\<exists>b'. round_robin_on_message (marked s msg) b =
    Ok (b', [(''out'', endpoint_message host port (marked s msg))])"
proof -
  obtain key es where b: "fst (pool_lookup_field b) \<noteq> ''throttling''"
    "get_field string_alt msg (fst (pool_lookup_field b)) (snd (pool_lookup_field b)) = Ok key"
    "pool_configured (balancer_store b) key es" "es \<noteq> []" "length es \<le> 256" "pool_index b key < length es"
    "(e, host, port) = es ! ((pool_index b key + 1) mod length es)"
    using assms by (auto simp: places_def)
  have "get_field string_alt (marked s msg) (fst (pool_lookup_field b))
      (snd (pool_lookup_field b)) = Ok key" using b(1,2) by simp
  moreover have "pool_endpoint es ((pool_index b key + 1) mod length es) m = endpoint_message host port m" for m :: http_request_message
    unfolding pool_endpoint_def b(7) [symmetric] by simp
  ultimately show ?thesis using round_robin_step [OF _ b(3-6)] by metis
qed

text \<open>The message of a request that has been allowed and placed.\<close>

definition placed :: "string \<Rightarrow> string \<Rightarrow> http_request_message \<Rightarrow> http_request_message" where
  "placed host port msg = endpoint_message host port (marked ''allowed'' msg)"

text \<open>A refused request, and the two ways of a valid one behind the enforcer.\<close>

lemma gateway_refuses:
  assumes "wired (gw_stages g)" and "validation_on_message rt msg (gw_validator g) = Ok (v', [(''invalid_requests_out'', msg)])"
  shows "gateway_request rt msg g = Ok (g\<lparr>gw_validator := v'\<rparr>, [((''rejected'', ''in''), msg)])"
  using assms by (simp add: gateway_request_def on_request_data_def fuel_numerals wired_emits run_handler_def)

lemma gateway_suppresses:
  assumes "wired (gw_stages g)" and "validation_on_message rt msg (gw_validator g) = Ok (v', [(''valid_requests_out'', msg)])"
    and "enforcer_on_message msg (gw_enforcer g) = Ok [(''throttled_out'', marked ''suppressed'' msg)]"
    and "readable (gw_builder g) msg ts"
  shows "gateway_request rt msg g = Ok (g\<lparr>gw_validator := v', gw_builder := fed ts ''suppressed'' msg (gw_builder g)\<rparr>,
    replicate (reports msg (gw_builder g)) ((''monitor'', ''in''), marked ''suppressed'' msg) @
      [((''rejected'', ''in''), marked ''suppressed'' msg)])"
proof -
  let ?g = "g\<lparr>gw_validator := v'\<rparr>"
  have suppressed: "deliver (Suc (Suc (Suc 0))) rt (''suppressed'', ''in'') (marked ''suppressed'' msg) ?g =
      Ok (?g\<lparr>gw_builder := fed ts ''suppressed'' msg (gw_builder g)\<rparr>, marked ''suppressed'' msg,
        replicate (reports msg (gw_builder g)) ((''monitor'', ''in''), marked ''suppressed'' msg) @
          [((''rejected'', ''in''), marked ''suppressed'' msg)])"
    using deliver_suppressed [of ?g msg ts 0 rt "''suppressed''"] assms(1,4) by (simp del: deliver.simps)
  show ?thesis
    using assms(1)
    by (simp add: gateway_request_def on_request_data_def fuel_numerals wired_emits del: deliver.simps)
      (simp add: deliver.simps(2) [of "Suc (Suc (Suc n))" for n] wired_emits run_handler_def assms(2,3) suppressed del: deliver.simps)
qed

lemma gateway_admits:
  assumes "wired (gw_stages g)" and "validation_on_message rt msg (gw_validator g) = Ok (v', [(''valid_requests_out'', msg)])"
    and "enforcer_on_message msg (gw_enforcer g) = Ok [(''allowed_out'', marked ''allowed'' msg)]"
    and "readable (gw_builder g) msg ts"
    and "round_robin_on_message (marked ''allowed'' msg) (gw_balancer g) = Ok (b', [(''out'', m')])"
  shows "gateway_request rt msg g = Ok (g\<lparr>gw_validator := v', gw_builder := fed ts ''allowed'' msg (gw_builder g),
      gw_balancer := b', gw_dispatcher := dispatcher_on_message m' (gw_dispatcher g)\<rparr>,
    replicate (reports msg (gw_builder g)) ((''monitor'', ''in''), marked ''allowed'' msg))"
proof -
  let ?g = "g\<lparr>gw_validator := v'\<rparr>"
  have admitted: "deliver (Suc (Suc (Suc 0))) rt (''admitted'', ''in'') (marked ''allowed'' msg) ?g =
      Ok (?g\<lparr>gw_builder := fed ts ''allowed'' msg (gw_builder g), gw_balancer := b',
          gw_dispatcher := dispatcher_on_message m' (gw_dispatcher g)\<rparr>, m',
        replicate (reports msg (gw_builder g)) ((''monitor'', ''in''), marked ''allowed'' msg))"
    using deliver_admitted [of ?g msg ts "''allowed''" b' m' 0 rt] assms(1,4,5) by (simp del: deliver.simps)
  show ?thesis
    using assms(1)
    by (simp add: gateway_request_def on_request_data_def fuel_numerals wired_emits del: deliver.simps)
      (simp add: deliver.simps(2) [of "Suc (Suc (Suc n))" for n] wired_emits run_handler_def assms(2,3) admitted del: deliver.simps)
qed

lemma gateway_admits_placed:
  assumes "wired (gw_stages g)" and "validation_on_message rt msg (gw_validator g) = Ok (v', [(''valid_requests_out'', msg)])"
    and "list_all (passes msg (enforcer_states (gw_enforcer g))) (enforcer_lookup_filed_names (gw_enforcer g))"
    and "readable (gw_builder g) msg ts" and "places (gw_balancer g) msg (e, host, port)"
  shows "\<exists>b'. gateway_request rt msg g = Ok (g\<lparr>gw_validator := v', gw_builder := fed ts ''allowed'' msg (gw_builder g),
      gw_balancer := b', gw_dispatcher := dispatcher_on_message (placed host port msg) (gw_dispatcher g)\<rparr>,
    replicate (reports msg (gw_builder g)) ((''monitor'', ''in''), marked ''allowed'' msg))"
proof -
  obtain b' where "round_robin_on_message (marked ''allowed'' msg) (gw_balancer g) = Ok (b', [(''out'', placed host port msg)])"
    using balancer_places [OF assms(5)] unfolding placed_def by blast
  from gateway_admits [OF assms(1,2) enforcer_allows [OF assms(3)] assms(4) this] show ?thesis by blast
qed

lemma placed_fields:
  "addressed_to (placed host port msg) (False, host, port)"
  "g \<noteq> ''throttling'' \<Longrightarrow> g \<noteq> ''load_balancing'' \<Longrightarrow> get_field alt (placed host port msg) g k = get_field alt msg g k"
proof -
  have "get_field string_alt (placed host port msg) ''load_balancing'' ''endpoint_host'' = Ok host"
    unfolding placed_def endpoint_message_def by (rule get_field_set_Ok_iff [THEN iffD2]) simp_all
  then show "addressed_to (placed host port msg) (False, host, port)"
    by (simp add: addressed_to_def placed_def endpoint_message_def)
  show "g \<noteq> ''throttling'' \<Longrightarrow> g \<noteq> ''load_balancing'' \<Longrightarrow> get_field alt (placed host port msg) g k = get_field alt msg g k"
    by (simp add: placed_def endpoint_message_def)
qed

definition example_gateway :: gateway where
  "example_gateway = \<lparr>gw_stages = (case build_gateway of Ok stages \<Rightarrow> stages | _ \<Rightarrow> []),
     gw_validator = \<lparr>validation_spec_store = [], validator_key_combinations = (''http_info'', ''route_key_1''),
       header_combinations = ''http_headers'', path_combinations = ''path_parameters'',
       query_combinations = ''query_parameters''\<rparr>,
     gw_enforcer = \<lparr>enforcer_lookup_filed_names = [''route_key_1''], enforcer_states = [(''blocked'', False)]\<rparr>,
     gw_builder = (new_throttle_state_builder [''route_key_1''] ''request_time'' 1)
       \<lparr>throttlers := [(''k1'', SlidingLogThrottler (new_sliding_log_throttler 10 1))]\<rparr>,
     gw_balancer = example_balancer\<lparr>pool_lookup_field := (''http_info'', ''route_key_2'')\<rparr>,
     gw_dispatcher = new_http_dispatcher\<rparr>"

definition gateway_example_request :: "string \<Rightarrow> http_request_message" where
  "gateway_example_request client = set_field string_alt ''http_info'' ''route_key_1'' client
     (set_field string_alt ''http_info'' ''route_key_2'' ''p'' (set_field int64_alt ''info'' ''request_time'' 100 new_request_message))"

lemma example_gateway_built: "build_gateway = Ok (gw_stages example_gateway)"
proof -
  obtain stages where stages: "build_gateway = Ok stages" using build_gateway_wired by blast
  show ?thesis by (simp only: example_gateway_def gateway.simps stages outcome.case)
qed

lemma unspecified_valid:
  assumes "get_field string_alt msg ''http_info'' ''route_key_1'' = Ok key"
  shows "validation_on_message rt msg (gw_validator example_gateway) =
    Ok (gw_validator example_gateway, [(''valid_requests_out'', msg)])"
  using get_validation_spec_Ok [OF assms, of rt "[]"]
  by (simp add: validation_on_message_def example_gateway_def complex_contains_def umap_contains_def)

lemma example_readable:
  assumes "get_field string_alt msg ''http_info'' ''route_key_1'' = Ok key" and "get_field int64_alt msg ''info'' ''request_time'' = Ok ts"
  shows "readable (gw_builder example_gateway) msg ts"
  using assms
  by (simp add: readable_def example_gateway_def new_throttle_state_builder_def lookups_readable_def lookup_id_def)

text \<open>
  C5: The client is answered. A GET request that the server turns into a message, that is valid, allowed and
  placed, that the state builder can read, and whose end point is new to the dispatcher, is posted to the dispatcher by one call; if its four operations
  succeed, one response comes out, the gateway hands it to the server, and the server ends the very response
  object of the request with the body the end point sent.
\<close>

theorem gateway_answers_the_client:
  assumes "build_gateway = Ok (gw_stages g)" and "typed_field_groups created = []"
    and "on_get_request cfg res req ts created = Ok msg"
    and "validation_on_message rt msg (gw_validator g) = Ok (v', [(''valid_requests_out'', msg)])"
    and "list_all (passes msg (enforcer_states (gw_enforcer g))) (enforcer_lookup_filed_names (gw_enforcer g))"
    and "time_stamp_field_name (gw_builder g) = ''request_time''"
    and "lookups_readable msg (builder_lookup_filed_names (gw_builder g))"
    and "places (gw_balancer g) msg (e, host, port)" and "fresh_for (gw_dispatcher g) (False, host, port)"
  shows "\<exists>g' out d' response. gateway_request rt msg g = Ok (g', out) \<and> list_all (\<lambda>(ref, m). ref = (''monitor'', ''in'')) out \<and>
    loop_run created_response (Run_posted # replicate 4 (Complete (False, host, port) 0 (Succeeded body))) (gw_dispatcher g') =
      Ok (d', [Http_response_out response]) \<and>
    gateway_respond g' response = Ok (uws_address res, [End_response body])"
proof -
  have w: "wired (gw_stages g)" by (rule built_gateway_wired [OF assms(1)])
  obtain m where m: "on_get_request cfg res req ts created = Ok (sender_fields res req m)"
    "field_values m = field_values (request_fields cfg res ts created)"
    by (rule on_get_request_filled [OF assms(2)])
  have msg: "msg = sender_fields res req m" using m(1) assms(3) by simp
  have "readable (gw_builder g) msg (to_millies ts)"
    using assms(6,7) request_time_stamp [OF m(2)] by (simp add: readable_def msg)
  then obtain b' where g': "gateway_request rt msg g = Ok (g\<lparr>gw_validator := v',
      gw_builder := fed (to_millies ts) ''allowed'' msg (gw_builder g), gw_balancer := b',
      gw_dispatcher := dispatcher_on_message (placed host port msg) (gw_dispatcher g)\<rparr>,
      replicate (reports msg (gw_builder g)) ((''monitor'', ''in''), marked ''allowed'' msg))" (is "_ = Ok (?g, ?out)")
    using gateway_admits_placed [OF w assms(4,5) _ assms(8)] by blast
  obtain d' where d': "loop_run created_response (Run_posted # replicate 4 (Complete (False, host, port) 0 (Succeeded body)))
      (dispatcher_on_message (placed host port msg) (gw_dispatcher g)) =
      Ok (d', [Http_response_out (created_response\<lparr>response_body := body, return_code := 200, request_message := placed host port msg\<rparr>)])"
    using lifecycle_success [OF placed_fields(1) assms(9)] by blast
  have "get_field void_ptr_alt (placed host port msg) ''__HttpServerStage__'' ''uws_response'' = Ok (uws_address res)"
    using request_response_object [OF m(2)] by (simp add: placed_fields msg)
  then have "gateway_respond ?g (created_response\<lparr>response_body := body, return_code := 200, request_message := placed host port msg\<rparr>) =
      Ok (uws_address res, [End_response body])"
    by (simp add: gateway_respond_def wired_emits [OF w] server_on_response_def)
  moreover have "list_all (\<lambda>(ref, m). ref = (''monitor'', ''in'')) ?out" by (simp add: list_all_iff)
  ultimately show ?thesis using g' d' by (intro exI [of _ ?g] exI [of _ ?out]) auto
qed

theorem gateway_answers_the_client_witness:
  "\<exists>msg g' out d' response. on_get_request (example_route\<lparr>route_key_2 := ''p''\<rparr>) \<lparr>uws_address = 42, remote_address = []\<rparr>
      example_uws_request \<lparr>tv_sec = 1, tv_nsec = 0\<rparr> new_request_message = Ok msg \<and>
    gateway_request example_runtime msg example_gateway = Ok (g', out) \<and>
    loop_run example_response (Run_posted # replicate 4 (Complete (False, ''h2'', ''2'') 0 (Succeeded ''body''))) (gw_dispatcher g') =
      Ok (d', [Http_response_out response]) \<and>
    gateway_respond g' response = Ok (42, [End_response ''body''])"
proof -
  let ?cfg = "example_route\<lparr>route_key_2 := ''p''\<rparr>" and ?res = "\<lparr>uws_address = 42, remote_address = []\<rparr>"
  have created: "typed_field_groups new_request_message = []" by (simp add: new_request_message_def)
  obtain m where m: "on_get_request ?cfg ?res example_uws_request \<lparr>tv_sec = 1, tv_nsec = 0\<rparr> new_request_message =
      Ok (sender_fields ?res example_uws_request m)"
    "field_values m = field_values (request_fields ?cfg ?res \<lparr>tv_sec = 1, tv_nsec = 0\<rparr> new_request_message)"
    by (rule on_get_request_filled [OF created])
  let ?msg = "sender_fields ?res example_uws_request m"
  have key: "get_field string_alt ?msg ''http_info'' ''route_key_1'' = Ok ''k1''"
    "get_field string_alt ?msg ''http_info'' ''route_key_2'' = Ok ''p''"
    using request_route_keys [OF m(2), of example_uws_request] by (simp_all add: example_route_def)
  have "list_all (passes ?msg (enforcer_states (gw_enforcer example_gateway))) (enforcer_lookup_filed_names (gw_enforcer example_gateway))"
    using key(1) by (simp add: example_gateway_def passes_def lookup_id_def umap_find_def)
  moreover have "places (gw_balancer example_gateway) ?msg (''b'', ''h2'', ''2'')"
    unfolding places_def
    by (intro conjI exI [of _ "''p''"] exI [of _ example_endpoints])
      (use example_pool in \<open>simp_all add: key example_gateway_def example_endpoints_def example_balancer_def
        new_round_robin_load_balancer_def pool_index_def umap_subscript_def\<close>)
  moreover have builder: "time_stamp_field_name (gw_builder example_gateway) = ''request_time''"
    "lookups_readable ?msg (builder_lookup_filed_names (gw_builder example_gateway))"
    using example_readable [OF key(1) request_time_stamp [OF m(2)]]
    by (simp_all add: readable_def example_gateway_def new_throttle_state_builder_def)
  moreover have "fresh_for (gw_dispatcher example_gateway) (False, ''h2'', ''2'')"
    by (simp add: example_gateway_def fresh_for_def new_http_dispatcher_def)
  ultimately show ?thesis
    using gateway_answers_the_client [OF example_gateway_built created m(1) unspecified_valid [OF key(1)]] m(1) builder by fastforce
qed

end
