(* ===== verification/Gateway_Ways.thy ===== *)
theory Gateway_Ways
  imports Gateway
begin

text \<open>
  The ways of a request through the gateway: a function of the request and the states of the stages says which one it takes, and
  the run of the handlers is shown to take it. Every request has one way, also those that end the process and those the
  balancer loses.
\<close>

section \<open>The way of a request\<close>

text \<open>The end point the balancer's next index names, if the message has a pool and the store has all that is read for it.\<close>

definition next_endpoint :: "http_request_message \<Rightarrow> round_robin_load_balancer \<Rightarrow> (string \<times> string) option" where
  "next_endpoint msg b =
     (case get_field string_alt (marked ''allowed'' msg) (fst (pool_lookup_field b)) (snd (pool_lookup_field b)) of
        Ok key \<Rightarrow>
          (case list_view (balancer_store b) key of
             Some (ty, es) \<Rightarrow>
               (case es ! ((pool_index b key + 1) mod 256 mod length es) of
                  KV_string e \<Rightarrow>
                    (case (kv_get kv_string_alt (balancer_store b) (e @ ''/host''), kv_get kv_string_alt (balancer_store b) (e @ ''/port'')) of
                       (Ok host, Ok port) \<Rightarrow> Some (host, port)
                     | _ \<Rightarrow> None)
                | _ \<Rightarrow> None)
           | None \<Rightarrow> None)
      | _ \<Rightarrow> None)"

text \<open>The time stamp of a request the builder can read.\<close>

definition stamp :: "throttle_state_builder \<Rightarrow> http_request_message \<Rightarrow> u64 option" where
  "stamp b msg =
     (case get_field int64_alt msg ''info'' (time_stamp_field_name b) of
        Ok ts \<Rightarrow> (if lookups_readable msg (builder_lookup_filed_names b) then Some ts else None)
      | _ \<Rightarrow> None)"

datatype gateway_way =
    Ends
  | Refused
  | Suppressed u64
  | Placed u64 string string
  | Swallowed u64

definition way_of :: "http_request_message \<Rightarrow> gateway \<Rightarrow> gateway_way" where
  "way_of msg g =
     (if \<not> judgeable msg (gw_validator g) then Ends
      else if \<not> valid_request msg (gw_validator g) then Refused
      else
        case (find (\<lambda>nm. \<not> passes msg (enforcer_states (gw_enforcer g)) nm) (enforcer_lookup_filed_names (gw_enforcer g)),
          stamp (gw_builder g) msg)
        of
          (_, None) \<Rightarrow> Ends
        | (Some nm, Some ts) \<Rightarrow> (if blocks msg (enforcer_states (gw_enforcer g)) nm then Suppressed ts else Ends)
        | (None, Some ts) \<Rightarrow>
            (case next_endpoint msg (gw_balancer g) of Some (host, port) \<Rightarrow> Placed ts host port | None \<Rightarrow> Swallowed ts))"

section \<open>The stages\<close>

lemma stamp_readable: "stamp b msg = Some ts \<longleftrightarrow> readable b msg ts"
  by (auto simp: stamp_def readable_def split: outcome.splits)

lemma find_split:
  "find P xs = Some x \<Longrightarrow> \<exists>pre post. xs = pre @ x # post \<and> list_all (\<lambda>y. \<not> P y) pre \<and> P x"
proof (induction xs)
  case (Cons y ys)
  show ?case
  proof (cases "P y")
    case True
    then have "y # ys = [] @ x # ys" "list_all (\<lambda>y. \<not> P y) []" "P x" using Cons.prems True by simp_all
    then show ?thesis by blast
  next
    case False
    then obtain pre post where "ys = pre @ x # post" "list_all (\<lambda>y. \<not> P y) pre" "P x" using Cons by auto
    then have "y # ys = (y # pre) @ x # post" "list_all (\<lambda>y. \<not> P y) (y # pre)" "P x" using False by simp_all
    then show ?thesis by blast
  qed
qed simp

text \<open>The enforcer: all fields pass, or the first one that does not decides.\<close>

lemma enforcer_finds:
  fixes msg :: http_request_message
  defines "stop e \<equiv> find (\<lambda>nm. \<not> passes msg (enforcer_states e) nm) (enforcer_lookup_filed_names e)"
  shows "stop e = None \<Longrightarrow> enforcer_on_message msg e = Ok [(''allowed_out'', marked ''allowed'' msg)]"
    and "stop e = Some nm \<Longrightarrow> blocks msg (enforcer_states e) nm \<Longrightarrow>
      enforcer_on_message msg e = Ok [(''throttled_out'', marked ''suppressed'' msg)]"
    and "stop e = Some nm \<Longrightarrow> \<not> blocks msg (enforcer_states e) nm \<Longrightarrow> \<exists>ex. enforcer_on_message msg e = Fault (Terminate ex)"
proof -
  show "stop e = None \<Longrightarrow> enforcer_on_message msg e = Ok [(''allowed_out'', marked ''allowed'' msg)]"
    by (rule enforcer_allows) (auto simp: stop_def find_None_iff list_all_iff)
  assume "stop e = Some nm"
  then obtain pre post where split: "enforcer_lookup_filed_names e = pre @ nm # post" "list_all (passes msg (enforcer_states e)) pre"
    "\<not> passes msg (enforcer_states e) nm"
    using find_split [of _ "enforcer_lookup_filed_names e" nm] by (force simp: stop_def)
  show "blocks msg (enforcer_states e) nm \<Longrightarrow> enforcer_on_message msg e = Ok [(''throttled_out'', marked ''suppressed'' msg)]"
    by (rule enforcer_suppresses [OF split(1,2)])
  show "\<exists>ex. enforcer_on_message msg e = Fault (Terminate ex)" if no: "\<not> blocks msg (enforcer_states e) nm"
  proof -
    obtain ex where "get_field string_alt msg ''http_info'' nm = Throw ex"
      using no split(3) lookup_id_cases [of msg nm] by (auto simp: passes_def blocks_def)
    then show ?thesis
      using no split by (auto simp: enforcer_on_message_def enforcer_loop_prefix enforcer_loop_Cons simp del: enforcer_loop.simps(2))
  qed
qed

text \<open>A request the builder cannot read ends the process.\<close>

lemma unreadable_lookup:
  "\<not> lookups_readable msg nms \<Longrightarrow> \<exists>e. builder_lookups msg ts st nms b = Throw e"
proof (induction nms arbitrary: b)
  case Nil
  then show ?case by (simp add: lookups_readable_def)
next
  case (Cons nm nms)
  show ?case
  proof (cases "lookups_readable msg [nm]")
    case True
    then have "\<not> lookups_readable msg nms" using Cons.prems by (simp add: lookups_readable_def)
    from Cons.IH [OF this] obtain e where
      "builder_lookups msg ts st nms (case lookup_id msg nm of None \<Rightarrow> b | Some i \<Rightarrow> feed_one ts st i b) = Throw e" by blast
    then show ?thesis by (simp add: builder_lookup_effect [OF True])
  next
    case False
    then obtain e where e: "get_field string_alt msg ''http_info'' nm = Throw e" "e \<noteq> FieldNameDoesNotExistException ''http_info'' nm"
      using lookup_id_cases [of msg nm] by (auto simp: lookups_readable_def)
    then have "\<not> is_field_name_missing e" by (auto simp: get_field_def std_get_def split: option.splits)
    then show ?thesis by (simp add: builder_lookup_def e(1))
  qed
qed

lemma unreadable_ends:
  assumes "stamp b msg = None"
  shows "\<exists>e. builder_on_message (marked st msg) b = Fault (Terminate e)"
proof (cases "get_field int64_alt msg ''info'' (time_stamp_field_name b)")
  case (Ok ts)
  have "lookups_readable (marked st msg) nms = lookups_readable msg nms" for nms
    by (simp add: lookups_readable_def lookup_id_def)
  then have "\<not> lookups_readable (marked st msg) (builder_lookup_filed_names b)" using assms by (simp add: stamp_def Ok split: if_splits)
  from unreadable_lookup [OF this, of ts st b] show ?thesis by (auto simp: builder_on_message_def Ok)
qed (auto simp: builder_on_message_def)

text \<open>The balancer: the next end point, or nothing at all. The indices of the other pools, the store and the field stay.\<close>

definition pools_usable :: "key_value_store \<Rightarrow> bool" where
  "pools_usable store \<longleftrightarrow> (\<forall>key ty es. list_view store key = Some (ty, es) \<longrightarrow> es \<noteq> [] \<and> length es < 2 ^ 32)"

definition same_pools :: "round_robin_load_balancer \<Rightarrow> round_robin_load_balancer \<Rightarrow> bool" where
  "same_pools b b' \<longleftrightarrow> balancer_store b' = balancer_store b \<and> pool_lookup_field b' = pool_lookup_field b"

lemma std_get_not_string: "(\<And>e. v \<noteq> KV_string e) \<Longrightarrow> std_get kv_string_alt v = Throw Bad_variant_access"
  by (cases v) (auto simp: kv_string_alt_def std_get_def)

lemma select_endpoint_next:
  assumes "list_view store key = Some (ty, es)" and "unat i < length es"
  shows "(case es ! unat i of
      KV_string e \<Rightarrow> (case (kv_get kv_string_alt store (e @ ''/host''), kv_get kv_string_alt store (e @ ''/port'')) of
          (Ok host, Ok port) \<Rightarrow> select_endpoint store key i m = Ok (endpoint_message host port m)
        | _ \<Rightarrow> \<exists>ex. select_endpoint store key i m = Throw ex \<and> is_std_exception ex)
    | _ \<Rightarrow> \<exists>ex. select_endpoint store key i m = Throw ex \<and> is_std_exception ex)"
proof -
  have at: "get_at_list kv_string_alt store key (ucast i) = std_get kv_string_alt (es ! unat i)"
    using assms by (simp add: list_reads)
  have kv: "(\<exists>v. kv_get kv_string_alt store k = Ok v) \<or> (\<exists>ex. kv_get kv_string_alt store k = Throw ex \<and> is_std_exception ex)" for k
    by (auto simp: kv_get_def std_get_def split: option.splits)
  show ?thesis
  proof (cases "\<exists>e. es ! unat i = KV_string e")
    case True
    then obtain e where e: "es ! unat i = KV_string e" by blast
    show ?thesis
      using kv [of "e @ ''/host''"] kv [of "e @ ''/port''"] by (auto simp: select_endpoint_def at e endpoint_message_def)
  next
    case False
    then have "select_endpoint store key i m = Throw Bad_variant_access"
      by (simp add: select_endpoint_def at std_get_not_string)
    then show ?thesis using False by (auto split: kv_variant.splits)
  qed
qed

lemma balancer_next:
  assumes "pools_usable (balancer_store b)"
  shows "case next_endpoint msg b of
      Some (host, port) \<Rightarrow> \<exists>b'. round_robin_on_message (marked ''allowed'' msg) b = Ok (b', [(''out'', placed host port msg)]) \<and> same_pools b b'
    | None \<Rightarrow> \<exists>b'. round_robin_on_message (marked ''allowed'' msg) b = Ok (b', []) \<and> same_pools b b'"
proof (cases "get_field string_alt (marked ''allowed'' msg) (fst (pool_lookup_field b)) (snd (pool_lookup_field b))")
  case key: (Ok key)
  show ?thesis
  proof (cases "list_view (balancer_store b) key")
    case None
    then have "get_list_count (balancer_store b) key = Throw (KeyDoesNotExistException key)" by (simp add: list_reads)
    then show ?thesis by (simp add: next_endpoint_def key None round_robin_on_message_def same_pools_def)
  next
    case (Some g)
    then obtain ty es where es: "list_view (balancer_store b) key = Some (ty, es)" by (cases g) simp
    then have n: "0 < length es" "length es < 2 ^ 32" using assms by (auto simp: pools_usable_def)
    define i where "i = next_index (umap_subscript 0 (last_selection_index b) key) (of_nat (length es))"
    define b' where "b' = b\<lparr>last_selection_index := umap_insert_or_assign key i (last_selection_index b)\<rparr>"
    have i: "unat i = (pool_index b key + 1) mod 256 mod length es" "unat i < length es"
      using unat_next_index [OF n] next_index_in_range(1) [OF n] by (simp_all add: i_def pool_index_def)
    have "unat (of_nat (length es) :: u32) \<noteq> 0" using n by simp
    then have nz: "(of_nat (length es) :: u32) \<noteq> 0" by (metis unat_0)
    have count: "get_list_count (balancer_store b) key = Ok (length es)" by (simp add: list_reads es)
    have run: "round_robin_on_message (marked ''allowed'' msg) b = noexcept (catch_if is_std_exception (\<lambda>ex. Ok (b, []))
        (catch_if is_std_exception (\<lambda>ex. Ok (b', []))
          (and_then (select_endpoint (balancer_store b) key i (marked ''allowed'' msg)) (\<lambda>msg'. Ok (b', [(''out'', msg')])))))"
      using nz by (simp add: round_robin_on_message_def key count Let_def i_def b'_def)
    have same: "same_pools b b'" by (simp add: same_pools_def b'_def)
    show ?thesis
      using select_endpoint_next [OF es i(2), of "marked ''allowed'' msg"] same unfolding run next_endpoint_def key es i(1)
      by (auto simp: es i(1) placed_def split: kv_variant.splits outcome.splits)
  qed
next
  case (Throw e)
  then show ?thesis
    using get_field_throws_std [OF Throw] by (simp add: next_endpoint_def round_robin_on_message_def same_pools_def)
qed simp

section \<open>The run of the handlers\<close>

text \<open>A handler that ends the process ends the run; a message the balancer loses has still been seen by the builder.\<close>

lemma gateway_ends_early:
  assumes "wired (gw_stages g)" and "validation_on_message rt msg (gw_validator g) = Fault f"
  shows "gateway_request rt msg g = Fault f"
  using assms by (simp add: gateway_request_def on_request_data_def fuel_numerals wired_emits run_handler_def)

lemma enforcer_ends:
  assumes "wired (gw_stages g)" and "validation_on_message rt msg (gw_validator g) = Ok (v', [(''valid_requests_out'', msg)])"
    and "enforcer_on_message msg (gw_enforcer g) = Fault f"
  shows "gateway_request rt msg g = Fault f"
  using assms by (simp add: gateway_request_def on_request_data_def fuel_numerals wired_emits run_handler_def)

lemma builder_ends:
  assumes "wired (gw_stages g)" and "validation_on_message rt msg (gw_validator g) = Ok (v', [(''valid_requests_out'', msg)])"
    and "enforcer_on_message msg (gw_enforcer g) = Ok [(port, marked st msg)]"
    and "(port, st) \<in> {(''allowed_out'', ''allowed''), (''throttled_out'', ''suppressed'')}"
    and "builder_on_message (marked st msg) (gw_builder g) = Fault f"
  shows "gateway_request rt msg g = Fault f"
  using assms
  by (auto simp: gateway_request_def on_request_data_def fuel_numerals wired_emits run_handler_def broadcast_outputs)

lemma deliver_swallowed:
  assumes "wired (gw_stages g)" and "readable (gw_builder g) msg ts"
    and "round_robin_on_message (marked st msg) (gw_balancer g) = Ok (b', [])"
  shows "deliver (Suc (Suc (Suc n))) rt (''admitted'', ''in'') (marked st msg) g =
    Ok (g\<lparr>gw_builder := fed ts st msg (gw_builder g), gw_balancer := b'\<rparr>, marked st msg,
      replicate (reports msg (gw_builder g)) ((''monitor'', ''in''), marked st msg))"
  using assms(1)
  by (simp add: deliver.simps(2) [of "Suc (Suc n)"] run_handler_def broadcast_outputs wired_emits deliver_builder [OF assms(1,2)]
      del: deliver.simps) (simp add: run_handler_def wired_emits assms(3))

lemma gateway_swallows:
  assumes "wired (gw_stages g)" and "validation_on_message rt msg (gw_validator g) = Ok (v', [(''valid_requests_out'', msg)])"
    and "enforcer_on_message msg (gw_enforcer g) = Ok [(''allowed_out'', marked ''allowed'' msg)]"
    and "readable (gw_builder g) msg ts" and "round_robin_on_message (marked ''allowed'' msg) (gw_balancer g) = Ok (b', [])"
  shows "gateway_request rt msg g = Ok (g\<lparr>gw_validator := v', gw_builder := fed ts ''allowed'' msg (gw_builder g), gw_balancer := b'\<rparr>,
    replicate (reports msg (gw_builder g)) ((''monitor'', ''in''), marked ''allowed'' msg))"
proof -
  let ?g = "g\<lparr>gw_validator := v'\<rparr>"
  have admitted: "deliver (Suc (Suc (Suc 0))) rt (''admitted'', ''in'') (marked ''allowed'' msg) ?g =
      Ok (?g\<lparr>gw_builder := fed ts ''allowed'' msg (gw_builder g), gw_balancer := b'\<rparr>, marked ''allowed'' msg,
        replicate (reports msg (gw_builder g)) ((''monitor'', ''in''), marked ''allowed'' msg))"
    using deliver_swallowed [of ?g msg ts "''allowed''" b' 0 rt] assms(1,4,5) by (simp del: deliver.simps)
  show ?thesis
    using assms(1)
    by (simp add: gateway_request_def on_request_data_def fuel_numerals wired_emits del: deliver.simps)
      (simp add: deliver.simps(2) [of "Suc (Suc (Suc n))" for n] wired_emits run_handler_def assms(2,3) admitted del: deliver.simps)
qed

text \<open>What the gateway is after the request, and what has arrived outside.\<close>

definition takes :: "http_request_message \<Rightarrow> gateway \<Rightarrow> gateway_way \<Rightarrow> (gateway \<times> (sink_ref \<times> http_request_message) list) cxx \<Rightarrow> bool" where
  "takes msg g way r =
     (let reported = (\<lambda>st. replicate (reports msg (gw_builder g)) ((''monitor'', ''in''), marked st msg)) in
      case way of
        Ends \<Rightarrow> \<exists>e. r = Fault (Terminate e)
      | Refused \<Rightarrow> \<exists>v. same_specs (gw_validator g) v \<and> r = Ok (g\<lparr>gw_validator := v\<rparr>, [((''rejected'', ''in''), msg)])
      | Suppressed ts \<Rightarrow> \<exists>v. same_specs (gw_validator g) v \<and>
          r = Ok (g\<lparr>gw_validator := v, gw_builder := fed ts ''suppressed'' msg (gw_builder g)\<rparr>,
            reported ''suppressed'' @ [((''rejected'', ''in''), marked ''suppressed'' msg)])
      | Placed ts host port \<Rightarrow> \<exists>v b. same_specs (gw_validator g) v \<and> same_pools (gw_balancer g) b \<and>
          r = Ok (g\<lparr>gw_validator := v, gw_builder := fed ts ''allowed'' msg (gw_builder g), gw_balancer := b,
            gw_dispatcher := dispatcher_on_message (placed host port msg) (gw_dispatcher g)\<rparr>, reported ''allowed'')
      | Swallowed ts \<Rightarrow> \<exists>v b. same_specs (gw_validator g) v \<and> same_pools (gw_balancer g) b \<and>
          r = Ok (g\<lparr>gw_validator := v, gw_builder := fed ts ''allowed'' msg (gw_builder g), gw_balancer := b\<rparr>, reported ''allowed''))"

lemma takes_its_way:
  assumes "wired (gw_stages g)" and "dm_wf msg" and "pools_usable (balancer_store (gw_balancer g))"
  shows "takes msg g (way_of msg g) (gateway_request rt msg g)"
proof (cases "judgeable msg (gw_validator g)")
  case False
  then show ?thesis
    using unjudgeable_ends [OF assms(2) False, of rt] gateway_ends_early [OF assms(1)] by (auto simp: way_of_def takes_def)
next
  case judged: True
  obtain v' where v': "validation_on_message rt msg (gw_validator g) =
      Ok (v', [(if valid_request msg (gw_validator g) then ''valid_requests_out'' else ''invalid_requests_out'', msg)])"
    "same_specs (gw_validator g) v'" using validation_judges [OF judged] by blast
  show ?thesis
  proof (cases "valid_request msg (gw_validator g)")
    case False
    then show ?thesis
      using gateway_refuses [OF assms(1)] v' judged by (auto simp: way_of_def takes_def)
  next
    case True
    then have valid: "validation_on_message rt msg (gw_validator g) = Ok (v', [(''valid_requests_out'', msg)])" using v' by simp
    let ?stop = "find (\<lambda>nm. \<not> passes msg (enforcer_states (gw_enforcer g)) nm) (enforcer_lookup_filed_names (gw_enforcer g))"
    note decides = enforcer_finds [of msg "gw_enforcer g"]
    show ?thesis
    proof (cases "stamp (gw_builder g) msg")
      case None
      obtain ex where ex: "gateway_request rt msg g = Fault (Terminate ex)"
      proof (cases "enforcer_on_message msg (gw_enforcer g)")
        case (Fault f)
        then obtain ex where "f = Terminate ex" using decides by (cases ?stop; cases "blocks msg (enforcer_states (gw_enforcer g)) (the ?stop)") auto
        then show thesis using that enforcer_ends [OF assms(1) valid Fault] by simp
      next
        case (Ok es)
        then have "es \<in> {[(''allowed_out'', marked ''allowed'' msg)], [(''throttled_out'', marked ''suppressed'' msg)]}"
          using decides by (cases ?stop; cases "blocks msg (enforcer_states (gw_enforcer g)) (the ?stop)") auto
        then obtain port st where es: "es = [(port, marked st msg)]" "(port, st) \<in> {(''allowed_out'', ''allowed''), (''throttled_out'', ''suppressed'')}"
          by auto
        obtain e where "builder_on_message (marked st msg) (gw_builder g) = Fault (Terminate e)" using unreadable_ends [OF None] by blast
        then show thesis using that builder_ends [OF assms(1) valid Ok [unfolded es(1)] es(2)] by blast
      qed (use decides in \<open>simp add: enforcer_on_message_def\<close>)
      then show ?thesis using judged True None by (simp add: way_of_def takes_def split: option.splits)
    next
      case ts: (Some ts)
      then have r: "readable (gw_builder g) msg ts" by (simp add: stamp_readable)
      show ?thesis
      proof (cases ?stop)
        case (Some nm)
        show ?thesis
        proof (cases "blocks msg (enforcer_states (gw_enforcer g)) nm")
          case blocks: True
          then show ?thesis
            using gateway_suppresses [OF assms(1) valid decides(2) [OF Some blocks] r] judged True ts Some v'(2)
            by (auto simp: way_of_def takes_def Let_def)
        next
          case False
          then show ?thesis
            using decides(3) [OF Some False] enforcer_ends [OF assms(1) valid] judged True ts Some by (auto simp: way_of_def takes_def)
        qed
      next
        case None
        note balanced = balancer_next [OF assms(3), of msg]
        show ?thesis
        proof (cases "next_endpoint msg (gw_balancer g)")
          case nothing: None
          then show ?thesis
            using balanced gateway_swallows [OF assms(1) valid decides(1) [OF None] r] judged True ts None v'(2)
            by (auto simp: way_of_def takes_def Let_def)
        next
          case (Some ep)
          obtain host port where ep: "ep = (host, port)" by (cases ep)
          then show ?thesis
            using balanced gateway_admits [OF assms(1) valid decides(1) [OF None] r] judged True ts None Some v'(2)
            by (fastforce simp: way_of_def takes_def Let_def)
        qed
      qed
    qed
  qed
qed

text \<open>
  C12: Every well-formed request takes exactly one way through the gateway that \<open>build_gateway\<close> constructs and wires, whatever the states of its stages (the store's lists being not empty
  and shorter than \<open>2 ^ 32\<close>), and \<open>way_of\<close> says which.
  One that the validator cannot judge ends the process, and so does a valid one without a time stamp, or with a lookup field that the enforcer or the builder comes to and cannot read. One the validator refuses
  arrives at \<open>rejected\<close> unchanged, and no other stage has seen it. A valid one whose first lookup field that does not let it pass names a refusing throttler arrives there marked
  \<open>suppressed\<close>, without using an end point. One that every lookup field lets pass is given to the dispatcher, marked \<open>allowed\<close> and addressed to the next end
  point of its pool; but if it has no pool, or the store lacks the pool or the host or port of that end point, the balancer swallows it: it
  arrives nowhere, although the throttlers have counted it. The last three ways feed the throttlers its lookup fields name, as allowed or as suppressed, and report
  each lookup field that names none to \<open>monitor\<close>.
\<close>

theorem gateway_routes_requests:
  assumes "build_gateway = Ok (gw_stages g)" and "dm_wf msg" and "pools_usable (balancer_store (gw_balancer g))"
  shows "takes msg g (way_of msg g) (gateway_request rt msg g) \<and>
    (\<forall>ts host port. way_of msg g = Placed ts host port \<longrightarrow> addressed_to (placed host port msg) (False, host, port) \<and>
       get_field string_alt (placed host port msg) ''throttling'' ''state'' = Ok ''allowed'')"
  using takes_its_way [OF built_gateway_wired [OF assms(1)] assms(2,3)] placed_fields(1)
  by (auto simp: placed_def endpoint_message_def)

text \<open>A client that is blocked, and one whose pool is not configured.\<close>

definition request_for :: "string \<Rightarrow> string \<Rightarrow> http_request_message" where
  "request_for client pool = set_field string_alt ''http_info'' ''route_key_1'' client
     (set_field string_alt ''http_info'' ''route_key_2'' pool (set_field int64_alt ''info'' ''request_time'' 100 new_request_message))"

lemma request_for_fields:
  "get_field string_alt (request_for client pool) ''http_info'' ''route_key_1'' = Ok client"
  "get_field string_alt (request_for client pool) ''http_info'' ''route_key_2'' = Ok pool"
  "get_field int64_alt (request_for client pool) ''info'' ''request_time'' = Ok 100"
  "dm_wf (request_for client pool)"
proof -
  have "dm_wf new_request_message" by (simp add: new_request_message_def dm_wf_def umap_wf_def)
  then show "dm_wf (request_for client pool)" unfolding request_for_def by (intro set_field_wf)
qed (simp_all add: request_for_def get_field_set_same [OF int64.variant_alternative_axioms] get_field_set_Ok_iff)

lemma example_pools_usable: "pools_usable (balancer_store (gw_balancer example_gateway))"
  by (simp add: pools_usable_def example_gateway_def example_balancer_def new_round_robin_load_balancer_def list_view_def umap_find_def)

lemma request_for_judged:
  "judgeable (request_for client pool) (gw_validator example_gateway)"
  "valid_request (request_for client pool) (gw_validator example_gateway)"
  by (simp_all add: judgeable_def valid_request_def example_gateway_def request_for_fields umap_find_def)

lemma example_ways:
  "way_of (request_for ''blocked'' pool) example_gateway = Suppressed 100"
  "way_of (request_for ''k2'' ''q'') example_gateway = Swallowed 100"
proof -
  have "stamp (gw_builder example_gateway) (request_for client pool) = Some 100" for client pool
    using example_readable [OF request_for_fields(1,3)] by (simp add: stamp_readable)
  moreover have "next_endpoint (request_for client ''q'') (gw_balancer example_gateway) = None" for client
    by (simp add: next_endpoint_def example_gateway_def request_for_fields example_balancer_def new_round_robin_load_balancer_def
        list_view_def umap_find_def)
  moreover have "blocks (request_for ''blocked'' pool) (enforcer_states (gw_enforcer example_gateway)) ''route_key_1''"
    "\<not> passes (request_for ''blocked'' pool) (enforcer_states (gw_enforcer example_gateway)) ''route_key_1''"
    "passes (request_for ''k2'' pool) (enforcer_states (gw_enforcer example_gateway)) ''route_key_1''" for pool
    by (simp_all add: blocks_def passes_def lookup_id_def request_for_fields example_gateway_def umap_find_def)
  moreover have "enforcer_lookup_filed_names (gw_enforcer example_gateway) = [''route_key_1'']" by (simp add: example_gateway_def)
  ultimately show "way_of (request_for ''blocked'' pool) example_gateway = Suppressed 100"
    "way_of (request_for ''k2'' ''q'') example_gateway = Swallowed 100"
    by (simp_all add: way_of_def request_for_judged)
qed

theorem gateway_routes_requests_witness:
  "(\<exists>g'. gateway_request example_runtime (request_for ''blocked'' ''p'') example_gateway =
     Ok (g', [((''monitor'', ''in''), marked ''suppressed'' (request_for ''blocked'' ''p'')),
       ((''rejected'', ''in''), marked ''suppressed'' (request_for ''blocked'' ''p''))])) \<and>
   (\<exists>g'. gateway_request example_runtime (request_for ''k2'' ''q'') example_gateway =
     Ok (g', [((''monitor'', ''in''), marked ''allowed'' (request_for ''k2'' ''q''))]) \<and>
     gw_dispatcher g' = gw_dispatcher example_gateway)"
proof -
  have "reports (request_for client pool) (gw_builder example_gateway) = 1" if "client \<noteq> ''k1''" for client pool
    using that by (simp add: reports_def feeds_def lookup_id_def request_for_fields example_gateway_def new_throttle_state_builder_def
        umap_contains_def umap_find_def)
  then show ?thesis
    using gateway_routes_requests [OF example_gateway_built request_for_fields(4) [of "''blocked''" "''p''"] example_pools_usable, of example_runtime]
      gateway_routes_requests [OF example_gateway_built request_for_fields(4) [of "''k2''" "''q''"] example_pools_usable, of example_runtime]
    by (auto simp: example_ways takes_def Let_def)
qed

end
