(* ===== verification/Gateway_Limits.thy ===== *)
theory Gateway_Limits
  imports Gateway
begin

text \<open>
  Rate limiting through the whole gateway: runs of requests of many clients and of flushes of the state builder, and
  what reaches the dispatcher and the sink \<open>rejected\<close> of each client.
\<close>

section \<open>Runs\<close>

datatype gateway_event = Request http_request_message | Flush

fun gateway_run :: "cxx_runtime \<Rightarrow> gateway_event list \<Rightarrow> gateway
    \<Rightarrow> (gateway \<times> (sink_ref \<times> http_request_message) list) cxx" where
  "gateway_run rt [] g = Ok (g, [])"
| "gateway_run rt (Request msg # es) g =
     and_then (gateway_request rt msg g) (\<lambda>(g1, out1).
       and_then (gateway_run rt es g1) (\<lambda>(g2, out2). Ok (g2, out1 @ out2)))"
| "gateway_run rt (Flush # es) g = and_then (gateway_flush g) (gateway_run rt es)"

fun requests_of :: "gateway_event list \<Rightarrow> http_request_message list" where
  "requests_of [] = []"
| "requests_of (Request msg # es) = msg # requests_of es"
| "requests_of (Flush # es) = requests_of es"

text \<open>The time stamp of a message, if it is of the client \<open>i\<close>, and the events the client takes part in.\<close>

definition stamp_of :: "string \<Rightarrow> string \<Rightarrow> string \<Rightarrow> http_request_message \<Rightarrow> u64 option" where
  "stamp_of nm ts_field i msg =
     (if get_field string_alt msg ''http_info'' nm = Ok i
      then (case get_field int64_alt msg ''info'' ts_field of Ok ts \<Rightarrow> Some ts | _ \<Rightarrow> None) else None)"

fun client_view :: "string \<Rightarrow> string \<Rightarrow> string \<Rightarrow> gateway_event list \<Rightarrow> client_event list" where
  "client_view nm ts_field i [] = []"
| "client_view nm ts_field i (Request msg # es) =
     (case stamp_of nm ts_field i msg of
        Some ts \<Rightarrow> Arrives ts # client_view nm ts_field i es
      | None \<Rightarrow> client_view nm ts_field i es)"
| "client_view nm ts_field i (Flush # es) = Flushed # client_view nm ts_field i es"

definition rejected :: "(sink_ref \<times> http_request_message) list \<Rightarrow> http_request_message list" where
  "rejected out = map snd (filter (\<lambda>(ref, m). ref = (''rejected'', ''in'')) out)"

text \<open>The requests the throttling stages have sent to \<open>rejected\<close>, and the events the validator lets pass.\<close>

definition suppressed :: "(sink_ref \<times> http_request_message) list \<Rightarrow> http_request_message list" where
  "suppressed out = filter (\<lambda>m. get_field string_alt m ''throttling'' ''state'' = Ok ''suppressed'') (rejected out)"

definition passing :: "http_request_validation_stage \<Rightarrow> gateway_event list \<Rightarrow> gateway_event list" where
  "passing v evs = filter (\<lambda>ev. case ev of Request msg \<Rightarrow> valid_request msg v | Flush \<Rightarrow> True) evs"

abbreviation stamps :: "string \<Rightarrow> string \<Rightarrow> string \<Rightarrow> http_request_message list \<Rightarrow> u64 list" where
  "stamps nm ts_field i msgs \<equiv> List.map_filter (stamp_of nm ts_field i) msgs"

lemma rejected_simps [simp]:
  "rejected [] = []" "rejected (out @ out') = rejected out @ rejected out'"
  "rejected (replicate k ((''monitor'', ''in''), m)) = []" "rejected [((''rejected'', ''in''), m)] = [m]"
  by (simp_all add: rejected_def)

lemma suppressed_simps [simp]:
  "suppressed [] = []" "suppressed (out @ out') = suppressed out @ suppressed out'"
  "suppressed (replicate k ((''monitor'', ''in''), m)) = []"
  "suppressed [((''rejected'', ''in''), marked ''suppressed'' m)] = [marked ''suppressed'' m]"
  "get_field string_alt m ''throttling'' ''state'' \<noteq> Ok ''suppressed'' \<Longrightarrow> suppressed [((''rejected'', ''in''), m)] = []"
  by (simp_all add: suppressed_def)

lemma passing_simps [simp]:
  "passing v [] = []" "passing v (Flush # evs) = Flush # passing v evs"
  "passing v (Request msg # evs) = (if valid_request msg v then Request msg # passing v evs else passing v evs)"
  by (simp_all add: passing_def)

lemma stamp_of_request:
  "request_of nm ts_field j msg ts \<Longrightarrow> stamp_of nm ts_field i msg = (if j = i then Some ts else None)"
  by (simp add: stamp_of_def request_of_def)

lemma stamp_of_marked [simp]:
  "stamp_of nm ts_field i (marked st msg) = stamp_of nm ts_field i msg"
  "stamp_of nm ts_field i (placed host port msg) = stamp_of nm ts_field i msg"
  by (simp_all add: stamp_of_def placed_fields)

text \<open>A log as it shows in what was posted to the dispatcher and what arrived outside.\<close>

definition client_gets :: "string \<Rightarrow> string \<Rightarrow> string \<Rightarrow> (u64 \<times> bool) list \<Rightarrow> http_request_message list
    \<Rightarrow> (sink_ref \<times> http_request_message) list \<Rightarrow> bool" where
  "client_gets nm ts_field i log ps out \<longleftrightarrow>
     stamps nm ts_field i ps = map fst (filter snd log) \<and>
     stamps nm ts_field i (suppressed out) = map fst (filter (\<lambda>e. \<not> snd e) log)"

lemma client_gets_append:
  "client_gets nm ts_field i log ps out \<Longrightarrow> client_gets nm ts_field i log' ps' out' \<Longrightarrow>
   client_gets nm ts_field i (log @ log') (ps @ ps') (out @ out')"
  by (simp add: client_gets_def List.map_filter_def)

text \<open>The log entry a request adds for the client.\<close>

definition entry :: "string \<Rightarrow> string \<Rightarrow> string \<Rightarrow> http_request_validation_stage \<Rightarrow> bool \<Rightarrow> http_request_message \<Rightarrow> (u64 \<times> bool) list" where
  "entry nm ts_field i v ok msg =
     (if valid_request msg v then (case stamp_of nm ts_field i msg of Some ts \<Rightarrow> [(ts, ok)] | None \<Rightarrow> []) else [])"

lemma limiter_request:
  "limiter w n ok log (client_view nm ts_field i (passing v (Request msg # evs))) =
     entry nm ts_field i v ok msg @ limiter w n ok (log @ entry nm ts_field i v ok msg) (client_view nm ts_field i (passing v evs))"
  "arrivals (client_view nm ts_field i (passing v (Request msg # evs))) =
     map fst (entry nm ts_field i v ok msg) @ arrivals (client_view nm ts_field i (passing v evs))"
  by (simp_all add: entry_def split: option.splits)

section \<open>The parts of a step\<close>

lemma pool_configured_length:
  "pool_configured store key es \<Longrightarrow> get_list_count store key = Ok (length es)"
  by (simp add: pool_configured_def list_reads)

text \<open>A balancer can go on placing the requests it can place.\<close>

lemma round_robin_keeps_places:
  assumes "places b msg (e, host, port)"
  shows "\<exists>b'. round_robin_on_message (marked st msg) b = Ok (b', [(''out'', endpoint_message host port (marked st msg))]) \<and>
    (\<forall>m ep. places b m ep \<longrightarrow> (\<exists>ep'. places b' m ep'))"
proof -
  obtain key es where b: "fst (pool_lookup_field b) \<noteq> ''throttling''"
    "get_field string_alt msg (fst (pool_lookup_field b)) (snd (pool_lookup_field b)) = Ok key"
    "pool_configured (balancer_store b) key es" "es \<noteq> []" "length es \<le> 256" "pool_index b key < length es"
    "(e, host, port) = es ! ((pool_index b key + 1) mod length es)"
    using assms by (auto simp: places_def)
  have key: "get_field string_alt (marked st msg) (fst (pool_lookup_field b)) (snd (pool_lookup_field b)) = Ok key"
    using b(1,2) by simp
  obtain b' where b': "round_robin_on_message (marked st msg) b =
      Ok (b', [(''out'', pool_endpoint es ((pool_index b key + 1) mod length es) (marked st msg))])"
    "pool_index b' key = (pool_index b key + 1) mod length es" "balancer_store b' = balancer_store b"
    "pool_lookup_field b' = pool_lookup_field b" "\<forall>k. k \<noteq> key \<longrightarrow> pool_index b' k = pool_index b k"
    using round_robin_step [OF key b(3-6)] by blast
  have "pool_endpoint es ((pool_index b key + 1) mod length es) m = endpoint_message host port m" for m :: http_request_message
    unfolding pool_endpoint_def b(7) [symmetric] by simp
  moreover have "\<exists>ep'. places b' m ep'" if p: "places b m ep" for m ep
  proof -
    obtain k es' where k: "get_field string_alt m (fst (pool_lookup_field b)) (snd (pool_lookup_field b)) = Ok k"
      "pool_configured (balancer_store b) k es'" "es' \<noteq> []" "length es' \<le> 256" "pool_index b k < length es'"
      using p by (auto simp: places_def)
    have "pool_index b' k < length es'"
    proof (cases "k = key")
      case True
      have "length es' = length es" using pool_configured_length [OF k(2)] pool_configured_length [OF b(3)] by (simp add: True)
      then show ?thesis using b'(2) b(4) by (simp add: True)
    qed (use b'(5) k(5) in simp)
    then show ?thesis
      unfolding places_def
      by (intro exI [of _ "es' ! ((pool_index b' k + 1) mod length es')"] conjI exI [of _ k] exI [of _ es'])
        (simp_all add: k(1-4) b(1) b'(3,4))
  qed
  ultimately show ?thesis using b'(1) by metis
qed

text \<open>
  One request, whatever its lookup fields: it is posted or rejected, as the enforcer has it, and its throttlers are fed accordingly.
\<close>

definition goes_through :: "bool \<Rightarrow> http_request_message \<Rightarrow> http_request_message list \<Rightarrow> (sink_ref \<times> http_request_message) list \<Rightarrow> bool" where
  "goes_through through msg ps out \<longleftrightarrow>
     (if through then (\<exists>host port. ps = [placed host port msg]) \<and> rejected out = []
      else ps = [] \<and> rejected out = [marked ''suppressed'' msg])"

text \<open>Which message is posted, and that the balancer has moved on only if one is.\<close>

definition balances :: "bool \<Rightarrow> http_request_message \<Rightarrow> string \<times> string \<times> string \<Rightarrow> gateway \<Rightarrow> gateway \<Rightarrow> http_request_message list \<Rightarrow> bool" where
  "balances through msg ep g g' ps \<longleftrightarrow>
     (if through then ps = [placed (fst (snd ep)) (snd (snd ep)) msg] \<and>
        round_robin_on_message (marked ''allowed'' msg) (gw_balancer g) =
          Ok (gw_balancer g', [(''out'', placed (fst (snd ep)) (snd (snd ep)) msg)])
      else gw_balancer g' = gw_balancer g)"

lemma request_step:
  assumes "wired (gw_stages g)" and "validation_on_message rt msg (gw_validator g) = Ok (v', [(''valid_requests_out'', msg)])"
    and "asks_for nms ts_field ids msg ts" and "enforcer_lookup_filed_names (gw_enforcer g) = nms"
    and "builder_lookup_filed_names (gw_builder g) = nms" and "time_stamp_field_name (gw_builder g) = ts_field"
    and "places (gw_balancer g) msg ep"
  defines "through \<equiv> lets_through (gw_enforcer g) ids"
  shows "\<exists>g' out ps. gateway_request rt msg g = Ok (g', out) \<and> gw_stages g' = gw_stages g \<and> gw_validator g' = v' \<and>
    gw_enforcer g' = gw_enforcer g \<and> gw_builder g' = fold (feed_one ts (mark_of through)) ids (gw_builder g) \<and>
    (\<forall>m ep. places (gw_balancer g) m ep \<longrightarrow> (\<exists>ep'. places (gw_balancer g') m ep')) \<and>
    gw_dispatcher g' = fold dispatcher_on_message ps (gw_dispatcher g) \<and> goes_through through msg ps out \<and> balances through msg ep g g' ps"
proof -
  have r: "readable (gw_builder g) msg ts"
    using assms(3) asks_for_readable [OF assms(3)] by (simp add: readable_def assms(5,6) asks_for_def)
  have fed: "fed ts st msg (gw_builder g) = fold (feed_one ts st) ids (gw_builder g)" for st
    by (simp add: fed_def assms(5) asks_for_ids [OF assms(3)])
  note e = enforcer_marks [OF assms(3,4), folded through_def]
  show ?thesis
  proof (cases through)
    case True
    obtain x host port where ep: "ep = (x, host, port)" by (cases ep)
    obtain b' where b': "round_robin_on_message (marked ''allowed'' msg) (gw_balancer g) =
        Ok (b', [(''out'', placed host port msg)])" "\<forall>m ep. places (gw_balancer g) m ep \<longrightarrow> (\<exists>ep'. places b' m ep')"
      using round_robin_keeps_places [OF assms(7) [unfolded ep]] unfolding placed_def by blast
    have "enforcer_on_message msg (gw_enforcer g) = Ok [(''allowed_out'', marked ''allowed'' msg)]"
      using e True by (simp add: mark_of_def)
    from gateway_admits [OF assms(1,2) this r b'(1)] show ?thesis
      using True b' by (auto simp: fed mark_of_def goes_through_def balances_def ep)
  next
    case False
    have "enforcer_on_message msg (gw_enforcer g) = Ok [(''throttled_out'', marked ''suppressed'' msg)]"
      using e False by (simp add: mark_of_def)
    from gateway_suppresses [OF assms(1,2) this r] show ?thesis
      using False by (auto simp: fed mark_of_def goes_through_def balances_def)
  qed
qed

lemma flush_step:
  assumes "wired (gw_stages g)"
  shows "gateway_flush g = Ok (g\<lparr>gw_builder := (gw_builder g)\<lparr>updated_throttlers := []\<rparr>,
    gw_enforcer := on_throttle_state_message \<lparr>throttler_states = updated_throttlers (gw_builder g)\<rparr> (gw_enforcer g)\<rparr>)"
  using assms by (simp add: gateway_flush_def builder_on_flush_message_def flush_updates_eq wired_emits)

section \<open>The limit holds end to end\<close>

text \<open>
  What the requests of a run need of the stages behind the server: each can be judged by the validator and, if it is
  valid, has its lookup fields and time stamp and can be placed.
\<close>

definition acceptable :: "http_request_validation_stage \<Rightarrow> string list \<Rightarrow> string \<Rightarrow> http_request_message list \<Rightarrow> gateway \<Rightarrow> bool" where
  "acceptable v nms ts_field msgs g \<longleftrightarrow> wired (gw_stages g) \<and> same_specs v (gw_validator g) \<and>
     (\<forall>msg \<in> set msgs. judgeable msg v \<and>
       (valid_request msg v \<longrightarrow> (\<exists>ids ts. asks_for nms ts_field ids msg ts) \<and> (\<exists>ep. places (gw_balancer g) msg ep)))"

lemma acceptable_one:
  assumes "build_gateway = Ok (gw_stages g)" and "\<forall>msg \<in> set msgs. judgeable msg (gw_validator g) \<and> P msg"
    and "\<forall>msg \<in> set msgs. valid_request msg (gw_validator g) \<longrightarrow>
      (\<exists>j ts. request_of nm ts_field j msg ts) \<and> (\<exists>ep. places (gw_balancer g) msg ep)"
  shows "acceptable (gw_validator g) [nm] ts_field msgs g"
proof -
  have "\<exists>ids ts. asks_for [nm] ts_field ids msg ts" if "request_of nm ts_field j msg ts" for j ts and msg :: http_request_message
    using that unfolding asks_for_one [symmetric] by blast
  then show ?thesis using assms(2,3) built_gateway_wired [OF assms(1)] unfolding acceptable_def by fastforce
qed

lemma refused_step:
  assumes "acceptable v nms ts_field (msg # msgs) g" and "\<not> valid_request msg v"
  shows "\<exists>v'. gateway_request rt msg g = Ok (g\<lparr>gw_validator := v'\<rparr>, [((''rejected'', ''in''), msg)]) \<and>
    acceptable v nms ts_field msgs (g\<lparr>gw_validator := v'\<rparr>)"
proof -
  have w: "wired (gw_stages g)" and v: "same_specs v (gw_validator g)" and "judgeable msg v"
    using assms(1) by (simp_all add: acceptable_def)
  then obtain v' where v': "validation_on_message rt msg (gw_validator g) = Ok (v', [(''invalid_requests_out'', msg)])"
    "same_specs (gw_validator g) v'"
    using validation_judges [of msg "gw_validator g" rt] assms(2) by (auto simp: same_specs_judge [OF v])
  have "same_specs v v'" by (rule same_specs_trans [OF v v'(2)])
  then show ?thesis using gateway_refuses [OF w v'(1)] assms(1) by (auto simp: acceptable_def)
qed

lemma fold_posted [simp]: "posted (fold dispatcher_on_message ps d) = posted d @ ps"
  by (induction ps arbitrary: d) (simp_all add: dispatcher_on_message_def)

lemma valid_step:
  assumes "acceptable v nms ts_field (msg # msgs) g" and "valid_request msg v"
    and "enforcer_lookup_filed_names (gw_enforcer g) = nms" and "builder_lookup_filed_names (gw_builder g) = nms"
    and "time_stamp_field_name (gw_builder g) = ts_field"
  shows "\<exists>ids ts g1 out ps. asks_for nms ts_field ids msg ts \<and> gateway_request rt msg g = Ok (g1, out) \<and>
    acceptable v nms ts_field msgs g1 \<and> gw_enforcer g1 = gw_enforcer g \<and>
    gw_builder g1 = fold (feed_one ts (mark_of (lets_through (gw_enforcer g) ids))) ids (gw_builder g) \<and>
    posted (gw_dispatcher g1) = posted (gw_dispatcher g) @ ps \<and> goes_through (lets_through (gw_enforcer g) ids) msg ps out"
proof -
  obtain ids ts ep where msg: "asks_for nms ts_field ids msg ts" "places (gw_balancer g) msg ep" "wired (gw_stages g)"
    "same_specs v (gw_validator g)" "judgeable msg v"
    using assms(1,2) by (auto simp: acceptable_def)
  obtain v' where v': "validation_on_message rt msg (gw_validator g) = Ok (v', [(''valid_requests_out'', msg)])"
    "same_specs (gw_validator g) v'"
    using validation_judges [of msg "gw_validator g" rt] assms(2) msg(5) by (auto simp: same_specs_judge [OF msg(4)])
  obtain g1 out ps where 1: "gateway_request rt msg g = Ok (g1, out)" "gw_stages g1 = gw_stages g" "gw_validator g1 = v'"
    "gw_enforcer g1 = gw_enforcer g" "gw_builder g1 = fold (feed_one ts (mark_of (lets_through (gw_enforcer g) ids))) ids (gw_builder g)"
    "\<forall>m ep. places (gw_balancer g) m ep \<longrightarrow> (\<exists>ep'. places (gw_balancer g1) m ep')"
    "gw_dispatcher g1 = fold dispatcher_on_message ps (gw_dispatcher g)" "goes_through (lets_through (gw_enforcer g) ids) msg ps out"
    using request_step [OF msg(3) v'(1) msg(1) assms(3-5) msg(2)] by blast
  have "\<exists>ep. places (gw_balancer g1) m ep" if "m \<in> set msgs" "valid_request m v" for m
    using assms(1) 1(6) that by (auto simp: acceptable_def)
  then have "acceptable v nms ts_field msgs g1"
    using assms(1) same_specs_trans [OF msg(4) v'(2)] by (simp add: acceptable_def 1(2,3))
  then show ?thesis using msg(1) 1(1,4,5,8) by (auto simp: 1(7))
qed

text \<open>With one lookup field, as one client sees it.\<close>

lemma goes_through_client:
  assumes "goes_through through msg ps out" and "request_of nm ts_field j msg ts"
  shows "client_gets nm ts_field i (if j = i then [(ts, through)] else []) ps out"
  using assms(1) stamp_of_request [OF assms(2), of i]
  by (auto simp: goes_through_def client_gets_def suppressed_def List.map_filter_def split: if_splits)

lemma any_step:
  assumes "acceptable v [nm] ts_field (msg # msgs) g" and "get_field string_alt msg ''throttling'' ''state'' \<noteq> Ok ''suppressed''"
    and "client_at [nm] ts_field i w n log ok (gw_enforcer g) (gw_builder g)"
  shows "\<exists>g1 out ps. gateway_request rt msg g = Ok (g1, out) \<and> acceptable v [nm] ts_field msgs g1 \<and>
    client_at [nm] ts_field i w n (log @ entry nm ts_field i v ok msg) ok (gw_enforcer g1) (gw_builder g1) \<and>
    posted (gw_dispatcher g1) = posted (gw_dispatcher g) @ ps \<and> client_gets nm ts_field i (entry nm ts_field i v ok msg) ps out"
proof (cases "valid_request msg v")
  case False
  obtain v' where v': "gateway_request rt msg g = Ok (g\<lparr>gw_validator := v'\<rparr>, [((''rejected'', ''in''), msg)])"
    "acceptable v [nm] ts_field msgs (g\<lparr>gw_validator := v'\<rparr>)"
    using refused_step [OF assms(1) False] by blast
  have "entry nm ts_field i v ok msg = []" using False by (simp add: entry_def)
  then show ?thesis
    using v' assms(2,3) by (intro exI [of _ "g\<lparr>gw_validator := v'\<rparr>"] exI [of _ "[((''rejected'', ''in''), msg)]"] exI [of _ "[]"])
      (simp add: client_gets_def List.map_filter_def)
next
  case True
  note c = assms(3)
  have "enforcer_lookup_filed_names (gw_enforcer g) = [nm]" "builder_lookup_filed_names (gw_builder g) = [nm]"
    "time_stamp_field_name (gw_builder g) = ts_field" using c by (simp_all add: client_at_def)
  from valid_step [OF assms(1) True this, of rt] obtain ids ts g1 out ps
    where ids: "asks_for [nm] ts_field ids msg ts" and 1: "gateway_request rt msg g = Ok (g1, out)" "acceptable v [nm] ts_field msgs g1"
      "gw_enforcer g1 = gw_enforcer g" "gw_builder g1 = fold (feed_one ts (mark_of (lets_through (gw_enforcer g) ids))) ids (gw_builder g)"
      "posted (gw_dispatcher g1) = posted (gw_dispatcher g) @ ps" "goes_through (lets_through (gw_enforcer g) ids) msg ps out"
    by blast
  obtain j where j: "ids = [j]" using ids by (auto simp: asks_for_def)
  have msg: "request_of nm ts_field j msg ts" by (rule ids [unfolded j asks_for_one])
  have ok: "j = i \<longrightarrow> lets_through (gw_enforcer g) ids = ok" using c by (auto simp: j lets_through_def client_at_def)
  then have inc: "entry nm ts_field i v ok msg = (if j = i then [(ts, lets_through (gw_enforcer g) ids)] else [])"
    using True by (simp add: entry_def stamp_of_request [OF msg])
  then have "client_at [nm] ts_field i w n (log @ entry nm ts_field i v ok msg) ok (gw_enforcer g1) (gw_builder g1)"
    using client_request [OF c, of ts] other_request [OF c, of j ts] by (simp add: 1(3,4) j)
  then show ?thesis using 1(1,2,5) goes_through_client [OF 1(6) msg, of i, folded inc] by blast
qed

lemma run_limits:
  assumes "acceptable v [nm] ts_field (requests_of evs) g"
    and "\<forall>msg \<in> set (requests_of evs). get_field string_alt msg ''throttling'' ''state'' \<noteq> Ok ''suppressed''"
    and "client_at [nm] ts_field i w n log ok (gw_enforcer g) (gw_builder g)"
    and "sorted (w # map fst log @ arrivals (client_view nm ts_field i (passing v evs)))"
  shows "\<exists>g' out ps. gateway_run rt evs g = Ok (g', out) \<and> posted (gw_dispatcher g') = posted (gw_dispatcher g) @ ps \<and>
    client_gets nm ts_field i (limiter w n ok log (client_view nm ts_field i (passing v evs))) ps out"
  using assms
proof (induction evs arbitrary: g log ok)
  case Nil
  then show ?case by (simp add: client_gets_def List.map_filter_def)
next
  case (Cons ev evs)
  show ?case
  proof (cases ev)
    case (Request msg)
    note acc = Cons.prems(1) [unfolded Request requests_of.simps]
    have unmarked: "get_field string_alt msg ''throttling'' ''state'' \<noteq> Ok ''suppressed''"
      "\<forall>msg \<in> set (requests_of evs). get_field string_alt msg ''throttling'' ''state'' \<noteq> Ok ''suppressed''"
      using Cons.prems(2) by (simp_all add: Request)
    let ?inc = "entry nm ts_field i v ok msg"
    obtain g1 out1 ps1 where 1: "gateway_request rt msg g = Ok (g1, out1)" "acceptable v [nm] ts_field (requests_of evs) g1"
      "client_at [nm] ts_field i w n (log @ ?inc) ok (gw_enforcer g1) (gw_builder g1)"
      "posted (gw_dispatcher g1) = posted (gw_dispatcher g) @ ps1" "client_gets nm ts_field i ?inc ps1 out1"
      using any_step [OF acc unmarked(1) Cons.prems(3)] by blast
    have "sorted (w # map fst (log @ ?inc) @ arrivals (client_view nm ts_field i (passing v evs)))"
      using Cons.prems(4) unfolding Request limiter_request(2) [where ok = ok] by simp
    from Cons.IH [OF 1(2) unmarked(2) 1(3) this] obtain g2 out2 ps2 where 2: "gateway_run rt evs g1 = Ok (g2, out2)"
      "posted (gw_dispatcher g2) = posted (gw_dispatcher g1) @ ps2"
      "client_gets nm ts_field i (limiter w n ok (log @ ?inc) (client_view nm ts_field i (passing v evs))) ps2 out2" by blast
    then show ?thesis
      using 1(1,4) client_gets_append [OF 1(5) 2(3)] unfolding Request limiter_request(1) by auto
  next
    case Flush
    let ?g = "g\<lparr>gw_builder := (gw_builder g)\<lparr>updated_throttlers := []\<rparr>,
      gw_enforcer := on_throttle_state_message \<lparr>throttler_states = updated_throttlers (gw_builder g)\<rparr> (gw_enforcer g)\<rparr>"
    have "acceptable v [nm] ts_field (requests_of evs) ?g" and w: "wired (gw_stages g)"
      using Cons.prems(1) by (simp_all add: Flush acceptable_def)
    moreover have "client_at [nm] ts_field i w n log (within w n log) (gw_enforcer ?g) (gw_builder ?g)"
      using client_flush [OF Cons.prems(3)] Cons.prems(4) by (simp add: sorted_append)
    ultimately show ?thesis
      using Cons.IH [of ?g log "within w n log"] Cons.prems(2,4) by (simp add: Flush flush_step [OF w])
  qed
qed

text \<open>
  C3: The gateway limits each client by itself. Take the gateway as built, any sequence of requests of any clients that the
  validator can judge, the valid ones of which the balancer can place, and of flushes of the state builder; let the valid requests of one client, who has a freshly
  configured throttler and is not refused yet, come in the order of their time stamps. The run never ends the process, and the requests of
  that client that reach the dispatcher, and those that arrive at \<open>rejected\<close> as suppressed, are exactly the ones the abstract
  limiter admits and refuses on the client's own valid requests and the flushes, in this order; other clients and invalid requests do not matter.
\<close>

theorem gateway_limits_clients:
  assumes "build_gateway = Ok (gw_stages g)"
    and "\<forall>msg \<in> set (requests_of evs). judgeable msg (gw_validator g) \<and> get_field string_alt msg ''throttling'' ''state'' \<noteq> Ok ''suppressed''"
    and "\<forall>msg \<in> set (requests_of evs). valid_request msg (gw_validator g) \<longrightarrow>
      (\<exists>j ts. request_of nm ts_field j msg ts) \<and> (\<exists>ep. places (gw_balancer g) msg ep)"
    and "enforcer_lookup_filed_names (gw_enforcer g) = [nm]" and "builder_lookup_filed_names (gw_builder g) = [nm]"
    and "time_stamp_field_name (gw_builder g) = ts_field" and "updated_throttlers (gw_builder g) = []"
    and "umap_find (throttlers (gw_builder g)) i = Some (SlidingLogThrottler (new_sliding_log_throttler w n))"
    and "umap_find (enforcer_states (gw_enforcer g)) i \<noteq> Some False"
    and "sorted (w # arrivals (client_view nm ts_field i (passing (gw_validator g) evs)))"
  defines "log \<equiv> limiter w n True [] (client_view nm ts_field i (passing (gw_validator g) evs))"
  shows "\<exists>g' out ps. gateway_run rt evs g = Ok (g', out) \<and> posted (gw_dispatcher g') = posted (gw_dispatcher g) @ ps \<and>
    stamps nm ts_field i ps = map fst (filter snd log) \<and>
    stamps nm ts_field i (suppressed out) = map fst (filter (\<lambda>e. \<not> snd e) log)"
proof -
  have "\<forall>msg \<in> set (requests_of evs). get_field string_alt msg ''throttling'' ''state'' \<noteq> Ok ''suppressed''" using assms(2) by blast
  from run_limits [OF acceptable_one [OF assms(1-3)] this client_at_start [OF assms(4-9)]] assms(10) show ?thesis
    by (simp add: client_gets_def log_def)
qed

text \<open>Three requests of one client with a flush before the third, and one of another client.\<close>

definition request_at :: "string \<Rightarrow> u64 \<Rightarrow> http_request_message" where
  "request_at client ts = set_field int64_alt ''info'' ''request_time'' ts (gateway_example_request client)"

definition example_events :: "gateway_event list" where
  "example_events = [Request (request_at ''k1'' 100), Request (request_at ''k1'' 101), Request (request_at ''k1'' 102),
     Request (request_at ''k2'' 50), Flush, Request (request_at ''k1'' 103), Request (request_at ''k1'' 120), Flush,
     Request (request_at ''k1'' 121)]"

lemma request_at_fields:
  "get_field string_alt (request_at client ts) ''http_info'' ''route_key_1'' = Ok client"
  "get_field string_alt (request_at client ts) ''http_info'' ''route_key_2'' = Ok ''p''"
  "get_field int64_alt (request_at client ts) ''info'' ''request_time'' = Ok ts"
  by (simp_all add: request_at_def gateway_example_request_def get_field_set_Ok_iff
    get_field_set_same [OF int64.variant_alternative_axioms])

lemma request_at_of: "request_of ''route_key_1'' ''request_time'' client (request_at client ts) ts"
  by (simp add: request_of_def request_at_fields)

lemma request_at_placed: "places (gw_balancer example_gateway) (request_at client ts) (''b'', ''h2'', ''2'')"
  unfolding places_def
  by (intro conjI exI [of _ "''p''"] exI [of _ example_endpoints])
    (use example_pool in \<open>simp_all add: request_at_fields example_gateway_def example_endpoints_def example_balancer_def
      new_round_robin_load_balancer_def pool_index_def umap_subscript_def\<close>)

lemma request_at_judged:
  "judgeable (request_at client ts) (gw_validator example_gateway)" "valid_request (request_at client ts) (gw_validator example_gateway)"
  "get_field string_alt (request_at client ts) ''throttling'' ''state'' \<noteq> Ok ''suppressed''"
proof -
  show "judgeable (request_at client ts) (gw_validator example_gateway)" "valid_request (request_at client ts) (gw_validator example_gateway)"
    by (simp_all add: judgeable_def valid_request_def example_gateway_def request_at_fields)
  have "get_field string_alt new_request_message ''throttling'' ''state'' \<noteq> Ok ''suppressed''"
    by (simp add: new_request_message_def get_field_def)
  then show "get_field string_alt (request_at client ts) ''throttling'' ''state'' \<noteq> Ok ''suppressed''"
    by (simp add: request_at_def gateway_example_request_def get_field_set_Ok_iff)
qed

lemma passing_requests:
  "\<forall>msg \<in> set (requests_of evs). valid_request msg v \<Longrightarrow> passing v evs = evs"
  by (induction evs rule: requests_of.induct) simp_all

text \<open>What the example gateway makes of such requests.\<close>

lemma example_requests:
  assumes "list_all (\<lambda>msg. \<exists>client ts. msg = request_at client ts) (requests_of evs)"
  shows "passing (gw_validator example_gateway) evs = evs"
    and "\<forall>msg \<in> set (requests_of evs). judgeable msg (gw_validator example_gateway) \<and>
      get_field string_alt msg ''throttling'' ''state'' \<noteq> Ok ''suppressed''"
    and "\<forall>msg \<in> set (requests_of evs). valid_request msg (gw_validator example_gateway) \<longrightarrow>
      (\<exists>j ts. request_of ''route_key_1'' ''request_time'' j msg ts) \<and> (\<exists>ep. places (gw_balancer example_gateway) msg ep)"
proof -
  have msgs: "\<And>msg. msg \<in> set (requests_of evs) \<Longrightarrow> \<exists>client ts. msg = request_at client ts"
    using assms by (simp add: list_all_iff)
  show "passing (gw_validator example_gateway) evs = evs" using msgs request_at_judged(2) by (blast intro: passing_requests)
  show "\<forall>msg \<in> set (requests_of evs). judgeable msg (gw_validator example_gateway) \<and>
      get_field string_alt msg ''throttling'' ''state'' \<noteq> Ok ''suppressed''"
    using msgs request_at_judged(1,3) by metis
  show "\<forall>msg \<in> set (requests_of evs). valid_request msg (gw_validator example_gateway) \<longrightarrow>
      (\<exists>j ts. request_of ''route_key_1'' ''request_time'' j msg ts) \<and> (\<exists>ep. places (gw_balancer example_gateway) msg ep)"
    using msgs request_at_of request_at_placed by blast
qed

lemma example_gateway_parts:
  "enforcer_lookup_filed_names (gw_enforcer example_gateway) = [''route_key_1'']"
  "builder_lookup_filed_names (gw_builder example_gateway) = [''route_key_1'']"
  "time_stamp_field_name (gw_builder example_gateway) = ''request_time''" "updated_throttlers (gw_builder example_gateway) = []"
  "umap_find (throttlers (gw_builder example_gateway)) ''k1'' = Some (SlidingLogThrottler (new_sliding_log_throttler 10 1))"
  "umap_find (enforcer_states (gw_enforcer example_gateway)) ''k1'' \<noteq> Some False"
  "gw_builder example_gateway = (new_throttle_state_builder [''route_key_1''] ''request_time'' 1)
     \<lparr>throttlers := [(''k1'', SlidingLogThrottler (new_sliding_log_throttler 10 1))]\<rparr>"
  "posted (gw_dispatcher example_gateway) = []"
  by (simp_all add: example_gateway_def umap_find_def new_http_dispatcher_def new_throttle_state_builder_def)

theorem gateway_limits_clients_witness:
  "\<exists>g' out ps. gateway_run example_runtime example_events example_gateway = Ok (g', out) \<and>
     posted (gw_dispatcher g') = ps \<and>
     stamps ''route_key_1'' ''request_time'' ''k1'' ps = [100, 101, 102, 121] \<and>
     stamps ''route_key_1'' ''request_time'' ''k1'' (suppressed out) = [103, 120]"
proof -
  have "list_all (\<lambda>msg. \<exists>client ts. msg = request_at client ts) (requests_of example_events)"
    by (auto simp: example_events_def)
  note example = example_requests [OF this]
  have view: "client_view ''route_key_1'' ''request_time'' ''k1'' example_events =
      [Arrives 100, Arrives 101, Arrives 102, Flushed, Arrives 103, Arrives 120, Flushed, Arrives 121]"
    by (simp add: example_events_def stamp_of_request [OF request_at_of])
  have "sorted (10 # arrivals (client_view ''route_key_1'' ''request_time'' ''k1'' (passing (gw_validator example_gateway) example_events)))"
    unfolding example(1) view by simp
  then show ?thesis
    using gateway_limits_clients [where rt = example_runtime, OF example_gateway_built example(2,3) example_gateway_parts(1-6)]
    unfolding example(1) view example_gateway_parts(8) by (simp add: within_def in_window_def counted_def)
qed

section \<open>Without a flush there is no limit\<close>

lemma view_without_flush:
  "Flush \<notin> set evs \<Longrightarrow> client_view nm ts_field i evs = map Arrives (stamps nm ts_field i (requests_of evs))"
proof (induction evs)
  case (Cons ev evs)
  then show ?case by (cases ev) (simp_all add: List.map_filter_def split: option.splits)
qed (simp add: List.map_filter_def)

lemma passing_keeps_flushes: "Flush \<notin> set evs \<Longrightarrow> Flush \<notin> set (passing v evs)"
  by (simp add: passing_def)

text \<open>
  C31: The threshold of the state builder does not flush, so the limit lags behind without bound. As long as no flush message
  arrives, every valid request of a client that is not refused already reaches the dispatcher, whatever its throttler allows,
  however many there are and whatever flush threshold the builder was constructed with.
\<close>

theorem nothing_is_limited_without_flush:
  assumes "build_gateway = Ok (gw_stages g)" and "Flush \<notin> set evs"
    and "\<forall>msg \<in> set (requests_of evs). judgeable msg (gw_validator g) \<and> get_field string_alt msg ''throttling'' ''state'' \<noteq> Ok ''suppressed''"
    and "\<forall>msg \<in> set (requests_of evs). valid_request msg (gw_validator g) \<longrightarrow>
      (\<exists>j ts. request_of nm ts_field j msg ts) \<and> (\<exists>ep. places (gw_balancer g) msg ep)"
    and "enforcer_lookup_filed_names (gw_enforcer g) = [nm]" and "umap_find (enforcer_states (gw_enforcer g)) i \<noteq> Some False"
    and "gw_builder g = (new_throttle_state_builder [nm] ts_field threshold)
      \<lparr>throttlers := [(i, SlidingLogThrottler (new_sliding_log_throttler w n))]\<rparr>"
  defines "tss \<equiv> stamps nm ts_field i (requests_of (passing (gw_validator g) evs))"
  assumes "sorted (w # tss)"
  shows "\<exists>g' out ps. gateway_run rt evs g = Ok (g', out) \<and> posted (gw_dispatcher g') = posted (gw_dispatcher g) @ ps \<and>
    stamps nm ts_field i ps = tss \<and> stamps nm ts_field i (suppressed out) = []"
proof -
  have "acceptable (gw_validator g) [nm] ts_field (requests_of evs) g" by (rule acceptable_one [OF assms(1,3,4)])
  moreover have "\<forall>msg \<in> set (requests_of evs). get_field string_alt msg ''throttling'' ''state'' \<noteq> Ok ''suppressed''" using assms(3) by blast
  moreover have "client_at [nm] ts_field i w n [] True (gw_enforcer g) (gw_builder g)"
    using assms(5-7) by (intro client_at_start) (simp_all add: new_throttle_state_builder_def umap_find_def)
  moreover have "arrivals (map Arrives tss) = tss" for tss by (induction tss) simp_all
  moreover have "limiter w n True [] (map Arrives tss) = map (\<lambda>ts. (ts, True)) tss"
    using limiter_unflushed [of w n True "[]" tss "[]"] by simp
  ultimately show ?thesis
    using run_limits [of "gw_validator g" nm ts_field evs g i w n "[]" True rt] assms(9)
    by (simp add: view_without_flush [OF passing_keeps_flushes [OF assms(2)]] client_gets_def filter_map o_def flip: tss_def)
qed

theorem nothing_is_limited_without_flush_witness:
  "\<exists>g' out ps. gateway_run example_runtime (replicate 20 (Request (request_at ''k1'' 100))) example_gateway = Ok (g', out) \<and>
     posted (gw_dispatcher g') = ps \<and> stamps ''route_key_1'' ''request_time'' ''k1'' ps = replicate 20 100"
proof -
  let ?evs = "replicate 20 (Request (request_at ''k1'' 100))"
  have "requests_of (replicate k (Request msg)) = replicate k msg" for k msg by (induction k) simp_all
  then have msgs: "requests_of ?evs = replicate 20 (request_at ''k1'' 100)" .
  have "list_all (\<lambda>msg. \<exists>client ts. msg = request_at client ts) (requests_of ?evs)" unfolding msgs by (auto simp: list_all_iff)
  note example = example_requests [OF this]
  have "stamps nm f i (replicate k msg) = (case stamp_of nm f i msg of Some ts \<Rightarrow> replicate k ts | None \<Rightarrow> [])" for nm f i k msg
    by (induction k) (simp_all add: List.map_filter_def split: option.splits)
  then have view: "stamps ''route_key_1'' ''request_time'' ''k1'' (requests_of (passing (gw_validator example_gateway) ?evs)) = replicate 20 100"
    unfolding example(1) by (simp add: msgs stamp_of_request [OF request_at_of])
  have 1: "Flush \<notin> set ?evs" by simp
  have 5: "sorted (10 # stamps ''route_key_1'' ''request_time'' ''k1'' (requests_of (passing (gw_validator example_gateway) ?evs)))"
    unfolding view by simp
  show ?thesis
    using nothing_is_limited_without_flush [where rt = example_runtime, OF example_gateway_built 1 example(2,3) example_gateway_parts(1,6,7) 5]
    unfolding view example_gateway_parts(8) by auto
qed

section \<open>Waiting does not help\<close>

lemma burst_counts:
  assumes "w \<le> ts" and "k \<noteq> 0"
  shows "within w n (replicate k (ts, True)) \<longleftrightarrow> k \<le> unat n"
proof -
  have "ts - w \<le> ts" using assms(1) by (simp add: word_sub_le)
  then show ?thesis using assms(2) burst_counted [of w ts k 0] by (simp add: within_def)
qed

lemma limiter_flushes: "limiter w n ok evs (replicate (Suc m) Flushed @ es) = limiter w n (within w n evs) evs es"
  by (induction m arbitrary: ok) simp_all

lemma limiter_waits:
  assumes "w \<le> ts"
  shows "limiter w n True [] (replicate (unat n + 1) (Arrives ts) @ replicate (Suc m) Flushed @ [Arrives ts']) =
    replicate (unat n + 1) (ts, True) @ [(ts', False)]"
proof -
  have "limiter w n True [] (replicate k (Arrives ts) @ es) = replicate k (ts, True) @ limiter w n True (replicate k (ts, True)) es" for k es
    using limiter_unflushed [of w n True "[]" "replicate k ts" es] by simp
  moreover have "\<not> within w n (replicate (unat n + 1) (ts, True))" using burst_counts [OF assms, of "unat n + 1" n] by simp
  ultimately show ?thesis by (simp only: limiter_flushes) simp
qed

text \<open>
  C30: A client that has used up its requests is refused once more however long it waits. Let the valid requests of a client be a burst of one
  more than its throttler allows, then at least one flush, and then one request at any later time, long after the window has passed and
  after any number of flushes: the burst reaches the dispatcher, and the late request is suppressed, for a flush
  publishes old verdicts and only a request has a throttler evaluated again.
\<close>

theorem waiting_client_is_refused:
  assumes "build_gateway = Ok (gw_stages g)"
    and "\<forall>msg \<in> set (requests_of evs). judgeable msg (gw_validator g) \<and> get_field string_alt msg ''throttling'' ''state'' \<noteq> Ok ''suppressed''"
    and "\<forall>msg \<in> set (requests_of evs). valid_request msg (gw_validator g) \<longrightarrow>
      (\<exists>j ts. request_of nm ts_field j msg ts) \<and> (\<exists>ep. places (gw_balancer g) msg ep)"
    and "enforcer_lookup_filed_names (gw_enforcer g) = [nm]" and "builder_lookup_filed_names (gw_builder g) = [nm]"
    and "time_stamp_field_name (gw_builder g) = ts_field" and "updated_throttlers (gw_builder g) = []"
    and "umap_find (throttlers (gw_builder g)) i = Some (SlidingLogThrottler (new_sliding_log_throttler w n))"
    and "umap_find (enforcer_states (gw_enforcer g)) i \<noteq> Some False"
    and "client_view nm ts_field i (passing (gw_validator g) evs) =
      replicate (unat n + 1) (Arrives ts) @ replicate (Suc m) Flushed @ [Arrives late]"
    and "w \<le> ts" and "ts \<le> late"
  shows "\<exists>g' out ps. gateway_run rt evs g = Ok (g', out) \<and> posted (gw_dispatcher g') = posted (gw_dispatcher g) @ ps \<and>
    stamps nm ts_field i ps = replicate (unat n + 1) ts \<and> stamps nm ts_field i (suppressed out) = [late]"
proof -
  have "acceptable (gw_validator g) [nm] ts_field (requests_of evs) g" by (rule acceptable_one [OF assms(1-3)])
  moreover have "\<forall>msg \<in> set (requests_of evs). get_field string_alt msg ''throttling'' ''state'' \<noteq> Ok ''suppressed''" using assms(2) by blast
  moreover have "arrivals (replicate k (Arrives ts) @ replicate (Suc m) Flushed @ [Arrives late]) = replicate k ts @ [late]" for k
  proof (induction k)
    case 0
    show ?case by (induction m) simp_all
  qed simp
  ultimately show ?thesis
    using run_limits [OF _ _ client_at_start [OF assms(4-9)], of "gw_validator g" evs rt] assms(11,12)
    unfolding assms(10) limiter_waits [OF assms(11)]
    by (simp add: client_gets_def sorted_append filter_replicate del: replicate_Suc)
qed

theorem waiting_client_is_refused_witness:
  "\<exists>g' out ps. gateway_run example_runtime [Request (request_at ''k1'' 100), Request (request_at ''k1'' 100), Flush, Flush,
       Request (request_at ''k1'' 1000000)] example_gateway = Ok (g', out) \<and>
     posted (gw_dispatcher g') = ps \<and> stamps ''route_key_1'' ''request_time'' ''k1'' ps = [100, 100] \<and>
     stamps ''route_key_1'' ''request_time'' ''k1'' (suppressed out) = [1000000]"
proof -
  let ?evs = "[Request (request_at ''k1'' 100), Request (request_at ''k1'' 100), Flush, Flush, Request (request_at ''k1'' 1000000)]"
  have "list_all (\<lambda>msg. \<exists>client ts. msg = request_at client ts) (requests_of ?evs)" by auto
  note example = example_requests [OF this]
  have view: "client_view ''route_key_1'' ''request_time'' ''k1'' (passing (gw_validator example_gateway) ?evs) =
      replicate (unat (1 :: u64) + 1) (Arrives 100) @ replicate (Suc 1) Flushed @ [Arrives 1000000]"
    unfolding example(1) by (simp add: stamp_of_request [OF request_at_of] numeral_2_eq_2)
  have "(10 :: u64) \<le> 100" "(100 :: u64) \<le> 1000000" by simp_all
  from waiting_client_is_refused [where rt = example_runtime, OF example_gateway_built example(2,3) example_gateway_parts(1-6) view this]
  show ?thesis unfolding example_gateway_parts(8) append_Nil by (simp add: numeral_2_eq_2 del: gateway_run.simps)
qed

end
