(* ===== verification/Gateway_Verdicts.thy ===== *)
theory Gateway_Verdicts
  imports Gateway_Limits
begin

text \<open>
  The whole gateway against one abstract machine: requests with any number of lookup fields, of clients with and
  without a throttler, and flushes. The machine keeps a log for every throttler and says of each request whether it is let
  through; the gateway's two stages are related to it throttler by throttler.
\<close>

section \<open>The machine\<close>

text \<open>
  \<open>conf\<close> gives the window and the count of the throttlers there are, \<open>oks\<close> the verdicts published last and \<open>logs\<close> the requests
  that named each throttler. A request is let through if no verdict on the ids it names is a refusal, and is logged
  with every one of them.
\<close>

datatype asking = Asks "string list" u64 | Published

fun limiters ::
  "(string \<Rightarrow> (u64 \<times> u64) option) \<Rightarrow> (string \<Rightarrow> bool) \<Rightarrow> (string \<Rightarrow> (u64 \<times> bool) list) \<Rightarrow> asking list \<Rightarrow> bool list"
where
  "limiters conf oks logs [] = []"
| "limiters conf oks logs (Asks ids ts # es) =
     list_all oks ids #
     limiters conf oks (\<lambda>i. logs i @ replicate (count_list ids i) (ts, list_all oks ids)) es"
| "limiters conf oks logs (Published # es) =
     limiters conf (\<lambda>i. case conf i of Some (w, n) \<Rightarrow> within w n (logs i) | None \<Rightarrow> oks i) logs es"

fun asked_at :: "asking list \<Rightarrow> u64 list" where
  "asked_at [] = []"
| "asked_at (Asks ids ts # es) = ts # asked_at es"
| "asked_at (Published # es) = asked_at es"

text \<open>What the machine sees of a run.\<close>

fun asking_view :: "string list \<Rightarrow> string \<Rightarrow> gateway_event list \<Rightarrow> asking list" where
  "asking_view nms ts_field [] = []"
| "asking_view nms ts_field (Request msg # es) =
     Asks (List.map_filter (lookup_id msg) nms) (case get_field int64_alt msg ''info'' ts_field of Ok ts \<Rightarrow> ts | _ \<Rightarrow> 0) #
     asking_view nms ts_field es"
| "asking_view nms ts_field (Flush # es) = Published # asking_view nms ts_field es"

lemma asking_view_request:
  "asks_for nms ts_field ids msg ts \<Longrightarrow> asking_view nms ts_field (Request msg # es) = Asks ids ts # asking_view nms ts_field es"
  by (simp add: asks_for_ids) (simp add: asks_for_def)

text \<open>
  What arrives at \<open>rejected\<close> when the valid requests are given these verdicts: invalid requests as they are, suppressed ones
  marked.
\<close>

fun rejections :: "http_request_validation_stage \<Rightarrow> gateway_event list \<Rightarrow> bool list \<Rightarrow> http_request_message list" where
  "rejections v [] verdicts = []"
| "rejections v (Flush # es) verdicts = rejections v es verdicts"
| "rejections v (Request msg # es) verdicts =
     (if valid_request msg v
      then (if hd verdicts then [] else [marked ''suppressed'' msg]) @ rejections v es (tl verdicts)
      else msg # rejections v es verdicts)"

text \<open>The requests that are let through.\<close>

definition let_through :: "'m list \<Rightarrow> bool list \<Rightarrow> 'm list" where
  "let_through msgs verdicts = map fst (filter snd (zip msgs verdicts))"

lemma let_through_Cons [simp]:
  "let_through [] verdicts = []"
  "let_through (msg # msgs) (ok # verdicts) = (if ok then msg # let_through msgs verdicts else let_through msgs verdicts)"
  by (simp_all add: let_through_def)

section \<open>The relation\<close>

definition throttler_at ::
  "string list \<Rightarrow> string \<Rightarrow> string \<Rightarrow> (u64 \<times> u64) option \<Rightarrow> (u64 \<times> bool) list \<Rightarrow> bool
     \<Rightarrow> throttling_enforcer \<Rightarrow> throttle_state_builder \<Rightarrow> bool"
where
  "throttler_at nms ts_field i c log ok e b =
     (case c of
        Some (w, n) \<Rightarrow> client_at nms ts_field i w n log ok e b
      | None \<Rightarrow> umap_find (throttlers b) i = None \<and> (umap_find (enforcer_states e) i \<noteq> Some False) = ok \<and>
          i \<notin> fst ` set (updated_throttlers b))"

definition throttled_by ::
  "string list \<Rightarrow> string \<Rightarrow> (string \<Rightarrow> (u64 \<times> u64) option) \<Rightarrow> (string \<Rightarrow> bool) \<Rightarrow> (string \<Rightarrow> (u64 \<times> bool) list)
     \<Rightarrow> throttling_enforcer \<Rightarrow> throttle_state_builder \<Rightarrow> bool"
where
  "throttled_by nms ts_field conf oks logs e b \<longleftrightarrow>
     enforcer_lookup_filed_names e = nms \<and> builder_lookup_filed_names b = nms \<and> time_stamp_field_name b = ts_field \<and>
     (\<forall>i. throttler_at nms ts_field i (conf i) (logs i) (oks i) e b)"

lemma throttled_by_start:
  assumes "enforcer_lookup_filed_names e = nms" and "builder_lookup_filed_names b = nms"
    and "time_stamp_field_name b = ts_field" and "updated_throttlers b = []"
    and "\<forall>i. umap_find (throttlers b) i = map_option (\<lambda>(w, n). SlidingLogThrottler (new_sliding_log_throttler w n)) (conf i)"
    and "\<forall>i. conf i \<noteq> None \<longrightarrow> umap_find (enforcer_states e) i \<noteq> Some False"
  shows "throttled_by nms ts_field conf (\<lambda>i. umap_find (enforcer_states e) i \<noteq> Some False) (\<lambda>i. []) e b"
proof -
  have "client_at nms ts_field i w n [] (umap_find (enforcer_states e) i \<noteq> Some False) e b" if "conf i = Some (w, n)" for i w n
  proof -
    have "umap_find (throttlers b) i = Some (SlidingLogThrottler (new_sliding_log_throttler w n))"
      "umap_find (enforcer_states e) i \<noteq> Some False" using assms(5,6) that by simp_all
    then show ?thesis using client_at_start [OF assms(1-4)] by simp
  qed
  then show ?thesis using assms(1-5) by (auto simp: throttled_by_def throttler_at_def split: option.splits)
qed

lemma throttled_by_oks:
  assumes "throttled_by nms ts_field conf oks logs e b"
  shows "oks = (\<lambda>i. umap_find (enforcer_states e) i \<noteq> Some False)"
proof
  fix i
  have "throttler_at nms ts_field i (conf i) (logs i) (oks i) e b" using assms by (simp add: throttled_by_def)
  then show "oks i = (umap_find (enforcer_states e) i \<noteq> Some False)"
    by (auto simp: throttler_at_def client_at_def split: option.splits)
qed

lemma throttled_by_lets_through: "throttled_by nms ts_field conf oks logs e b \<Longrightarrow> lets_through e ids = list_all oks ids"
  by (drule throttled_by_oks) (simp add: lets_through_def)

text \<open>Throttlers there are not stay away.\<close>

lemma feed_none:
  "umap_find (throttlers b) i = None \<Longrightarrow>
   umap_find (throttlers (fold (feed_one ts s) ids b)) i = None \<and>
   (i \<in> fst ` set (updated_throttlers (fold (feed_one ts s) ids b)) \<longleftrightarrow> i \<in> fst ` set (updated_throttlers b))"
proof (induction ids arbitrary: b)
  case (Cons j ids)
  have "umap_find (throttlers (feed_one ts s j b)) i = None"
    "i \<in> fst ` set (updated_throttlers (feed_one ts s j b)) \<longleftrightarrow> i \<in> fst ` set (updated_throttlers b)"
    using Cons.prems by (auto simp: feed_one_def um.find_assign split: option.splits)
  then show ?case using Cons.IH [of "feed_one ts s j b"] by simp
qed simp

lemma feed_fields [simp]:
  "builder_lookup_filed_names (fold (feed_one ts s) ids b) = builder_lookup_filed_names b"
  "time_stamp_field_name (fold (feed_one ts s) ids b) = time_stamp_field_name b"
  by (induction ids arbitrary: b) (simp_all add: feed_one_def split: option.splits)

lemma throttler_at_request:
  "throttler_at nms ts_field i c log ok e b \<Longrightarrow>
   throttler_at nms ts_field i c (log @ replicate (count_list ids i) (ts, through)) ok e (fold (feed_one ts (mark_of through)) ids b)"
  using feed_none [of b i ts "mark_of through" ids]
  by (cases c) (auto simp: throttler_at_def client_requests)

lemma throttler_at_flush:
  assumes "throttler_at nms ts_field i c log ok e b" and "\<forall>w n. c = Some (w, n) \<longrightarrow> sorted (w # map fst log)"
  shows "throttler_at nms ts_field i c log (case c of Some (w, n) \<Rightarrow> within w n log | None \<Rightarrow> ok)
    (on_throttle_state_message \<lparr>throttler_states = updated_throttlers b\<rparr> e) (b\<lparr>updated_throttlers := []\<rparr>)"
proof (cases c)
  case None
  then have "map_of (rev (updated_throttlers b)) i = None" using assms(1) by (simp add: throttler_at_def map_of_eq_None_iff)
  then show ?thesis using assms(1) None by (simp add: throttler_at_def on_throttle_state_message_find map_add_def)
next
  case (Some wn)
  then show ?thesis using assms client_flush [of nms ts_field i "fst wn" "snd wn" log ok e b] by (cases wn) (simp add: throttler_at_def)
qed

lemma throttled_by_request:
  "throttled_by nms ts_field conf oks logs e b \<Longrightarrow>
   throttled_by nms ts_field conf oks (\<lambda>i. logs i @ replicate (count_list ids i) (ts, through)) e
    (fold (feed_one ts (mark_of through)) ids b)"
  by (simp add: throttled_by_def throttler_at_request)

lemma throttled_by_flush:
  "throttled_by nms ts_field conf oks logs e b \<Longrightarrow> \<forall>i w n. conf i = Some (w, n) \<longrightarrow> sorted (w # map fst (logs i)) \<Longrightarrow>
   throttled_by nms ts_field conf (\<lambda>i. case conf i of Some (w, n) \<Rightarrow> within w n (logs i) | None \<Rightarrow> oks i) logs
    (on_throttle_state_message \<lparr>throttler_states = updated_throttlers b\<rparr> e) (b\<lparr>updated_throttlers := []\<rparr>)"
  unfolding throttled_by_def by (simp add: throttler_at_flush) (simp add: on_throttle_state_message_def)

section \<open>The gateway refines the machine\<close>

lemma rejected_Cons [simp]: "rejected (((''rejected'', ''in''), m) # out) = m # rejected out"
  by (simp add: rejected_def)

definition posts :: "http_request_message list \<Rightarrow> http_request_message list \<Rightarrow> bool" where
  "posts = list_all2 (\<lambda>p msg. \<exists>host port. p = placed host port msg)"

lemma posts_Cons [simp]: "posts [] []" "posts (placed host port msg # ps) (msg # msgs) \<longleftrightarrow> posts ps msgs"
  by (auto simp: posts_def)

lemma sorted_logged:
  "sorted (w # map fst log @ ts # rest) \<Longrightarrow> sorted (w # map fst (log @ replicate k (ts, ok)) @ rest)"
  by (auto simp: sorted_append)

lemma run_verdicts:
  assumes "acceptable v nms ts_field (requests_of evs) g"
    and "throttled_by nms ts_field conf oks logs (gw_enforcer g) (gw_builder g)"
    and "\<forall>i w n. conf i = Some (w, n) \<longrightarrow> sorted (w # map fst (logs i) @ asked_at (asking_view nms ts_field (passing v evs)))"
  defines "verdicts \<equiv> limiters conf oks logs (asking_view nms ts_field (passing v evs))"
  shows "\<exists>g' out ps. gateway_run rt evs g = Ok (g', out) \<and> posted (gw_dispatcher g') = posted (gw_dispatcher g) @ ps \<and>
    posts ps (let_through (requests_of (passing v evs)) verdicts) \<and> rejected out = rejections v evs verdicts"
  using assms(1-3) unfolding verdicts_def
proof (induction evs arbitrary: g logs oks)
  case Nil
  then show ?case by simp
next
  case (Cons ev evs)
  show ?case
  proof (cases ev)
    case (Request msg)
    note acc = Cons.prems(1) [unfolded Request requests_of.simps]
    show ?thesis
    proof (cases "valid_request msg v")
      case False
      obtain v' where v': "gateway_request rt msg g = Ok (g\<lparr>gw_validator := v'\<rparr>, [((''rejected'', ''in''), msg)])"
        "acceptable v nms ts_field (requests_of evs) (g\<lparr>gw_validator := v'\<rparr>)"
        using refused_step [OF acc False] by blast
      then show ?thesis
        using Cons.IH [of "g\<lparr>gw_validator := v'\<rparr>" oks logs] Cons.prems(2,3) by (auto simp: Request False)
    next
      case True
      have names: "enforcer_lookup_filed_names (gw_enforcer g) = nms" "builder_lookup_filed_names (gw_builder g) = nms"
        "time_stamp_field_name (gw_builder g) = ts_field" using Cons.prems(2) by (simp_all add: throttled_by_def)
      from valid_step [OF acc True this, of rt] obtain ids ts g1 out1 ps1
        where ids: "asks_for nms ts_field ids msg ts" and 1: "gateway_request rt msg g = Ok (g1, out1)"
          "acceptable v nms ts_field (requests_of evs) g1" "gw_enforcer g1 = gw_enforcer g"
          "gw_builder g1 = fold (feed_one ts (mark_of (lets_through (gw_enforcer g) ids))) ids (gw_builder g)"
          "posted (gw_dispatcher g1) = posted (gw_dispatcher g) @ ps1" "goes_through (lets_through (gw_enforcer g) ids) msg ps1 out1"
        by blast
      let ?ok = "list_all oks ids" and ?logs = "\<lambda>i. logs i @ replicate (count_list ids i) (ts, list_all oks ids)"
      have through: "lets_through (gw_enforcer g) ids = ?ok" by (rule throttled_by_lets_through [OF Cons.prems(2)])
      have view: "asking_view nms ts_field (passing v (ev # evs)) = Asks ids ts # asking_view nms ts_field (passing v evs)"
        using asking_view_request [OF ids] by (simp add: Request True)
      have "throttled_by nms ts_field conf oks ?logs (gw_enforcer g1) (gw_builder g1)"
        unfolding 1(3,4) through by (rule throttled_by_request [OF Cons.prems(2)])
      moreover have "\<forall>i w n. conf i = Some (w, n) \<longrightarrow> sorted (w # map fst (?logs i) @ asked_at (asking_view nms ts_field (passing v evs)))"
      proof (intro allI impI)
        fix i w n
        assume "conf i = Some (w, n)"
        then have "sorted (w # map fst (logs i) @ ts # asked_at (asking_view nms ts_field (passing v evs)))"
          using Cons.prems(3) unfolding view by (metis asked_at.simps(2))
        then show "sorted (w # map fst (?logs i) @ asked_at (asking_view nms ts_field (passing v evs)))" by (rule sorted_logged)
      qed
      ultimately obtain g2 out2 ps2 where 2: "gateway_run rt evs g1 = Ok (g2, out2)"
        "posted (gw_dispatcher g2) = posted (gw_dispatcher g1) @ ps2"
        "posts ps2 (let_through (requests_of (passing v evs)) (limiters conf oks ?logs (asking_view nms ts_field (passing v evs))))"
        "rejected out2 = rejections v evs (limiters conf oks ?logs (asking_view nms ts_field (passing v evs)))"
        using Cons.IH [OF 1(2)] by blast
      show ?thesis
        unfolding view using 1(1,5,6) 2 by (auto simp: Request True through goes_through_def)
    qed
  next
    case Flush
    let ?g = "g\<lparr>gw_builder := (gw_builder g)\<lparr>updated_throttlers := []\<rparr>,
      gw_enforcer := on_throttle_state_message \<lparr>throttler_states = updated_throttlers (gw_builder g)\<rparr> (gw_enforcer g)\<rparr>"
    have "acceptable v nms ts_field (requests_of evs) ?g" and w: "wired (gw_stages g)"
      using Cons.prems(1) by (simp_all add: Flush acceptable_def)
    moreover have "throttled_by nms ts_field conf (\<lambda>i. case conf i of Some (w, n) \<Rightarrow> within w n (logs i) | None \<Rightarrow> oks i) logs
        (gw_enforcer ?g) (gw_builder ?g)"
      using throttled_by_flush [OF Cons.prems(2)] Cons.prems(3) by (simp add: sorted_append)
    ultimately show ?thesis
      using Cons.IH [of ?g] Cons.prems(3) by (simp add: Flush flush_step [OF w])
  qed
qed

text \<open>
  The gateway is one limiter. Take the gateway as built, with any lookup fields and any freshly configured sliding
  logs, and any sequence of requests that the validator can judge, the valid ones of which have their lookup fields and come in the order of
  their time stamps, and of flushes. The run never ends the process; what it posts to the dispatcher are, in order, exactly
  the valid requests the abstract machine lets through, each marked as allowed and placed; and what arrives at \<open>rejected\<close>
  are, in order, exactly the others: invalid ones unchanged, refused ones marked as suppressed. A request is refused as soon
  as one of the throttlers it names refuses, and then counts for none of them; ids without a throttler do not limit.
\<close>

theorem gateway_refines_limiters:
  assumes "build_gateway = Ok (gw_stages g)"
    and "\<forall>msg \<in> set (requests_of evs). judgeable msg (gw_validator g)"
    and "\<forall>msg \<in> set (requests_of evs). valid_request msg (gw_validator g) \<longrightarrow>
      (\<exists>ids ts. asks_for nms ts_field ids msg ts) \<and> (\<exists>ep. places (gw_balancer g) msg ep)"
    and "enforcer_lookup_filed_names (gw_enforcer g) = nms" and "builder_lookup_filed_names (gw_builder g) = nms"
    and "time_stamp_field_name (gw_builder g) = ts_field" and "updated_throttlers (gw_builder g) = []"
    and "\<forall>i. umap_find (throttlers (gw_builder g)) i =
      map_option (\<lambda>(w, n). SlidingLogThrottler (new_sliding_log_throttler w n)) (conf i)"
    and "\<forall>i. conf i \<noteq> None \<longrightarrow> umap_find (enforcer_states (gw_enforcer g)) i \<noteq> Some False"
    and "\<forall>i w n. conf i = Some (w, n) \<longrightarrow> sorted (w # asked_at (asking_view nms ts_field (passing (gw_validator g) evs)))"
  defines "verdicts \<equiv> limiters conf (\<lambda>i. umap_find (enforcer_states (gw_enforcer g)) i \<noteq> Some False) (\<lambda>i. [])
    (asking_view nms ts_field (passing (gw_validator g) evs))"
  shows "\<exists>g' out ps. gateway_run rt evs g = Ok (g', out) \<and> posted (gw_dispatcher g') = posted (gw_dispatcher g) @ ps \<and>
    posts ps (let_through (requests_of (passing (gw_validator g) evs)) verdicts) \<and>
    rejected out = rejections (gw_validator g) evs verdicts"
proof -
  have "acceptable (gw_validator g) nms ts_field (requests_of evs) g"
    using assms(2,3) built_gateway_wired [OF assms(1)] by (simp add: acceptable_def)
  from run_verdicts [OF this throttled_by_start [OF assms(4-9)]] show ?thesis
    using assms(10) unfolding verdicts_def by simp
qed

text \<open>
  Two lookup fields, the client and a pool all clients share: the third request of \<open>k1\<close> is refused for its client; it does not count for the
  pool, so the one of \<open>k2\<close>, who has no throttler, passes, and the next is refused for the pool.
\<close>

definition two_limits_gateway :: gateway where
  "two_limits_gateway = example_gateway
     \<lparr>gw_enforcer := new_throttling_enforcer [''route_key_1'', ''route_key_2''],
      gw_builder := (new_throttle_state_builder [''route_key_1'', ''route_key_2''] ''request_time'' 1)
        \<lparr>throttlers := [(''k1'', SlidingLogThrottler (new_sliding_log_throttler 10 1)),
          (''p'', SlidingLogThrottler (new_sliding_log_throttler 10 2))]\<rparr>\<rparr>"

definition two_limits_events :: "gateway_event list" where
  "two_limits_events = [Request (request_at ''k1'' 100), Request (request_at ''k1'' 100), Flush, Request (request_at ''k1'' 101),
     Request (request_at ''k2'' 102), Flush, Request (request_at ''k2'' 103)]"

definition two_limits :: "string \<Rightarrow> (u64 \<times> u64) option" where
  "two_limits = map_of [(''k1'', (10, 1)), (''p'', (10, 2))]"

lemma two_limits_request:
  "asks_for [''route_key_1'', ''route_key_2''] ''request_time'' [client, ''p''] (request_at client ts) ts"
  by (simp add: asks_for_def request_at_fields)

lemma two_limits_view:
  "asking_view [''route_key_1'', ''route_key_2''] ''request_time'' two_limits_events =
     [Asks [''k1'', ''p''] 100, Asks [''k1'', ''p''] 100, Published, Asks [''k1'', ''p''] 101, Asks [''k2'', ''p''] 102, Published,
      Asks [''k2'', ''p''] 103]"
  unfolding two_limits_events_def by (simp only: asking_view_request [OF two_limits_request] asking_view.simps(1,3))

lemma two_limits_verdicts:
  "limiters two_limits (\<lambda>i. True) (\<lambda>i. []) (asking_view [''route_key_1'', ''route_key_2''] ''request_time'' two_limits_events) =
     [True, True, False, True, False]"
  unfolding two_limits_view by (simp add: two_limits_def within_def in_window_def counted_def)

theorem gateway_refines_limiters_witness:
  "\<exists>g' out ps. gateway_run example_runtime two_limits_events two_limits_gateway = Ok (g', out) \<and> posted (gw_dispatcher g') = ps \<and>
     posts ps [request_at ''k1'' 100, request_at ''k1'' 100, request_at ''k2'' 102] \<and>
     rejected out = [marked ''suppressed'' (request_at ''k1'' 101), marked ''suppressed'' (request_at ''k2'' 103)]"
proof -
  let ?g = two_limits_gateway and ?evs = two_limits_events and ?nms = "[''route_key_1'', ''route_key_2'']"
  have parts: "gw_stages ?g = gw_stages example_gateway" "gw_validator ?g = gw_validator example_gateway"
    "gw_balancer ?g = gw_balancer example_gateway" "gw_dispatcher ?g = new_http_dispatcher"
    "gw_enforcer ?g = new_throttling_enforcer ?nms" "enforcer_states (gw_enforcer ?g) = []"
    by (simp_all add: two_limits_gateway_def new_throttling_enforcer_def example_gateway_def)
  have "list_all (\<lambda>msg. \<exists>client ts. msg = request_at client ts) (requests_of ?evs)" by (auto simp: two_limits_events_def)
  note example = example_requests [OF this]
  have "\<forall>msg \<in> set (requests_of ?evs). \<exists>ids ts. asks_for ?nms ''request_time'' ids msg ts"
    using two_limits_request by (auto simp: two_limits_events_def)
  then have accepted: "\<forall>msg \<in> set (requests_of ?evs). valid_request msg (gw_validator ?g) \<longrightarrow>
      (\<exists>ids ts. asks_for ?nms ''request_time'' ids msg ts) \<and> (\<exists>ep. places (gw_balancer ?g) msg ep)"
    using example(3) unfolding parts by blast
  have verdicts: "limiters two_limits (\<lambda>i. umap_find (enforcer_states (gw_enforcer ?g)) i \<noteq> Some False) (\<lambda>i. [])
      (asking_view ?nms ''request_time'' (passing (gw_validator ?g) ?evs)) = [True, True, False, True, False]"
    unfolding parts(2,6) example(1) using two_limits_verdicts by (simp add: umap_find_def)
  have through: "let_through (requests_of ?evs) [True, True, False, True, False] =
      [request_at ''k1'' 100, request_at ''k1'' 100, request_at ''k2'' 102]"
    by (simp add: two_limits_events_def)
  have refused: "rejections (gw_validator ?g) ?evs [True, True, False, True, False] =
      [marked ''suppressed'' (request_at ''k1'' 101), marked ''suppressed'' (request_at ''k2'' 103)]"
    by (simp add: two_limits_events_def parts request_at_judged(2))
  have "\<exists>g' out ps. gateway_run example_runtime ?evs ?g = Ok (g', out) \<and> posted (gw_dispatcher g') = posted (gw_dispatcher ?g) @ ps \<and>
      posts ps (let_through (requests_of (passing (gw_validator ?g) ?evs)) [True, True, False, True, False]) \<and>
      rejected out = rejections (gw_validator ?g) ?evs [True, True, False, True, False]"
    unfolding verdicts [symmetric]
  proof (rule gateway_refines_limiters)
    show "build_gateway = Ok (gw_stages ?g)" unfolding parts by (rule example_gateway_built)
    show "\<forall>msg \<in> set (requests_of ?evs). judgeable msg (gw_validator ?g)" using example(2) unfolding parts by blast
    show "\<forall>i. umap_find (throttlers (gw_builder ?g)) i =
        map_option (\<lambda>(w, n). SlidingLogThrottler (new_sliding_log_throttler w n)) (two_limits i)"
      by (simp add: two_limits_gateway_def umap_find_def two_limits_def)
    show "\<forall>i w n. two_limits i = Some (w, n) \<longrightarrow> sorted (w # asked_at (asking_view ?nms ''request_time'' (passing (gw_validator ?g) ?evs)))"
      unfolding parts example(1) two_limits_view by (auto simp: two_limits_def split: if_splits)
  qed (use accepted in \<open>simp_all add: two_limits_gateway_def new_throttling_enforcer_def new_throttle_state_builder_def umap_find_def\<close>)
  then show ?thesis unfolding parts example(1) through refused [unfolded parts] by (simp add: new_http_dispatcher_def)
qed

end
