(* ===== verification/Throttler_Updates.thy ===== *)
theory Throttler_Updates
  imports Throttle_Loop "HOL-Library.Sublist"
begin

text \<open>
  Throttlers whose window and count are changed while they are in use: when the truncated log still gives the verdict of the
  exact window, and how it errs when it does not; and an abstract machine for the enforcer and the builder whose throttlers
  are added and updated in the middle of a run.
\<close>

section \<open>Updates of a sliding log\<close>

text \<open>The log may be used from \<open>now\<close> on, in place of the counted stamps \<open>h\<close>.\<close>

definition tracks :: "u64 list \<Rightarrow> u64 \<Rightarrow> sliding_log_throttler \<Rightarrow> bool" where
  "tracks h now t \<longleftrightarrow> log_refines h now t \<and> log_ok_at now t \<and> window_duration t \<le> now"

lemma tracks_new: "w \<le> now \<Longrightarrow> tracks [] now (new_sliding_log_throttler w n)"
  by (simp add: tracks_def log_refines_def in_window_def log_ok_at_def new_sliding_log_throttler_def)

lemma tracks_later: "tracks h now t \<Longrightarrow> now \<le> now' \<Longrightarrow> tracks h now' t"
  by (auto simp: tracks_def log_ok_at_def intro: log_refines_later)

lemma tracks_event:
  fixes p :: bool
  assumes "tracks h now t" and "now \<le> ts"
  defines "h' \<equiv> h @ (if p then [ts] else [])"
  shows "tracks h' ts (event_state (ts, p) t)"
    and "is_allowed (event_state (ts, p) t) \<longleftrightarrow>
      length (in_window (window_duration t) ts h') \<le> unat (allowed_request_count t)"
proof -
  have "log_ok_at ts (event_state (ts, p) t)"
    using assms(1,2) sliding.ok_add [of now t ts] sliding.ok_reeval [of now t ts] by (simp add: tracks_def event_state_def)
  then show "tracks h' ts (event_state (ts, p) t)"
    using assms event_step(1) [of h now t ts p] by (auto simp: tracks_def h'_def)
  show "is_allowed (event_state (ts, p) t) \<longleftrightarrow>
      length (in_window (window_duration t) ts h') \<le> unat (allowed_request_count t)"
    using assms event_step(2) [of h now t ts p] by (auto simp: tracks_def h'_def)
qed

definition update_throttler :: "u64 \<Rightarrow> u64 \<Rightarrow> sliding_log_throttler \<Rightarrow> sliding_log_throttler" where
  "update_throttler w n t = set_window_duration w (set_allowed_request_count n t)"

lemma update_throttler_fields [simp]:
  "window_duration (update_throttler w n t) = w" "allowed_request_count (update_throttler w n t) = n"
  "request_time_stamp_log (update_throttler w n t) = request_time_stamp_log t"
  by (simp_all add: update_throttler_def set_window_duration_def set_allowed_request_count_def)

lemma in_window_narrower:
  assumes "w \<le> w'" and "w' \<le> now"
  shows "in_window w now (in_window w' now h) = in_window w now h"
proof -
  have "now - w' \<le> now - w" using assms by (simp add: word_le_nat_alt unat_sub order.trans)
  then have "(now - w' \<le> x \<and> now - w \<le> x) = (now - w \<le> x)" for x by auto
  then show ?thesis by (simp add: in_window_def)
qed

text \<open>A window that does not grow needs nothing the log has lost.\<close>

lemma tracks_update:
  assumes "tracks h now t" and "w \<le> window_duration t"
  shows "tracks h now (update_throttler w n t)"
proof -
  have "window_duration t \<le> now" "in_window (window_duration t) now (request_time_stamp_log t) = in_window (window_duration t) now h"
    using assms(1) by (simp_all add: tracks_def log_refines_def)
  then have "in_window w now (request_time_stamp_log t) = in_window w now h"
    using in_window_narrower [OF assms(2)] by metis
  then show ?thesis using assms by (auto simp: tracks_def log_refines_def log_ok_at_def)
qed

text \<open>Whatever is done, the log holds counted stamps only, each at most as often as it was counted.\<close>

lemma subseq_truncated: "subseq (request_time_stamp_log (truncate_log ts t)) (request_time_stamp_log t)"
  by (simp add: truncate_log_def suffix_drop suffix_imp_subseq)

lemma subseq_event:
  assumes "subseq (request_time_stamp_log t) h"
  shows "subseq (request_time_stamp_log (event_state (ts, p) t)) (h @ (if p then [ts] else []))"
proof -
  obtain t' where t': "t' = t\<lparr>request_time_stamp_log := request_time_stamp_log t @ (if p then [ts] else [])\<rparr>"
    and ev: "event_state (ts, p) t = (if unat (allowed_request_count t) \<le> length (request_time_stamp_log t')
      then truncate_log ts t' else t')"
    using event_state_cases by blast
  have log: "subseq (request_time_stamp_log t') (h @ (if p then [ts] else []))" using assms by (simp add: t')
  have "subseq (request_time_stamp_log (truncate_log ts t')) (h @ (if p then [ts] else []))"
    by (rule subseq_order.trans [OF subseq_truncated log])
  then show ?thesis unfolding ev using log by (rule if_split [THEN iffD2, OF conjI, OF impI impI])
qed

lemma lenient_event:
  assumes "subseq (request_time_stamp_log t) h" and "log_ok_at now t" and "now \<le> ts"
    and "length (in_window (window_duration t) ts (h @ (if p then [ts] else []))) \<le> unat (allowed_request_count t)"
  shows "is_allowed (event_state (ts, p) t)"
proof -
  obtain t' where t': "t' = t\<lparr>request_time_stamp_log := request_time_stamp_log t @ (if p then [ts] else [])\<rparr>"
    and ev: "event_state (ts, p) t = (if unat (allowed_request_count t) \<le> length (request_time_stamp_log t')
      then truncate_log ts t' else t')"
    using event_state_cases by blast
  have "sorted (request_time_stamp_log t')" using assms(2,3) by (auto simp: t' log_ok_at_def sorted_append)
  moreover have "subseq (request_time_stamp_log t') (h @ (if p then [ts] else []))"
    using assms(1) by (simp add: t')
  then have "length (in_window (window_duration t) ts (request_time_stamp_log t')) \<le>
      length (in_window (window_duration t) ts (h @ (if p then [ts] else [])))"
    unfolding in_window_def by (rule list_emb_length [OF subseq_filter])
  ultimately show ?thesis
    using assms(4) by (auto simp: ev is_allowed_def truncate_log_sorted in_window_def t')
qed

section \<open>A throttler that is fed and updated\<close>

datatype throttler_use = Fed u64 bool | Updated u64 u64

fun use_throttler :: "throttler_use \<Rightarrow> sliding_log_throttler \<Rightarrow> sliding_log_throttler" where
  "use_throttler (Fed ts p) t = event_state (ts, p) t"
| "use_throttler (Updated w n) t = update_throttler w n t"

fun fed_stamps :: "throttler_use list \<Rightarrow> u64 list" where
  "fed_stamps [] = []"
| "fed_stamps (Fed ts p # us) = ts # fed_stamps us"
| "fed_stamps (Updated w n # us) = fed_stamps us"

fun counted_uses :: "throttler_use list \<Rightarrow> u64 list" where
  "counted_uses [] = []"
| "counted_uses (Fed ts p # us) = (if p then [ts] else []) @ counted_uses us"
| "counted_uses (Updated w n # us) = counted_uses us"

text \<open>No update enlarges the window \<open>w\<close> that is set.\<close>

fun narrowing :: "u64 \<Rightarrow> throttler_use list \<Rightarrow> bool" where
  "narrowing w [] = True"
| "narrowing w (Fed ts p # us) = narrowing w us"
| "narrowing w (Updated w' n # us) = (w' \<le> w \<and> narrowing w' us)"

lemma narrowing_tracks:
  "tracks h now t \<Longrightarrow> sorted (now # fed_stamps us) \<Longrightarrow> narrowing (window_duration t) us \<Longrightarrow>
   tracks (h @ counted_uses us) (last (now # fed_stamps us)) (fold use_throttler us t)"
proof (induction us arbitrary: h now t)
  case (Cons u us)
  show ?case
  proof (cases u)
    case (Fed ts p)
    then show ?thesis
      using Cons.IH [of "h @ (if p then [ts] else [])" ts "event_state (ts, p) t"] Cons.prems tracks_event(1) [of h now t ts p] by auto
  next
    case (Updated w n)
    then show ?thesis
      using Cons.IH [of h now "update_throttler w n t"] Cons.prems tracks_update [of h now t w n] by auto
  qed
qed simp

lemma uses_subseq:
  "subseq (request_time_stamp_log t) h \<Longrightarrow> log_ok_at now t \<Longrightarrow> sorted (now # fed_stamps us) \<Longrightarrow>
   subseq (request_time_stamp_log (fold use_throttler us t)) (h @ counted_uses us) \<and>
   log_ok_at (last (now # fed_stamps us)) (fold use_throttler us t)"
proof (induction us arbitrary: h now t)
  case (Cons u us)
  show ?case
  proof (cases u)
    case (Fed ts p)
    have "log_ok_at ts (event_state (ts, p) t)"
      using Cons.prems sliding.ok_add [of now t ts] sliding.ok_reeval [of now t ts] by (auto simp: Fed event_state_def)
    then show ?thesis
      using Cons.IH [OF subseq_event [OF Cons.prems(1)], of ts ts p] Cons.prems(3) by (simp add: Fed)
  next
    case (Updated w n)
    have "log_ok_at now (update_throttler w n t)" using Cons.prems(2) by (simp add: log_ok_at_def)
    then show ?thesis using Cons.IH [of "update_throttler w n t" h now] Cons.prems by (simp add: Updated)
  qed
qed simp

text \<open>
  C39: A throttler that is updated in use errs to the lenient side only, and not at all unless its window grows. Feed a fresh throttler
  requests, counted and suppressed, with time stamps that do not decrease, change its window and its count in between in any way, and feed it
  one more request. If at most as many counted requests as it now allows lie in the window it now has, it allows. The converse holds if no update
  enlarged the window; an enlarged window reaches back to requests the log has already lost.
\<close>

theorem updated_throttler_verdict:
  fixes p :: bool and n :: u64
  assumes "sorted (start # fed_stamps us @ [ts])" and "w \<le> start"
  defines "t \<equiv> fold use_throttler us (new_sliding_log_throttler w n)"
  defines "h \<equiv> counted_uses us @ (if p then [ts] else [])"
  shows "(length (in_window (window_duration t) ts h) \<le> unat (allowed_request_count t) \<longrightarrow> is_allowed (event_state (ts, p) t)) \<and>
    (narrowing w us \<longrightarrow> is_allowed (event_state (ts, p) t) \<longrightarrow>
       length (in_window (window_duration t) ts h) \<le> unat (allowed_request_count t))"
proof -
  let ?new = "new_sliding_log_throttler w n" and ?now = "last (start # fed_stamps us)"
  have srt: "sorted (start # fed_stamps us)" and later: "?now \<le> ts" using assms(1) by (auto simp: sorted_append)
  have "subseq (request_time_stamp_log t) (counted_uses us) \<and> log_ok_at ?now t"
    using uses_subseq [of ?new "[]" start us] srt by (simp add: t_def new_sliding_log_throttler_def log_ok_at_def)
  then have lenient: "length (in_window (window_duration t) ts h) \<le> unat (allowed_request_count t) \<Longrightarrow> is_allowed (event_state (ts, p) t)"
    using lenient_event [of t "counted_uses us" ?now ts p] later by (simp add: h_def)
  have "tracks (counted_uses us) ?now t" if "narrowing w us"
    using narrowing_tracks [OF tracks_new [OF assms(2)] srt] that by (simp add: t_def new_sliding_log_throttler_def)
  then show ?thesis using lenient tracks_event(2) [of "counted_uses us" ?now t ts p] later by (simp add: h_def)
qed

text \<open>Three requests lie in the enlarged window, one more than is allowed, but the first was lost.\<close>

theorem updated_throttler_verdict_witness:
  "is_allowed (event_state (121, True) (fold use_throttler [Fed 100 True, Fed 120 True, Updated 5 2] (new_sliding_log_throttler 10 2))) \<longleftrightarrow>
     length (in_window 5 121 [100, 120, 121]) \<le> unat (2 :: u64)"
  using updated_throttler_verdict [of 50 "[Fed 100 True, Fed 120 True, Updated 5 2]" 121 10 2 True]
  by (auto simp: new_sliding_log_throttler_def)

lemma enlarged_window_forgets:
  "is_allowed (event_state (121, True) (fold use_throttler [Fed 100 True, Fed 120 True, Updated 40 2] (new_sliding_log_throttler 10 2)))"
  "length (in_window 40 121 [100, 120, 121]) = 3"
  by code_simp+

end
