(* ===== verification/Limit_Machine.thy ===== *)
theory Limit_Machine
  imports Throttler_Updates
begin

text \<open>
  What the enforcer and the state builder compute together, as a machine over ids: who is limited how, the verdicts the enforcer
  knows, those the builder has not published yet, and the requests that named each id. Requests have any number of ids;
  throttlers are installed and changed at any time. The two stages are related to it id by id.
\<close>

section \<open>The machine\<close>

record limit_state =
  limits :: "string \<Rightarrow> (u64 \<times> u64) option"
  known :: "string \<Rightarrow> bool"
  unpublished :: "string \<Rightarrow> bool option"
  requests :: "string \<Rightarrow> (u64 \<times> bool) list"

datatype limit_event = Asked "string list" u64 | Published | Installed string u64 u64 | Changed string u64 u64

definition admitted :: "limit_state \<Rightarrow> string list \<Rightarrow> bool" where
  "admitted s ids = list_all (known s) ids"

text \<open>
  A request is decided by the verdicts known, logged with every id it has, and gives each of them that is limited a new verdict. An
  id that is installed starts with no requests; a change keeps them, and gives no verdict.
\<close>

fun limit_step :: "limit_event \<Rightarrow> limit_state \<Rightarrow> limit_state" where
  "limit_step (Asked ids ts) s =
     (let log = (\<lambda>i. requests s i @ replicate (count_list ids i) (ts, admitted s ids)) in
      s\<lparr>requests := log,
        unpublished := (\<lambda>i. case limits s i of
            Some (w, n) \<Rightarrow> if i \<in> set ids then Some (within w n (log i)) else unpublished s i
          | None \<Rightarrow> unpublished s i)\<rparr>)"
| "limit_step Published s =
     s\<lparr>known := (\<lambda>i. case unpublished s i of Some ok \<Rightarrow> ok | None \<Rightarrow> known s i), unpublished := (\<lambda>i. None)\<rparr>"
| "limit_step (Installed i w n) s =
     (if limits s i = None then s\<lparr>limits := (limits s)(i := Some (w, n)), requests := (requests s)(i := [])\<rparr> else s)"
| "limit_step (Changed i w n) s = (if limits s i = None then s else s\<lparr>limits := (limits s)(i := Some (w, n))\<rparr>)"

text \<open>The effect of a configuration message, and what it answers.\<close>

definition config_events :: "throttler_config_message \<Rightarrow> limit_event list" where
  "config_events m =
     (if cfg_type m \<noteq> ''sliding_log'' then []
      else if cfg_class m = AddThrottlerConfigMessage_class then [Installed (cfg_id m) (cfg_time_window m) (cfg_allowed_count m)]
      else if cfg_class m = UpdateThrottlerConfigMessage_class then [Changed (cfg_id m) (cfg_time_window m) (cfg_allowed_count m)]
      else [])"

definition config_answer :: "throttler_config_message \<Rightarrow> limit_state \<Rightarrow> promise" where
  "config_answer m s =
     (if cfg_class m = AddThrottlerConfigMessage_class
      then (if cfg_type m = ''sliding_log'' \<and> limits s (cfg_id m) \<noteq> None then Has_exception (ThrottlerIdExistException (cfg_id m))
            else if cfg_type m = ''fixed_window'' then Has_exception (InvalidThrottleTypeException (cfg_id m) (cfg_type m))
            else Has_value)
      else if cfg_class m = UpdateThrottlerConfigMessage_class
      then (if cfg_type m = ''sliding_log'' \<and> limits s (cfg_id m) = None then Has_exception (ThrottlerDoesNotExistException (cfg_id m))
            else if cfg_type m \<in> {''sliding_window'', ''fixed_window''}
            then Has_exception (InvalidThrottleTypeException (cfg_id m) (cfg_type m)) else Has_value)
      else Has_exception (Runtime_error ''Unknown message type''))"

section \<open>The two stages\<close>

text \<open>An id in the enforcer and the builder, at the time \<open>now\<close>.\<close>

definition limit_at ::
  "string \<Rightarrow> (u64 \<times> u64) option \<Rightarrow> bool \<Rightarrow> bool option \<Rightarrow> (u64 \<times> bool) list \<Rightarrow> u64
     \<Rightarrow> throttling_enforcer \<Rightarrow> throttle_state_builder \<Rightarrow> bool"
where
  "limit_at i c ok unp log now e b \<longleftrightarrow>
     (umap_find (enforcer_states e) i \<noteq> Some False) = ok \<and> map_of (rev (updated_throttlers b)) i = unp \<and>
     (case c of
        Some (w, n) \<Rightarrow> (\<exists>t. umap_find (throttlers b) i = Some (SlidingLogThrottler t) \<and>
          window_duration t = w \<and> allowed_request_count t = n \<and> tracks (counted log) now t)
      | None \<Rightarrow> umap_find (throttlers b) i = None)"

definition limits_at :: "string list \<Rightarrow> string \<Rightarrow> limit_state \<Rightarrow> u64 \<Rightarrow> throttling_enforcer \<Rightarrow> throttle_state_builder \<Rightarrow> bool" where
  "limits_at nms ts_field s now e b \<longleftrightarrow>
     enforcer_lookup_filed_names e = nms \<and> builder_lookup_filed_names b = nms \<and> time_stamp_field_name b = ts_field \<and>
     (\<forall>i. limit_at i (limits s i) (known s i) (unpublished s i) (requests s i) now e b)"

text \<open>Two stages as they are before any request: freshly configured throttlers, and any verdicts known.\<close>

definition limits_start :: "(string \<Rightarrow> (u64 \<times> u64) option) \<Rightarrow> throttling_enforcer \<Rightarrow> limit_state" where
  "limits_start conf e = \<lparr>limits = conf, known = (\<lambda>i. umap_find (enforcer_states e) i \<noteq> Some False),
     unpublished = (\<lambda>i. None), requests = (\<lambda>i. [])\<rparr>"

lemma limits_at_start:
  assumes "enforcer_lookup_filed_names e = nms" and "builder_lookup_filed_names b = nms"
    and "time_stamp_field_name b = ts_field" and "updated_throttlers b = []"
    and "\<forall>i. umap_find (throttlers b) i = map_option (\<lambda>(w, n). SlidingLogThrottler (new_sliding_log_throttler w n)) (conf i)"
    and "\<forall>i w n. conf i = Some (w, n) \<longrightarrow> w \<le> now"
  shows "limits_at nms ts_field (limits_start conf e) now e b"
proof -
  have "limit_at i (conf i) (umap_find (enforcer_states e) i \<noteq> Some False) None [] now e b" for i
  proof (cases "conf i")
    case None
    then show ?thesis using assms(4,5) by (simp add: limit_at_def)
  next
    case (Some wn)
    obtain w n where wn: "wn = (w, n)" by (cases wn)
    have "umap_find (throttlers b) i = Some (SlidingLogThrottler (new_sliding_log_throttler w n))" "w \<le> now"
      using assms(5,6) by (simp_all add: Some wn) (metis Some wn)
    then show ?thesis
      using assms(4) tracks_new [of w now n] by (auto simp: limit_at_def Some wn counted_def new_sliding_log_throttler_def)
  qed
  then show ?thesis using assms(1-3) by (simp add: limits_at_def limits_start_def)
qed

lemma limits_at_lets_through: "limits_at nms ts_field s now e b \<Longrightarrow> lets_through e ids = admitted s ids"
proof -
  assume "limits_at nms ts_field s now e b"
  then have "known s = (\<lambda>i. umap_find (enforcer_states e) i \<noteq> Some False)" by (auto simp: limits_at_def limit_at_def fun_eq_iff)
  then show ?thesis by (simp add: lets_through_def admitted_def)
qed

text \<open>Time passes without requests.\<close>

lemma limit_at_later: "limit_at i c ok unp log now e b \<Longrightarrow> now \<le> now' \<Longrightarrow> limit_at i c ok unp log now' e b"
  by (auto simp: limit_at_def split: option.splits intro: tracks_later)

subsection \<open>Requests\<close>

lemma within_snoc: "within w n (log @ [(ts, p)]) \<longleftrightarrow> length (in_window w ts (counted log @ (if p then [ts] else []))) \<le> unat n"
  by (simp add: within_def counted_snoc)

lemma feed_one_at:
  assumes "limit_at i c ok unp log now e b" and "now \<le> ts"
  shows "limit_at i c ok
    (case c of Some (w, n) \<Rightarrow> if j = i then Some (within w n (log @ [(ts, p)])) else unp | None \<Rightarrow> unp)
    (if j = i then log @ [(ts, p)] else log) ts e (feed_one ts (mark_of p) j b)"
proof (cases "j = i")
  case False
  have "umap_find (throttlers (feed_one ts (mark_of p) j b)) i = umap_find (throttlers b) i"
    "map_of (rev (updated_throttlers (feed_one ts (mark_of p) j b))) i = map_of (rev (updated_throttlers b)) i"
    using False by (simp_all add: feed_one_def um.find_assign split: option.splits)
  then show ?thesis
    using limit_at_later [OF assms] False by (cases c) (auto simp: limit_at_def)
next
  case True
  show ?thesis
  proof (cases c)
    case None
    then show ?thesis using assms(1) True by (simp add: limit_at_def feed_one_def)
  next
    case (Some wn)
    obtain w n where wn: "wn = (w, n)" by (cases wn)
    obtain t where t: "umap_find (throttlers b) i = Some (SlidingLogThrottler t)" "window_duration t = w"
      "allowed_request_count t = n" "tracks (counted log) now t"
      using assms(1) by (auto simp: limit_at_def Some wn)
    have th: "throttler_event ts (mark_of p) (SlidingLogThrottler t) = SlidingLogThrottler (event_state (ts, p) t)"
      by (simp add: throttler_event_def mark_of_def event_state_def)
    show ?thesis
      using assms(1) t tracks_event [OF t(4) assms(2), of p] True
      by (auto simp: limit_at_def Some wn feed_one_def th um.find_assign within_snoc counted_snoc)
  qed
qed

lemma feed_ids_at:
  "limit_at i c ok unp log now e b \<Longrightarrow> now \<le> ts \<Longrightarrow>
   limit_at i c ok
     (case c of Some (w, n) \<Rightarrow> if i \<in> set ids then Some (within w n (log @ replicate (count_list ids i) (ts, p))) else unp | None \<Rightarrow> unp)
     (log @ replicate (count_list ids i) (ts, p)) ts e (fold (feed_one ts (mark_of p)) ids b)"
proof (induction ids arbitrary: b log unp now)
  case Nil
  then show ?case using limit_at_later by (cases c) auto
next
  case (Cons j ids)
  note step = Cons.IH [OF feed_one_at [OF Cons.prems, of j p] order.refl]
  show ?case
  proof (cases "i \<in> set ids")
    case True
    then show ?thesis using step by (cases c) (auto split: if_splits)
  next
    case False
    then have "count_list ids i = 0" by (simp add: count_list_0_iff)
    then show ?thesis using step False by (cases c) (auto split: if_splits)
  qed
qed

lemma feed_names [simp]:
  "builder_lookup_filed_names (fold (feed_one ts st) ids b) = builder_lookup_filed_names b"
  "time_stamp_field_name (fold (feed_one ts st) ids b) = time_stamp_field_name b"
  by (induction ids arbitrary: b) (simp_all add: feed_one_def split: option.splits)

lemma limits_at_request:
  assumes "limits_at nms ts_field s now e b" and "now \<le> ts"
  shows "limits_at nms ts_field (limit_step (Asked ids ts) s) ts e (fold (feed_one ts (mark_of (admitted s ids))) ids b)"
proof -
  have "limit_at i (limits s i) (known s i)
      (case limits s i of Some (w, n) \<Rightarrow> if i \<in> set ids
         then Some (within w n (requests s i @ replicate (count_list ids i) (ts, admitted s ids))) else unpublished s i
       | None \<Rightarrow> unpublished s i)
      (requests s i @ replicate (count_list ids i) (ts, admitted s ids)) ts e (fold (feed_one ts (mark_of (admitted s ids))) ids b)" for i
    using assms by (intro feed_ids_at [where now = now]) (simp_all add: limits_at_def)
  then show ?thesis using assms(1) by (simp add: limits_at_def Let_def)
qed

subsection \<open>Flushes and configuration\<close>

lemma limits_at_flush:
  assumes "limits_at nms ts_field s now e b"
  shows "limits_at nms ts_field (limit_step Published s) now
    (on_throttle_state_message \<lparr>throttler_states = updated_throttlers b\<rparr> e) (b\<lparr>updated_throttlers := []\<rparr>)"
proof -
  let ?e = "on_throttle_state_message \<lparr>throttler_states = updated_throttlers b\<rparr> e"
  have "limit_at i c (case unp of Some v \<Rightarrow> v | None \<Rightarrow> ok) None log now ?e (b\<lparr>updated_throttlers := []\<rparr>)"
    if "limit_at i c ok unp log now e b" for i c ok unp log
    using that by (cases c) (auto simp: limit_at_def on_throttle_state_message_find map_add_def split: option.splits)
  moreover have "enforcer_lookup_filed_names ?e = enforcer_lookup_filed_names e" by (simp add: on_throttle_state_message_def)
  ultimately show ?thesis using assms by (simp add: limits_at_def)
qed

text \<open>A configuration message acts as its events, if it does not enlarge a window.\<close>

definition narrows :: "(string \<Rightarrow> (u64 \<times> u64) option) \<Rightarrow> limit_event \<Rightarrow> bool" where
  "narrows conf ev = (case ev of
       Changed i w n \<Rightarrow> (case conf i of Some (w', n') \<Rightarrow> w \<le> w' | None \<Rightarrow> True)
     | _ \<Rightarrow> True)"

lemma limits_at_install:
  assumes "limits_at nms ts_field s now e b" and "limits s i = None" and "w \<le> now"
    and "umap_find (throttlers b') = (umap_find (throttlers b))(i \<mapsto> SlidingLogThrottler (new_sliding_log_throttler w n))"
    and "builder_lookup_filed_names b' = builder_lookup_filed_names b" and "time_stamp_field_name b' = time_stamp_field_name b"
    and "updated_throttlers b' = updated_throttlers b"
  shows "limits_at nms ts_field (limit_step (Installed i w n) s) now e b'"
proof -
  have "limit_at i (Some (w, n)) ok unp [] now e b'" if "limit_at i c ok unp log now e b" for c ok unp log
    using that tracks_new [OF assms(3), of n] assms(4,7) by (simp add: limit_at_def counted_def new_sliding_log_throttler_def)
  moreover have "limit_at j c ok unp log now e b'" if "limit_at j c ok unp log now e b" "j \<noteq> i" for j c ok unp log
    using that assms(4,7) by (cases c) (auto simp: limit_at_def)
  ultimately show ?thesis using assms(1,2,5,6) unfolding limits_at_def by simp blast
qed

lemma limits_at_change:
  assumes "limits_at nms ts_field s now e b" and "limits s i = Some (w', n')" and "w \<le> w'"
    and "umap_find (throttlers b) i = Some (SlidingLogThrottler t)"
    and "umap_find (throttlers b') = (umap_find (throttlers b))(i \<mapsto> SlidingLogThrottler (update_throttler w n t))"
    and "builder_lookup_filed_names b' = builder_lookup_filed_names b" and "time_stamp_field_name b' = time_stamp_field_name b"
    and "updated_throttlers b' = updated_throttlers b"
  shows "limits_at nms ts_field (limit_step (Changed i w n) s) now e b'"
proof -
  have "limit_at i (Some (w, n)) ok unp log now e b'" if "limit_at i (Some (w', n')) ok unp log now e b" for ok unp log
    using that assms(3-5,8) tracks_update [of "counted log" now t w n] by (auto simp: limit_at_def)
  moreover have "limit_at j c ok unp log now e b'" if "limit_at j c ok unp log now e b" "j \<noteq> i" for j c ok unp log
    using that assms(5,8) by (cases c) (auto simp: limit_at_def)
  ultimately show ?thesis using assms(1,2,6,7) by (auto simp: limits_at_def) metis
qed

lemma limits_at_found:
  "limits_at nms ts_field s now e b \<Longrightarrow>
   (case limits s i of None \<Rightarrow> umap_find (throttlers b) i = None | Some c \<Rightarrow> \<exists>t. umap_find (throttlers b) i = Some (SlidingLogThrottler t))"
  by (cases "limits s i") (auto simp: limits_at_def limit_at_def dest!: spec [of _ i])

lemma limits_at_config:
  assumes "limits_at nms ts_field s now e b" and "cfg_time_window m \<le> now" and "list_all (narrows (limits s)) (config_events m)"
  shows "\<exists>b'. builder_on_config_message m Pending b = Ok (b', config_answer m s) \<and>
    limits_at nms ts_field (fold limit_step (config_events m) s) now e b'"
proof -
  let ?i = "cfg_id m" and ?w = "cfg_time_window m" and ?n = "cfg_allowed_count m"
  note found = limits_at_found [OF assms(1), of ?i]
  consider (add) "cfg_class m = AddThrottlerConfigMessage_class" "cfg_type m = ''sliding_log''" "limits s ?i = None"
    | (change) w' n' where "cfg_class m = UpdateThrottlerConfigMessage_class" "cfg_type m = ''sliding_log''" "limits s ?i = Some (w', n')"
    | (nothing) "\<not> (cfg_class m = AddThrottlerConfigMessage_class \<and> cfg_type m = ''sliding_log'' \<and> limits s ?i = None)"
      "\<not> (cfg_class m = UpdateThrottlerConfigMessage_class \<and> cfg_type m = ''sliding_log'' \<and> limits s ?i \<noteq> None)"
    by fastforce
  then show ?thesis
  proof cases
    case add
    define b' where "b' = b\<lparr>throttlers := fst (umap_try_emplace ?i (SlidingLogThrottler (new_sliding_log_throttler ?w ?n)) (throttlers b))\<rparr>"
    have none: "umap_find (throttlers b) ?i = None" using found by (simp add: add(3))
    have "builder_on_config_message m Pending b = Ok (b', config_answer m s)"
      using add none by (simp add: builder_on_config_message_def on_add_throttler_def umap_emplace_new b'_def config_answer_def)
    moreover have "limits_at nms ts_field (limit_step (Installed ?i ?w ?n) s) now e b'"
      by (rule limits_at_install [OF assms(1) add(3) assms(2)]) (simp_all add: b'_def um.find_emplace none fun_eq_iff)
    ultimately show ?thesis using add(1,2) by (simp add: config_events_def)
  next
    case change
    obtain t where t: "umap_find (throttlers b) ?i = Some (SlidingLogThrottler t)"
      using found by (auto simp: change(3))
    define b' where "b' = b\<lparr>throttlers := umap_insert_or_assign ?i (SlidingLogThrottler (update_throttler ?w ?n t)) (throttlers b)\<rparr>"
    have "builder_on_config_message m Pending b = Ok (b', config_answer m s)"
      using change t by (simp add: builder_on_config_message_def on_update_throttler_def b'_def config_answer_def update_throttler_def)
    moreover have "?w \<le> w'" using assms(3) change by (simp add: config_events_def narrows_def)
    then have "limits_at nms ts_field (limit_step (Changed ?i ?w ?n) s) now e b'"
      by (rule limits_at_change [OF assms(1) change(3) _ t]) (simp_all add: b'_def um.find_assign fun_eq_iff)
    ultimately show ?thesis using change(1,2) by (simp add: config_events_def)
  next
    case nothing
    note other = this
    then have "fold limit_step (config_events m) s = s" by (auto simp: config_events_def)
    moreover have "builder_on_config_message m Pending b = Ok (b, config_answer m s)"
    proof (cases "limits s ?i")
      case None
      then have "umap_find (throttlers b) ?i = None" using found by simp
      moreover have "cfg_class m = AddThrottlerConfigMessage_class \<Longrightarrow> cfg_type m = ''sliding_log'' \<Longrightarrow> False"
        using other(1) None by blast
      ultimately show ?thesis using None
        by (cases "cfg_class m = AddThrottlerConfigMessage_class"; cases "cfg_class m = UpdateThrottlerConfigMessage_class";
            cases "cfg_type m = ''sliding_log''")
          (simp_all add: builder_on_config_message_def on_add_throttler_def on_update_throttler_def config_answer_def)
    next
      case (Some c)
      then obtain t where "umap_find (throttlers b) ?i = Some (SlidingLogThrottler t)" using found by auto
      then show ?thesis
        using other Some by (auto simp: builder_on_config_message_def on_add_throttler_def on_update_throttler_def config_answer_def
            umap_try_emplace_def)
    qed
    ultimately show ?thesis using assms(1) by auto
  qed
qed

end
