(* ===== verification/Abstract_Gateway.thy ===== *)
theory Abstract_Gateway
  imports Gateway_Limits Limit_Machine Dispatcher_Losses
begin

text \<open>
  The gateway as a system: requests, flushes, configuration messages and events of the dispatcher's loop in any order; and
  the abstract gateway it refines, which is a limit machine and one rotating index for each pool of end points.
\<close>

section \<open>Runs of the system\<close>

text \<open>
  Handlers of the stages run one at a time; the event loop of the dispatcher runs between them. What leaves the system: messages at
  sinks outside, what the dispatcher answers or drops, and the promises of configuration messages.
\<close>

datatype system_event =
    Arrival http_request_message
  | Flushing
  | Configuring throttler_config_message
  | Dispatching loop_event

datatype system_out =
    Outside "sink_ref \<times> http_request_message"
  | Dispatched dispatcher_out
  | Resolved promise

fun system_step :: "cxx_runtime \<Rightarrow> http_response_message \<Rightarrow> system_event \<Rightarrow> gateway \<Rightarrow> (gateway \<times> system_out list) cxx" where
  "system_step rt created (Arrival msg) g = and_then (gateway_request rt msg g) (\<lambda>(g', out). Ok (g', map Outside out))"
| "system_step rt created Flushing g = and_then (gateway_flush g) (\<lambda>g'. Ok (g', []))"
| "system_step rt created (Configuring m) g =
     and_then (builder_on_config_message m Pending (gw_builder g)) (\<lambda>(b, p). Ok (g\<lparr>gw_builder := b\<rparr>, [Resolved p]))"
| "system_step rt created (Dispatching ev) g =
     and_then (loop_step created ev (gw_dispatcher g)) (\<lambda>(d, out). Ok (g\<lparr>gw_dispatcher := d\<rparr>, map Dispatched out))"

fun system_run :: "cxx_runtime \<Rightarrow> http_response_message \<Rightarrow> system_event list \<Rightarrow> gateway \<Rightarrow> (gateway \<times> system_out list) cxx" where
  "system_run rt created [] g = Ok (g, [])"
| "system_run rt created (ev # evs) g =
     and_then (system_step rt created ev g) (\<lambda>(g1, out1).
       and_then (system_run rt created evs g1) (\<lambda>(g2, out2). Ok (g2, out1 @ out2)))"

definition rejected_of :: "system_out list \<Rightarrow> http_request_message list" where
  "rejected_of outs = rejected (List.map_filter (\<lambda>out. case out of Outside m \<Rightarrow> Some m | _ \<Rightarrow> None) outs)"

definition dispatched_of :: "system_out list \<Rightarrow> dispatcher_out list" where
  "dispatched_of outs = List.map_filter (\<lambda>out. case out of Dispatched m \<Rightarrow> Some m | _ \<Rightarrow> None) outs"

definition resolved_of :: "system_out list \<Rightarrow> promise list" where
  "resolved_of outs = List.map_filter (\<lambda>out. case out of Resolved p \<Rightarrow> Some p | _ \<Rightarrow> None) outs"

lemma map_filter_parts:
  "List.map_filter f (xs @ ys) = List.map_filter f xs @ List.map_filter f ys"
  "List.map_filter f (map h ws) = List.map_filter (\<lambda>x. f (h x)) ws"
  "List.map_filter Some zs = zs" "List.map_filter (\<lambda>x. None) us = []"
  by (simp_all add: List.map_filter_def filter_map o_def split: option.splits)

lemma outs_simps [simp]:
  "rejected_of (a @ b) = rejected_of a @ rejected_of b" "rejected_of [] = []" "rejected_of (map Outside out) = rejected out"
  "rejected_of [Resolved p] = []" "rejected_of (map Dispatched out') = []"
  "dispatched_of (a @ b) = dispatched_of a @ dispatched_of b" "dispatched_of [] = []" "dispatched_of (map Outside out) = []"
  "dispatched_of [Resolved p] = []" "dispatched_of (map Dispatched out') = out'"
  "resolved_of (a @ b) = resolved_of a @ resolved_of b" "resolved_of [] = []" "resolved_of (map Outside out) = []"
  "resolved_of [Resolved p] = [p]" "resolved_of (map Dispatched out') = []"
  by (simp_all add: rejected_of_def dispatched_of_def resolved_of_def map_filter_parts)

lemma outs_Cons [simp]:
  "rejected_of (Outside m # outs) = rejected [m] @ rejected_of outs" "resolved_of (Outside m # outs) = resolved_of outs"
  "dispatched_of (Outside m # outs) = dispatched_of outs"
  "rejected_of (Resolved p # outs) = rejected_of outs" "resolved_of (Resolved p # outs) = p # resolved_of outs"
  "dispatched_of (Resolved p # outs) = dispatched_of outs"
  by (simp_all add: rejected_of_def dispatched_of_def resolved_of_def map_filter_parts rejected_def)

section \<open>The abstract gateway\<close>

text \<open>What it does in the end: a request is submitted to the dispatcher or rejected.\<close>

datatype plan_item =
    Submits http_request_message
  | Rejects http_request_message
  | Resolves promise
  | Runs loop_event

text \<open>The ids and the time stamp of a request, and the key of its pool.\<close>

definition ids_of :: "string list \<Rightarrow> http_request_message \<Rightarrow> string list" where
  "ids_of nms msg = List.map_filter (lookup_id msg) nms"

definition time_of :: "string \<Rightarrow> http_request_message \<Rightarrow> u64" where
  "time_of ts_field msg = (case get_field int64_alt msg ''info'' ts_field of Ok ts \<Rightarrow> ts | _ \<Rightarrow> 0)"

definition pool_of :: "string \<times> string \<Rightarrow> http_request_message \<Rightarrow> string" where
  "pool_of pf msg = (case get_field string_alt msg (fst pf) (snd pf) of Ok key \<Rightarrow> key | _ \<Rightarrow> [])"

text \<open>The next index of a pool, and the message placed at its end point.\<close>

definition next_of :: "(string \<Rightarrow> (string \<times> string \<times> string) list) \<Rightarrow> (string \<Rightarrow> nat) \<Rightarrow> string \<Rightarrow> nat" where
  "next_of pools idx key = (idx key + 1) mod length (pools key)"

definition placement ::
  "(string \<Rightarrow> (string \<times> string \<times> string) list) \<Rightarrow> (string \<Rightarrow> nat) \<Rightarrow> string \<Rightarrow> http_request_message \<Rightarrow> http_request_message"
where
  "placement pools idx key msg = (case pools key ! next_of pools idx key of (e, host, port) \<Rightarrow> placed host port msg)"

text \<open>
  What is fixed for a run: the lookup fields of the throttlers, the field of the time stamp and of the pool, the end points of the pools, and
  the validator, whose specifications do not change.
\<close>

record gateway_setup =
  throttled_fields :: "string list"
  time_field :: string
  pool_field :: "string \<times> string"
  pool_endpoints :: "string \<Rightarrow> (string \<times> string \<times> string) list"
  judge :: http_request_validation_stage

fun plan :: "gateway_setup \<Rightarrow> limit_state \<Rightarrow> (string \<Rightarrow> nat) \<Rightarrow> system_event list \<Rightarrow> plan_item list" where
  "plan c s idx [] = []"
| "plan c s idx (Arrival msg # evs) =
     (if \<not> valid_request msg (judge c) then Rejects msg # plan c s idx evs
      else let ids = ids_of (throttled_fields c) msg; key = pool_of (pool_field c) msg;
             s' = limit_step (Asked ids (time_of (time_field c) msg)) s in
        if admitted s ids
        then Submits (placement (pool_endpoints c) idx key msg) # plan c s' (idx(key := next_of (pool_endpoints c) idx key)) evs
        else Rejects (marked ''suppressed'' msg) # plan c s' idx evs)"
| "plan c s idx (Flushing # evs) = plan c (limit_step Published s) idx evs"
| "plan c s idx (Configuring m # evs) = Resolves (config_answer m s) # plan c (fold limit_step (config_events m) s) idx evs"
| "plan c s idx (Dispatching ev # evs) = Runs ev # plan c s idx evs"

definition rejections_of :: "plan_item list \<Rightarrow> http_request_message list" where
  "rejections_of items = List.map_filter (\<lambda>it. case it of Rejects m \<Rightarrow> Some m | _ \<Rightarrow> None) items"

definition answers_of :: "plan_item list \<Rightarrow> promise list" where
  "answers_of items = List.map_filter (\<lambda>it. case it of Resolves p \<Rightarrow> Some p | _ \<Rightarrow> None) items"

definition dispatches_of :: "plan_item list \<Rightarrow> dispatcher_event list" where
  "dispatches_of items = List.map_filter (\<lambda>it. case it of Submits m \<Rightarrow> Some (Submit m) | Runs ev \<Rightarrow> Some (Loop ev) | _ \<Rightarrow> None) items"

lemma items_simps [simp]:
  "rejections_of [] = []" "rejections_of (Rejects m # items) = m # rejections_of items"
  "rejections_of (Submits m # items) = rejections_of items" "rejections_of (Resolves p # items) = rejections_of items"
  "rejections_of (Runs ev # items) = rejections_of items"
  "answers_of [] = []" "answers_of (Rejects m # items) = answers_of items"
  "answers_of (Submits m # items) = answers_of items" "answers_of (Resolves p # items) = p # answers_of items"
  "answers_of (Runs ev # items) = answers_of items"
  "dispatches_of [] = []" "dispatches_of (Rejects m # items) = dispatches_of items"
  "dispatches_of (Submits m # items) = Submit m # dispatches_of items" "dispatches_of (Resolves p # items) = dispatches_of items"
  "dispatches_of (Runs ev # items) = Loop ev # dispatches_of items"
  by (simp_all add: rejections_of_def answers_of_def dispatches_of_def List.map_filter_def)

section \<open>What a run needs\<close>

text \<open>
  A request that can be judged and, if it is valid, has its lookup fields, a time stamp not before \<open>now\<close>, and a pool with
  between one and 256 end points in the store.
\<close>

definition servable :: "gateway_setup \<Rightarrow> key_value_store \<Rightarrow> (string \<Rightarrow> nat) \<Rightarrow> http_request_message \<Rightarrow> bool" where
  "servable c store idx msg \<longleftrightarrow> judgeable msg (judge c) \<and>
     (valid_request msg (judge c) \<longrightarrow>
        (\<exists>ids ts. asks_for (throttled_fields c) (time_field c) ids msg ts) \<and>
        (\<exists>key. get_field string_alt msg (fst (pool_field c)) (snd (pool_field c)) = Ok key \<and>
          pool_configured store key (pool_endpoints c key) \<and> pool_endpoints c key \<noteq> [] \<and> length (pool_endpoints c key) \<le> 256 \<and>
          idx key < length (pool_endpoints c key)))"

fun arrivals_of :: "system_event list \<Rightarrow> http_request_message list" where
  "arrivals_of [] = []"
| "arrivals_of (Arrival msg # evs) = msg # arrivals_of evs"
| "arrivals_of (Flushing # evs) = arrivals_of evs"
| "arrivals_of (Configuring m # evs) = arrivals_of evs"
| "arrivals_of (Dispatching ev # evs) = arrivals_of evs"

definition times_of :: "gateway_setup \<Rightarrow> system_event list \<Rightarrow> u64 list" where
  "times_of c evs = map (time_of (time_field c)) (filter (\<lambda>msg. valid_request msg (judge c)) (arrivals_of evs))"

text \<open>Configuration messages whose windows are at most \<open>w\<close>, and which do not enlarge a window.\<close>

fun well_configured :: "u64 \<Rightarrow> (string \<Rightarrow> (u64 \<times> u64) option) \<Rightarrow> system_event list \<Rightarrow> bool" where
  "well_configured w conf [] = True"
| "well_configured w conf (Configuring m # evs) =
     (cfg_time_window m \<le> w \<and> list_all (narrows conf) (config_events m) \<and>
      well_configured w (limits (fold limit_step (config_events m) \<lparr>limits = conf, known = (\<lambda>i. True), unpublished = (\<lambda>i. None), requests = (\<lambda>i. [])\<rparr>)) evs)"
| "well_configured w conf (ev # evs) = well_configured w conf evs"

lemma limits_steps:
  "limits s = limits s' \<Longrightarrow> limits (fold limit_step (config_events m) s) = limits (fold limit_step (config_events m) s')"
  by (simp add: config_events_def)

lemma limits_kept [simp]: "limits (limit_step (Asked ids ts) s) = limits s" "limits (limit_step Published s) = limits s"
  by (simp_all add: Let_def)

lemma well_configured_step:
  assumes "well_configured w (limits s) (Configuring m # evs)"
  shows "cfg_time_window m \<le> w" "list_all (narrows (limits s)) (config_events m)"
    "well_configured w (limits (fold limit_step (config_events m) s)) evs"
proof -
  note same = limits_steps [of "\<lparr>limits = limits s, known = (\<lambda>i. True), unpublished = (\<lambda>i. None), requests = (\<lambda>i. [])\<rparr>" s m]
  show "cfg_time_window m \<le> w" "list_all (narrows (limits s)) (config_events m)" using assms by simp_all
  show "well_configured w (limits (fold limit_step (config_events m) s)) evs" using assms same by simp
qed

section \<open>The relation\<close>

definition balanced_by :: "gateway_setup \<Rightarrow> key_value_store \<Rightarrow> (string \<Rightarrow> nat) \<Rightarrow> round_robin_load_balancer \<Rightarrow> bool" where
  "balanced_by c store idx b \<longleftrightarrow> pool_lookup_field b = pool_field c \<and> fst (pool_field c) \<noteq> ''throttling'' \<and>
     balancer_store b = store \<and> pool_index b = idx"

definition represents :: "gateway_setup \<Rightarrow> key_value_store \<Rightarrow> limit_state \<Rightarrow> (string \<Rightarrow> nat) \<Rightarrow> u64 \<Rightarrow> gateway \<Rightarrow> bool" where
  "represents c store s idx now g \<longleftrightarrow> wired (gw_stages g) \<and> same_specs (judge c) (gw_validator g) \<and>
     limits_at (throttled_fields c) (time_field c) s now (gw_enforcer g) (gw_builder g) \<and>
     balanced_by c store idx (gw_balancer g) \<and> all_addressed (gw_dispatcher g)"

lemma servable_places:
  assumes "servable c store idx msg" and "valid_request msg (judge c)" and "balanced_by c store idx b"
  shows "places b msg (pool_endpoints c (pool_of (pool_field c) msg) ! next_of (pool_endpoints c) idx (pool_of (pool_field c) msg))"
proof -
  obtain key where "get_field string_alt msg (fst (pool_field c)) (snd (pool_field c)) = Ok key"
    "pool_configured store key (pool_endpoints c key)" "pool_endpoints c key \<noteq> []" "length (pool_endpoints c key) \<le> 256"
    "idx key < length (pool_endpoints c key)"
    using assms(1,2) by (auto simp: servable_def)
  then show ?thesis
    using assms(3) unfolding places_def balanced_by_def pool_of_def next_of_def
    by (intro conjI exI [of _ key] exI [of _ "pool_endpoints c key"]) simp_all
qed

lemma servable_next:
  assumes "servable c store idx msg"
  shows "servable c store (idx(k := next_of (pool_endpoints c) idx k)) msg"
proof (cases "valid_request msg (judge c)")
  case True
  then obtain key where key: "get_field string_alt msg (fst (pool_field c)) (snd (pool_field c)) = Ok key"
    "pool_configured store key (pool_endpoints c key)" "pool_endpoints c key \<noteq> []" "length (pool_endpoints c key) \<le> 256"
    "idx key < length (pool_endpoints c key)"
    using assms by (auto simp: servable_def)
  have "(idx(k := next_of (pool_endpoints c) idx k)) key < length (pool_endpoints c key)"
    using key(3,5) by (auto simp: next_of_def intro: mod_less_divisor)
  then show ?thesis using assms True key(1-4) unfolding servable_def by blast
next
  case False
  then show ?thesis using assms by (simp add: servable_def)
qed

text \<open>The balancer goes on to the next end point of the pool.\<close>

lemma balanced_next:
  assumes "servable c store idx msg" and "valid_request msg (judge c)" and "balanced_by c store idx b"
    and "round_robin_on_message (marked ''allowed'' msg) b = Ok (b', out)"
  shows "balanced_by c store (idx(pool_of (pool_field c) msg := next_of (pool_endpoints c) idx (pool_of (pool_field c) msg))) b'"
proof -
  let ?pf = "pool_field c" and ?key = "pool_of (pool_field c) msg"
  have b: "pool_lookup_field b = ?pf" "fst ?pf \<noteq> ''throttling''" "balancer_store b = store" "pool_index b = idx"
    using assms(3) by (simp_all add: balanced_by_def)
  have key: "get_field string_alt msg (fst ?pf) (snd ?pf) = Ok ?key" "pool_configured store ?key (pool_endpoints c ?key)"
    "pool_endpoints c ?key \<noteq> []" "length (pool_endpoints c ?key) \<le> 256" "idx ?key < length (pool_endpoints c ?key)"
    using assms(1,2) by (auto simp: servable_def pool_of_def)
  have "get_field string_alt (marked ''allowed'' msg) (fst (pool_lookup_field b)) (snd (pool_lookup_field b)) = Ok ?key"
    using key(1) b(2) by (simp add: b(1))
  from round_robin_step [OF this, of "pool_endpoints c ?key"] key b
  obtain st' where "round_robin_on_message (marked ''allowed'' msg) b =
      Ok (st', [(''out'', pool_endpoint (pool_endpoints c ?key) ((pool_index b ?key + 1) mod length (pool_endpoints c ?key)) (marked ''allowed'' msg))])"
    "pool_index st' ?key = (pool_index b ?key + 1) mod length (pool_endpoints c ?key)"
    "balancer_store st' = balancer_store b" "pool_lookup_field st' = pool_lookup_field b"
    "\<forall>k. k \<noteq> ?key \<longrightarrow> pool_index st' k = pool_index b k" by auto
  then show ?thesis using assms(4) b by (auto simp: balanced_by_def next_of_def fun_eq_iff)
qed

text \<open>A loop step of the dispatcher never fails on requests that have been placed.\<close>

lemma loop_step_addressed:
  assumes "all_addressed d"
  shows "\<exists>d' out. loop_step created ev d = Ok (d', out) \<and> all_addressed d'"
proof (cases "enabled ev d")
  case True
  then show ?thesis using enabled_step [OF True assms] by blast
next
  case False
  then have "loop_step created ev d = Ok (d, [])"
    by (cases ev) (auto simp: enabled_def split: option.splits list.splits)
  then show ?thesis using assms by simp
qed

lemma placement_addressed: "\<exists>key. addressed_to (placement pools idx k msg) key"
  using placed_fields(1) by (fastforce simp: placement_def split: prod.splits)

section \<open>Every event keeps the relation\<close>

lemma refused_arrival:
  assumes "represents c store s idx now g" and "servable c store idx msg" and "\<not> valid_request msg (judge c)"
  shows "\<exists>g1. gateway_request rt msg g = Ok (g1, [((''rejected'', ''in''), msg)]) \<and> represents c store s idx now g1 \<and>
    gw_dispatcher g1 = gw_dispatcher g"
proof -
  have w: "wired (gw_stages g)" and v: "same_specs (judge c) (gw_validator g)" and "judgeable msg (judge c)"
    using assms(1,2) by (simp_all add: represents_def servable_def)
  then obtain v' where v': "validation_on_message rt msg (gw_validator g) = Ok (v', [(''invalid_requests_out'', msg)])"
    "same_specs (gw_validator g) v'"
    using validation_judges [of msg "gw_validator g" rt] assms(3) by (auto simp: same_specs_judge [OF v])
  have "represents c store s idx now (g\<lparr>gw_validator := v'\<rparr>)"
    using assms(1) same_specs_trans [OF v v'(2)] by (simp add: represents_def)
  then show ?thesis using gateway_refuses [OF w v'(1)] by auto
qed

text \<open>What a valid request submits, and where it leaves the pools.\<close>

definition submissions ::
  "gateway_setup \<Rightarrow> limit_state \<Rightarrow> (string \<Rightarrow> nat) \<Rightarrow> http_request_message \<Rightarrow> http_request_message list \<times> (string \<Rightarrow> nat)"
where
  "submissions c s idx msg =
     (let key = pool_of (pool_field c) msg in
      if admitted s (ids_of (throttled_fields c) msg)
      then ([placement (pool_endpoints c) idx key msg], idx(key := next_of (pool_endpoints c) idx key)) else ([], idx))"

lemma valid_arrival:
  assumes "represents c store s idx now g" and "servable c store idx msg" and "valid_request msg (judge c)"
    and "now \<le> time_of (time_field c) msg"
  defines "ids \<equiv> ids_of (throttled_fields c) msg" and "ts \<equiv> time_of (time_field c) msg"
  shows "\<exists>g1 out. gateway_request rt msg g = Ok (g1, out) \<and>
    represents c store (limit_step (Asked ids ts) s) (snd (submissions c s idx msg)) ts g1 \<and>
    gw_dispatcher g1 = fold dispatcher_on_message (fst (submissions c s idx msg)) (gw_dispatcher g) \<and>
    rejected out = (if admitted s ids then [] else [marked ''suppressed'' msg])"
proof -
  have r: "wired (gw_stages g)" "same_specs (judge c) (gw_validator g)" "judgeable msg (judge c)"
    "limits_at (throttled_fields c) (time_field c) s now (gw_enforcer g) (gw_builder g)" "balanced_by c store idx (gw_balancer g)"
    "all_addressed (gw_dispatcher g)"
    using assms(1,2) by (simp_all add: represents_def servable_def)
  obtain v' where v': "validation_on_message rt msg (gw_validator g) = Ok (v', [(''valid_requests_out'', msg)])"
    "same_specs (gw_validator g) v'"
    using validation_judges [of msg "gw_validator g" rt] assms(3) r(3) by (auto simp: same_specs_judge [OF r(2)])
  obtain ids' ts' where asks: "asks_for (throttled_fields c) (time_field c) ids' msg ts'"
    using assms(2,3) by (auto simp: servable_def)
  then have ids: "ids' = ids" "ts' = ts"
    using asks_for_ids [OF asks] by (simp_all add: ids_def ids_of_def ts_def time_of_def asks_for_def)
  have names: "enforcer_lookup_filed_names (gw_enforcer g) = throttled_fields c"
    "builder_lookup_filed_names (gw_builder g) = throttled_fields c" "time_stamp_field_name (gw_builder g) = time_field c"
    using r(4) by (simp_all add: limits_at_def)
  have through: "lets_through (gw_enforcer g) ids = admitted s ids" by (rule limits_at_lets_through [OF r(4)])
  let ?key = "pool_of (pool_field c) msg"
  let ?ep = "pool_endpoints c ?key ! next_of (pool_endpoints c) idx ?key"
  from request_step [OF r(1) v'(1) asks names servable_places [OF assms(2,3) r(5)]]
  obtain g1 out ps where 1: "gateway_request rt msg g = Ok (g1, out)" "gw_stages g1 = gw_stages g" "gw_validator g1 = v'"
    "gw_enforcer g1 = gw_enforcer g" "gw_builder g1 = fold (feed_one ts (mark_of (admitted s ids))) ids (gw_builder g)"
    "gw_dispatcher g1 = fold dispatcher_on_message ps (gw_dispatcher g)" "goes_through (admitted s ids) msg ps out"
    "balances (admitted s ids) msg ?ep g g1 ps"
    unfolding ids through by blast
  have placement: "placed (fst (snd ?ep)) (snd (snd ?ep)) msg = placement (pool_endpoints c) idx ?key msg"
    by (simp add: placement_def split: prod.splits)
  have ps: "ps = fst (submissions c s idx msg)"
    using 1(7,8) by (simp add: submissions_def goes_through_def balances_def placement Let_def flip: ids_def)
  have "balanced_by c store (snd (submissions c s idx msg)) (gw_balancer g1)"
    using 1(8) r(5) balanced_next [OF assms(2,3) r(5)] by (auto simp: submissions_def balances_def Let_def simp flip: ids_def split: if_splits)
  moreover have "limits_at (throttled_fields c) (time_field c) (limit_step (Asked ids ts) s) ts (gw_enforcer g1) (gw_builder g1)"
    unfolding 1(4,5) using limits_at_request [OF r(4), of ts ids] assms(4) by (simp add: ts_def)
  moreover have "all_addressed (gw_dispatcher g1)"
    using r(6) placement_addressed by (auto simp: all_addressed_def 1(6) ps submissions_def Let_def)
  ultimately have "represents c store (limit_step (Asked ids ts) s) (snd (submissions c s idx msg)) ts g1"
    using r(1) same_specs_trans [OF r(2) v'(2)] by (simp add: represents_def 1(2,3))
  moreover have "rejected out = (if admitted s ids then [] else [marked ''suppressed'' msg])" using 1(7) by (simp add: goes_through_def)
  ultimately show ?thesis using 1(1,6) ps by blast
qed

lemma plan_valid:
  assumes "valid_request msg (judge c)"
  defines "ids \<equiv> ids_of (throttled_fields c) msg"
  shows "plan c s idx (Arrival msg # evs) =
    map Submits (fst (submissions c s idx msg)) @ (if admitted s ids then [] else [Rejects (marked ''suppressed'' msg)]) @
    plan c (limit_step (Asked ids (time_of (time_field c) msg)) s) (snd (submissions c s idx msg)) evs"
  using assms by (simp add: submissions_def Let_def)

lemma flushing:
  assumes "represents c store s idx now g"
  shows "\<exists>g1. gateway_flush g = Ok g1 \<and> represents c store (limit_step Published s) idx now g1 \<and> gw_dispatcher g1 = gw_dispatcher g"
  using assms limits_at_flush by (auto simp: represents_def flush_step)

lemma configuring:
  assumes "represents c store s idx now g" and "cfg_time_window m \<le> now" and "list_all (narrows (limits s)) (config_events m)"
  shows "\<exists>b. builder_on_config_message m Pending (gw_builder g) = Ok (b, config_answer m s) \<and>
    represents c store (fold limit_step (config_events m) s) idx now (g\<lparr>gw_builder := b\<rparr>)"
  using assms(1) limits_at_config [OF _ assms(2,3), of "throttled_fields c" "time_field c" "gw_enforcer g" "gw_builder g"]
  by (auto simp: represents_def)

section \<open>The system refines the abstract gateway\<close>

lemma dispatcher_run_submits [simp]:
  "dispatcher_run created (map Submit ps @ evs) d = dispatcher_run created evs (fold dispatcher_on_message ps d)"
  by (induction ps arbitrary: d) simp_all

lemma dispatches_submits [simp]:
  "dispatches_of (map Submits ps @ items) = map Submit ps @ dispatches_of items"
  "rejections_of (map Submits ps @ items) = rejections_of items" "answers_of (map Submits ps @ items) = answers_of items"
  by (induction ps) simp_all

lemma servable_submissions:
  "servable c store idx m \<Longrightarrow> servable c store (snd (submissions c s idx msg)) m"
  by (simp add: submissions_def Let_def servable_next)

lemma system_runs:
  assumes "represents c store s idx now g" and "\<forall>msg \<in> set (arrivals_of evs). servable c store idx msg"
    and "sorted (now # times_of c evs)" and "well_configured start (limits s) evs" and "start \<le> now"
  shows "\<exists>g' outs. system_run rt created evs g = Ok (g', outs) \<and> rejected_of outs = rejections_of (plan c s idx evs) \<and>
    resolved_of outs = answers_of (plan c s idx evs) \<and>
    dispatcher_run created (dispatches_of (plan c s idx evs)) (gw_dispatcher g) = Ok (gw_dispatcher g', dispatched_of outs)"
  using assms
proof (induction evs arbitrary: g s idx now)
  case (Cons ev evs)
  show ?case
  proof (cases ev)
    case (Arrival msg)
    have msg: "servable c store idx msg" and rest: "\<forall>m \<in> set (arrivals_of evs). servable c store idx m"
      using Cons.prems(2) by (simp_all add: Arrival)
    show ?thesis
    proof (cases "valid_request msg (judge c)")
      case False
      obtain g1 where 1: "gateway_request rt msg g = Ok (g1, [((''rejected'', ''in''), msg)])" "represents c store s idx now g1"
        "gw_dispatcher g1 = gw_dispatcher g"
        using refused_arrival [OF Cons.prems(1) msg False] by blast
      have "sorted (now # times_of c evs)" using Cons.prems(3) by (simp add: Arrival times_of_def False)
      then show ?thesis
        using Cons.IH [OF 1(2) rest] Cons.prems(4,5) 1(1,3) by (auto simp: Arrival False)
    next
      case True
      let ?ids = "ids_of (throttled_fields c) msg" and ?ts = "time_of (time_field c) msg"
      have ts: "now \<le> ?ts" "sorted (?ts # times_of c evs)" using Cons.prems(3) by (simp_all add: Arrival times_of_def True)
      obtain g1 out where 1: "gateway_request rt msg g = Ok (g1, out)"
        "represents c store (limit_step (Asked ?ids ?ts) s) (snd (submissions c s idx msg)) ?ts g1"
        "gw_dispatcher g1 = fold dispatcher_on_message (fst (submissions c s idx msg)) (gw_dispatcher g)"
        "rejected out = (if admitted s ?ids then [] else [marked ''suppressed'' msg])"
        using valid_arrival [OF Cons.prems(1) msg True ts(1)] by blast
      have "well_configured start (limits (limit_step (Asked ?ids ?ts) s)) evs" "start \<le> ?ts"
        using Cons.prems(4,5) ts(1) by (simp_all only: limits_kept) (simp_all add: Arrival)
      from Cons.IH [OF 1(2) _ ts(2) this] rest servable_submissions
      obtain g2 out2 where 2: "system_run rt created evs g1 = Ok (g2, out2)"
        "rejected_of out2 = rejections_of (plan c (limit_step (Asked ?ids ?ts) s) (snd (submissions c s idx msg)) evs)"
        "resolved_of out2 = answers_of (plan c (limit_step (Asked ?ids ?ts) s) (snd (submissions c s idx msg)) evs)"
        "dispatcher_run created (dispatches_of (plan c (limit_step (Asked ?ids ?ts) s) (snd (submissions c s idx msg)) evs))
          (gw_dispatcher g1) = Ok (gw_dispatcher g2, dispatched_of out2)" by blast
      have "system_run rt created (ev # evs) g = Ok (g2, map Outside out @ out2)" by (simp add: Arrival 1(1) 2(1))
      then show ?thesis
        using 1(3,4) 2(2-4) unfolding Arrival plan_valid [OF True] by (auto simp del: limit_step.simps)
    qed
  next
    case Flushing
    obtain g1 where 1: "gateway_flush g = Ok g1" "represents c store (limit_step Published s) idx now g1" "gw_dispatcher g1 = gw_dispatcher g"
      using flushing [OF Cons.prems(1)] by blast
    have "sorted (now # times_of c evs)" "well_configured start (limits (limit_step Published s)) evs"
      using Cons.prems(3,4) by (simp_all add: Flushing times_of_def)
    from Cons.IH [OF 1(2) _ this Cons.prems(5)] Cons.prems(2) show ?thesis by (auto simp: Flushing 1 simp del: limit_step.simps)
  next
    case (Configuring m)
    note well = well_configured_step [OF Cons.prems(4) [unfolded Configuring]]
    obtain b where 1: "builder_on_config_message m Pending (gw_builder g) = Ok (b, config_answer m s)"
      "represents c store (fold limit_step (config_events m) s) idx now (g\<lparr>gw_builder := b\<rparr>)"
      using configuring [OF Cons.prems(1) order.trans [OF well(1) Cons.prems(5)] well(2)] by blast
    have "sorted (now # times_of c evs)" using Cons.prems(3) by (simp add: Configuring times_of_def)
    from Cons.IH [OF 1(2) _ this well(3) Cons.prems(5)] Cons.prems(2) show ?thesis by (auto simp: Configuring 1)
  next
    case (Dispatching lev)
    have "all_addressed (gw_dispatcher g)" using Cons.prems(1) by (simp add: represents_def)
    from loop_step_addressed [OF this] obtain d1 out where 1: "loop_step created lev (gw_dispatcher g) = Ok (d1, out)" "all_addressed d1"
      by blast
    have "represents c store s idx now (g\<lparr>gw_dispatcher := d1\<rparr>)" using Cons.prems(1) 1(2) by (simp add: represents_def)
    moreover have "sorted (now # times_of c evs)" "well_configured start (limits s) evs"
      using Cons.prems(3,4) by (simp_all add: Dispatching times_of_def)
    ultimately show ?thesis
      using Cons.IH [of s idx now "g\<lparr>gw_dispatcher := d1\<rparr>"] Cons.prems(2,5) by (auto simp: Dispatching 1(1) simp del: loop_step.simps)
  qed
qed simp

text \<open>
  The setup of a gateway, and what a run of it needs: it is built and has seen no requests since it was configured with the throttlers \<open>conf\<close>;
  its requests can be served and come in the order of their time stamps, none of which is before \<open>start\<close>; and no window is
  longer than \<open>start\<close> or enlarged in use.
\<close>

definition setup_of :: "(string \<Rightarrow> (string \<times> string \<times> string) list) \<Rightarrow> gateway \<Rightarrow> gateway_setup" where
  "setup_of pools g = \<lparr>throttled_fields = enforcer_lookup_filed_names (gw_enforcer g), time_field = time_stamp_field_name (gw_builder g),
     pool_field = pool_lookup_field (gw_balancer g), pool_endpoints = pools, judge = gw_validator g\<rparr>"

definition ready ::
  "(string \<Rightarrow> (u64 \<times> u64) option) \<Rightarrow> (string \<Rightarrow> (string \<times> string \<times> string) list) \<Rightarrow> u64 \<Rightarrow> system_event list \<Rightarrow> gateway \<Rightarrow> bool"
where
  "ready conf pools start evs g \<longleftrightarrow>
     build_gateway = Ok (gw_stages g) \<and> builder_lookup_filed_names (gw_builder g) = enforcer_lookup_filed_names (gw_enforcer g) \<and>
     updated_throttlers (gw_builder g) = [] \<and>
     (\<forall>i. umap_find (throttlers (gw_builder g)) i = map_option (\<lambda>(w, n). SlidingLogThrottler (new_sliding_log_throttler w n)) (conf i)) \<and>
     (\<forall>i w n. conf i = Some (w, n) \<longrightarrow> w \<le> start) \<and>
     fst (pool_lookup_field (gw_balancer g)) \<noteq> ''throttling'' \<and> all_addressed (gw_dispatcher g) \<and>
     (\<forall>msg \<in> set (arrivals_of evs). servable (setup_of pools g) (balancer_store (gw_balancer g)) (pool_index (gw_balancer g)) msg) \<and>
     sorted (start # times_of (setup_of pools g) evs) \<and> well_configured start conf evs"

abbreviation abstract_plan ::
  "(string \<Rightarrow> (u64 \<times> u64) option) \<Rightarrow> (string \<Rightarrow> (string \<times> string \<times> string) list) \<Rightarrow> gateway \<Rightarrow> system_event list \<Rightarrow> plan_item list"
where
  "abstract_plan conf pools g evs \<equiv>
     plan (setup_of pools g) (limits_start conf (gw_enforcer g)) (pool_index (gw_balancer g)) evs"

lemma ready_represents:
  assumes "ready conf pools start evs g"
  shows "represents (setup_of pools g) (balancer_store (gw_balancer g)) (limits_start conf (gw_enforcer g)) (pool_index (gw_balancer g)) start g"
proof -
  have "limits_at (enforcer_lookup_filed_names (gw_enforcer g)) (time_stamp_field_name (gw_builder g)) (limits_start conf (gw_enforcer g)) start
      (gw_enforcer g) (gw_builder g)"
    using assms by (intro limits_at_start) (auto simp: ready_def)
  then show ?thesis using assms built_gateway_wired by (simp add: ready_def represents_def setup_of_def balanced_by_def)
qed

lemma ready_runs:
  assumes "ready conf pools start evs g"
  shows "\<exists>g' outs. system_run rt created evs g = Ok (g', outs) \<and> rejected_of outs = rejections_of (abstract_plan conf pools g evs) \<and>
    resolved_of outs = answers_of (abstract_plan conf pools g evs) \<and>
    dispatcher_run created (dispatches_of (abstract_plan conf pools g evs)) (gw_dispatcher g) = Ok (gw_dispatcher g', dispatched_of outs)"
  using assms by (intro system_runs [OF ready_represents [OF assms], where start = start]) (simp_all add: ready_def limits_start_def)

text \<open>
  C1: The gateway refines the abstract one. Take the gateway as built and configured, and let requests, flushes, configuration messages that add throttlers
  or change them without enlarging a window, and events of the dispatcher's loop happen in any order. Nothing ends the process. The
  messages that arrive at \<open>rejected\<close> are, in order, those the abstract gateway rejects: invalid requests unchanged, refused ones marked. Every
  promise of a configuration message is resolved with the value or the exception it says. And the dispatcher is given exactly
  the requests it submits, each marked as allowed and addressed to the end point whose turn it is in its pool, between the same events of its loop. A request is
  decided by the last published verdicts on the ids it names; a verdict is that of the exact window, after the id's last request, as it was configured then.
\<close>

theorem system_refines_abstract_gateway:
  assumes "ready conf pools start evs g"
  shows "\<exists>g' outs. system_run rt created evs g = Ok (g', outs) \<and> rejected_of outs = rejections_of (abstract_plan conf pools g evs) \<and>
    resolved_of outs = answers_of (abstract_plan conf pools g evs) \<and>
    dispatcher_run created (dispatches_of (abstract_plan conf pools g evs)) (gw_dispatcher g) = Ok (gw_dispatcher g', dispatched_of outs)"
  using assms by (rule ready_runs)

section \<open>An example\<close>

text \<open>
  Two lookup fields, the client and a pool that all clients share. \<open>k1\<close> may send one request in ten units of time (and so sends two); then
  the pool is limited in the same way, so that \<open>k2\<close>, who has no throttler, is refused in the end.
\<close>

definition example_system :: gateway where
  "example_system = example_gateway
     \<lparr>gw_enforcer := new_throttling_enforcer [''route_key_1'', ''route_key_2''],
      gw_builder := (new_throttle_state_builder [''route_key_1'', ''route_key_2''] ''request_time'' 1)
        \<lparr>throttlers := [(''k1'', SlidingLogThrottler (new_sliding_log_throttler 10 1))]\<rparr>\<rparr>"

definition limit_pool :: throttler_config_message where
  "limit_pool = \<lparr>cfg_class = AddThrottlerConfigMessage_class, cfg_id = ''p'',
     cfg_type = ''sliding_log'', cfg_queue_enable = False, cfg_time_window = 10, cfg_allowed_count = 1\<rparr>"

definition example_run :: "system_event list" where
  "example_run = [Arrival (request_at ''k1'' 100), Arrival (request_at ''k1'' 100), Configuring limit_pool, Flushing,
     Arrival (request_at ''k1'' 101), Arrival (request_at ''k2'' 102), Dispatching Run_posted, Flushing,
     Arrival (request_at ''k2'' 103), Flushing, Arrival (request_at ''k2'' 104), Configuring limit_pool]"

definition example_limits :: "string \<Rightarrow> (u64 \<times> u64) option" where
  "example_limits = map_of [(''k1'', (10, 1))]"

lemma request_at_setup:
  "ids_of [''route_key_1'', ''route_key_2''] (request_at client ts) = [client, ''p'']" "time_of ''request_time'' (request_at client ts) = ts"
  "pool_of (''http_info'', ''route_key_2'') (request_at client ts) = ''p''"
  by (simp_all add: ids_of_def time_of_def pool_of_def request_at_fields lookup_id_def List.map_filter_def)

lemma example_system_parts:
  "gw_stages example_system = gw_stages example_gateway" "gw_dispatcher example_system = new_http_dispatcher"
  "gw_validator example_system = gw_validator example_gateway" "gw_balancer example_system = gw_balancer example_gateway"
  "enforcer_states (gw_enforcer example_system) = []"
  "setup_of pools example_system = \<lparr>throttled_fields = [''route_key_1'', ''route_key_2''], time_field = ''request_time'',
     pool_field = (''http_info'', ''route_key_2''), pool_endpoints = pools, judge = gw_validator example_gateway\<rparr>"
  by (simp_all add: example_system_def example_gateway_def setup_of_def new_throttling_enforcer_def new_throttle_state_builder_def)

lemma example_pool_index: "pool_index (gw_balancer example_gateway) = (\<lambda>key. 0)"
  by (simp add: example_gateway_def example_balancer_def new_round_robin_load_balancer_def pool_index_def umap_subscript_def umap_find_def fun_eq_iff)

lemma example_system_ready: "ready example_limits (\<lambda>key. example_endpoints) 50 example_run example_system"
proof -
  have pool: "pool_configured (balancer_store (gw_balancer example_gateway)) ''p'' example_endpoints"
    using example_pool by (simp add: example_gateway_def)
  have "servable (setup_of (\<lambda>key. example_endpoints) example_system) (balancer_store (gw_balancer example_system))
      (pool_index (gw_balancer example_system)) (request_at client ts)" for client ts
    unfolding example_system_parts example_pool_index servable_def gateway_setup.simps
    using request_at_judged(1) pool
    by (auto simp: asks_for_def request_at_fields example_endpoints_def intro!: exI [of _ "[client, ''p'']"])
  then have "\<forall>msg \<in> set (arrivals_of example_run). servable (setup_of (\<lambda>key. example_endpoints) example_system)
      (balancer_store (gw_balancer example_system)) (pool_index (gw_balancer example_system)) msg"
    by (simp add: example_run_def)
  moreover have "times_of (setup_of (\<lambda>key. example_endpoints) example_system) example_run = [100, 100, 101, 102, 103, 104]"
    unfolding example_system_parts times_of_def example_run_def by (simp add: request_at_judged(2) request_at_setup)
  moreover have "well_configured 50 example_limits example_run"
    by (simp add: example_run_def config_events_def limit_pool_def narrows_def)
  moreover have "all_addressed new_http_dispatcher" by (simp add: all_addressed_def new_http_dispatcher_def)
  ultimately show ?thesis
    using example_gateway_built
    by (simp add: ready_def example_system_parts(1,2))
      (simp add: example_system_def example_gateway_def new_throttling_enforcer_def new_throttle_state_builder_def example_limits_def umap_find_def)
qed

lemma example_plan:
  "abstract_plan example_limits (\<lambda>key. example_endpoints) example_system example_run =
     [Submits (placed ''h2'' ''2'' (request_at ''k1'' 100)), Submits (placed ''h1'' ''1'' (request_at ''k1'' 100)), Resolves Has_value,
      Rejects (marked ''suppressed'' (request_at ''k1'' 101)), Submits (placed ''h2'' ''2'' (request_at ''k2'' 102)), Runs Run_posted,
      Submits (placed ''h1'' ''1'' (request_at ''k2'' 103)), Rejects (marked ''suppressed'' (request_at ''k2'' 104)),
      Resolves (Has_exception (ThrottlerIdExistException ''p''))]"
  unfolding example_system_parts example_pool_index example_run_def limits_start_def
  by (simp add: request_at_judged(2) request_at_setup placement_def next_of_def admitted_def example_limits_def
      config_answer_def config_events_def limit_pool_def within_def in_window_def counted_def umap_find_def Let_def example_endpoints_def)

theorem system_refines_abstract_gateway_witness:
  "\<exists>g' outs. system_run example_runtime example_response example_run example_system = Ok (g', outs) \<and>
     rejected_of outs = [marked ''suppressed'' (request_at ''k1'' 101), marked ''suppressed'' (request_at ''k2'' 104)] \<and>
     resolved_of outs = [Has_value, Has_exception (ThrottlerIdExistException ''p'')] \<and>
     dispatcher_run example_response
       [Submit (placed ''h2'' ''2'' (request_at ''k1'' 100)), Submit (placed ''h1'' ''1'' (request_at ''k1'' 100)),
        Submit (placed ''h2'' ''2'' (request_at ''k2'' 102)), Loop Run_posted, Submit (placed ''h1'' ''1'' (request_at ''k2'' 103))]
       new_http_dispatcher = Ok (gw_dispatcher g', dispatched_of outs)"
  using system_refines_abstract_gateway [OF example_system_ready, of example_runtime example_response]
  unfolding example_plan example_system_parts(2) items_simps .

end
