(* ===== verification/Gateway_Account.thy ===== *)
theory Gateway_Account
  imports Abstract_Gateway Gateway_Ways
begin

text \<open>
  The account of the requests that arrive in a run of the whole gateway, whatever they contain and whatever is configured: each is
  rejected, answered, pending, lost in the dispatcher at a named place, or swallowed by the balancer.
\<close>

section \<open>What becomes of the arrivals\<close>

text \<open>The events of a run, each with the gateway it meets.\<close>

fun traced :: "cxx_runtime \<Rightarrow> http_response_message \<Rightarrow> system_event list \<Rightarrow> gateway \<Rightarrow> (system_event \<times> gateway) list" where
  "traced rt created [] g = []"
| "traced rt created (ev # evs) g =
     (ev, g) # (case system_step rt created ev g of Ok (g', out) \<Rightarrow> traced rt created evs g' | _ \<Rightarrow> [])"

text \<open>The requests with their ways, and what the dispatcher is given.\<close>

definition ways_in :: "(system_event \<times> gateway) list \<Rightarrow> (http_request_message \<times> gateway_way) list" where
  "ways_in tr = List.map_filter (\<lambda>(ev, g). case ev of Arrival msg \<Rightarrow> Some (msg, way_of msg g) | _ \<Rightarrow> None) tr"

fun rejection :: "http_request_message \<times> gateway_way \<Rightarrow> http_request_message option" where
  "rejection (msg, Refused) = Some msg"
| "rejection (msg, Suppressed ts) = Some (marked ''suppressed'' msg)"
| "rejection (msg, way) = None"

fun submission :: "http_request_message \<times> gateway_way \<Rightarrow> http_request_message option" where
  "submission (msg, Placed ts host port) = Some (placed host port msg)"
| "submission (msg, way) = None"

fun swallowed :: "http_request_message \<times> gateway_way \<Rightarrow> http_request_message option" where
  "swallowed (msg, Swallowed ts) = Some msg"
| "swallowed (msg, way) = None"

definition given_to_dispatcher :: "(system_event \<times> gateway) list \<Rightarrow> dispatcher_event list" where
  "given_to_dispatcher tr = List.map_filter (\<lambda>(ev, g). case ev of
     Arrival msg \<Rightarrow> map_option Submit (submission (msg, way_of msg g)) | Dispatching lev \<Rightarrow> Some (Loop lev) | _ \<Rightarrow> None) tr"

lemma trace_views [simp]:
  "ways_in [] = []" "ways_in ((Arrival msg, g) # tr) = (msg, way_of msg g) # ways_in tr"
  "ways_in ((Flushing, g) # tr) = ways_in tr" "ways_in ((Configuring m, g) # tr) = ways_in tr"
  "ways_in ((Dispatching lev, g) # tr) = ways_in tr"
  "given_to_dispatcher [] = []" "given_to_dispatcher ((Flushing, g) # tr) = given_to_dispatcher tr"
  "given_to_dispatcher ((Configuring m, g) # tr) = given_to_dispatcher tr"
  "given_to_dispatcher ((Dispatching lev, g) # tr) = Loop lev # given_to_dispatcher tr"
  "given_to_dispatcher ((Arrival msg, g) # tr) =
     (case submission (msg, way_of msg g) of Some m \<Rightarrow> Submit m # given_to_dispatcher tr | None \<Rightarrow> given_to_dispatcher tr)"
  by (simp_all add: ways_in_def given_to_dispatcher_def List.map_filter_def split: option.splits)

lemma submitted_of_trace:
  "submitted_requests (given_to_dispatcher tr) = List.map_filter submission (ways_in tr)"
proof (induction tr)
  case (Cons x tr)
  obtain ev g where x: "x = (ev, g)" by (cases x)
  show ?case using Cons.IH by (cases ev) (simp_all add: x split: option.splits)
qed simp

text \<open>Each way of a request that does not end the process counts once.\<close>

lemma ways_counted:
  "\<forall>way \<in> snd ` set ws. way \<noteq> Ends \<Longrightarrow>
   length ws = length (List.map_filter rejection ws) + length (List.map_filter submission ws) + length (List.map_filter swallowed ws)"
proof (induction ws)
  case (Cons w ws)
  obtain msg way where w: "w = (msg, way)" by (cases w)
  show ?case using Cons by (cases way) (simp_all add: w)
qed simp

section \<open>A step\<close>

definition sound :: "gateway \<Rightarrow> bool" where
  "sound g \<longleftrightarrow> wired (gw_stages g) \<and> pools_usable (balancer_store (gw_balancer g))"

lemma arrival_accounted:
  assumes "sound g" and "dm_wf msg" and "gateway_request rt msg g = Ok (g1, out)"
  shows "way_of msg g \<noteq> Ends \<and> sound g1 \<and> rejected out = List.map_filter rejection [(msg, way_of msg g)] \<and>
    gw_dispatcher g1 = fold dispatcher_on_message (List.map_filter submission [(msg, way_of msg g)]) (gw_dispatcher g)"
proof -
  have "takes msg g (way_of msg g) (Ok (g1, out))"
    using takes_its_way [of g msg rt] assms by (simp add: sound_def)
  then show ?thesis
    using assms(1) by (cases "way_of msg g") (auto simp: takes_def Let_def sound_def same_pools_def)
qed

lemma run_accounted:
  assumes "sound g" and "\<forall>msg \<in> set (arrivals_of evs). dm_wf msg" and "system_run rt created evs g = Ok (g', outs)"
  defines "tr \<equiv> traced rt created evs g"
  shows "map fst (ways_in tr) = arrivals_of evs \<and> (\<forall>way \<in> snd ` set (ways_in tr). way \<noteq> Ends) \<and>
    rejected_of outs = List.map_filter rejection (ways_in tr) \<and>
    dispatcher_run created (given_to_dispatcher tr) (gw_dispatcher g) = Ok (gw_dispatcher g', dispatched_of outs)"
  using assms(1-3) unfolding tr_def
proof (induction evs arbitrary: g outs)
  case (Cons ev evs)
  obtain g1 out1 out2 where 1: "system_step rt created ev g = Ok (g1, out1)" "system_run rt created evs g1 = Ok (g', out2)"
    and outs: "outs = out1 @ out2" using Cons.prems(3) by (auto simp: and_then_Ok_iff simp del: system_step.simps)
  have tr: "traced rt created (ev # evs) g = (ev, g) # traced rt created evs g1" by (simp add: 1(1) del: system_step.simps)
  have wf: "\<forall>msg \<in> set (arrivals_of evs). dm_wf msg" using Cons.prems(2) by (cases ev) simp_all
  show ?case
  proof (cases ev)
    case (Arrival msg)
    obtain out where out: "gateway_request rt msg g = Ok (g1, out)" "out1 = map Outside out"
      using 1(1) by (auto simp: Arrival and_then_Ok_iff)
    have msg: "dm_wf msg" using Cons.prems(2) by (simp add: Arrival)
    note here = arrival_accounted [OF Cons.prems(1) msg out(1)]
    note rest = Cons.IH [OF _ wf 1(2)]
    show ?thesis
      using here rest unfolding tr unfolding outs Arrival out(2)
      by (cases "way_of msg g") simp_all
  next
    case Flushing
    have "sound g1" "gw_dispatcher g1 = gw_dispatcher g" "out1 = []"
      using 1(1) Cons.prems(1) by (auto simp: Flushing sound_def flush_step and_then_Ok_iff)
    then show ?thesis using Cons.IH [OF _ wf 1(2)] unfolding tr unfolding outs Flushing by simp
  next
    case (Configuring m)
    have "sound g1" "gw_dispatcher g1 = gw_dispatcher g" "\<exists>p. out1 = [Resolved p]"
      using 1(1) Cons.prems(1) by (auto simp: Configuring sound_def and_then_Ok_iff)
    then show ?thesis using Cons.IH [OF _ wf 1(2)] unfolding tr unfolding outs Configuring by auto
  next
    case (Dispatching lev)
    obtain d out where d: "loop_step created lev (gw_dispatcher g) = Ok (d, out)" "g1 = g\<lparr>gw_dispatcher := d\<rparr>" "out1 = map Dispatched out"
      using 1(1) by (auto simp: Dispatching and_then_Ok_iff)
    then have "sound g1" using Cons.prems(1) by (simp add: sound_def)
    from Cons.IH [OF this wf 1(2)] show ?thesis
      unfolding tr unfolding outs Dispatching d(3) by (simp add: d(1,2) del: loop_step.simps)
  qed
qed simp

text \<open>
  C2: Every request that arrives is accounted for. Take any run that does not end the process, from the construction of the gateway on, with any configuration and any store whose lists
  are not empty and shorter than \<open>2 ^ 32\<close>, of well-formed requests, flushes, configuration messages and dispatcher events. Each request takes one way. What arrives at \<open>rejected\<close> is, in order, what was refused or suppressed;
  the requests placed are exactly those answered, by a response or by being dropped, those still pending in the dispatcher, and those lost there at the
  places \<open>run_loses\<close> names; and the number of requests that have arrived is that of the rejected, the answered, the pending and the lost
  ones together with those the balancer has swallowed.
\<close>

theorem every_arrival_is_accounted_for:
  assumes "build_gateway = Ok (gw_stages g)" and "pools_usable (balancer_store (gw_balancer g))" and "gw_dispatcher g = new_http_dispatcher"
    and "\<forall>msg \<in> set (arrivals_of evs). dm_wf msg" and "system_run rt created evs g = Ok (g', outs)"
  defines "ways \<equiv> ways_in (traced rt created evs g)"
    and "lost \<equiv> run_loses created (given_to_dispatcher (traced rt created evs g)) new_http_dispatcher"
  shows "map fst ways = arrivals_of evs \<and> rejected_of outs = List.map_filter rejection ways \<and>
    image_mset answered (mset (dispatched_of outs)) + pending (gw_dispatcher g') + lost_messages lost =
      mset (List.map_filter submission ways) \<and>
    length (arrivals_of evs) = length (rejected_of outs) + length (dispatched_of outs) + size (pending (gw_dispatcher g')) +
      length lost + length (List.map_filter swallowed ways)"
proof -
  have "sound g" using built_gateway_wired [OF assms(1)] assms(2) by (simp add: sound_def)
  note run = run_accounted [OF this assms(4,5), folded ways_def]
  then have "dispatcher_run created (given_to_dispatcher (traced rt created evs g)) new_http_dispatcher = Ok (gw_dispatcher g', dispatched_of outs)"
    using assms(3) by simp
  moreover have "pending new_http_dispatcher = {#}" by (simp add: pending_def dispatcher_jobs_def new_http_dispatcher_def)
  ultimately have exact: "image_mset answered (mset (dispatched_of outs)) + pending (gw_dispatcher g') + lost_messages lost =
      mset (List.map_filter submission ways)"
    using run_exact [of new_http_dispatcher created "given_to_dispatcher (traced rt created evs g)"]
    by (simp add: lost_def submitted_of_trace ways_def)
  then have "size (image_mset answered (mset (dispatched_of outs)) + pending (gw_dispatcher g') + lost_messages lost) =
      length (List.map_filter submission ways)" by (simp only: size_mset)
  then have "length (List.map_filter submission ways) = length (dispatched_of outs) + size (pending (gw_dispatcher g')) + length lost" by simp
  then show ?thesis using run exact ways_counted [of ways] by (metis add.assoc length_map)
qed

text \<open>The run of the example, and one in which the pool of the request is not configured.\<close>

lemma request_at_wf: "dm_wf (request_at client ts)"
proof -
  have "dm_wf new_request_message" by (simp add: new_request_message_def dm_wf_def umap_wf_def)
  then show ?thesis unfolding request_at_def gateway_example_request_def by (intro set_field_wf)
qed

theorem every_arrival_is_accounted_for_witness:
  "(\<exists>g' outs. system_run example_runtime example_response example_run example_system = Ok (g', outs) \<and>
     6 = length (rejected_of outs) + length (dispatched_of outs) + size (pending (gw_dispatcher g')) +
       length (run_loses example_response (given_to_dispatcher (traced example_runtime example_response example_run example_system)) new_http_dispatcher) +
       length (List.map_filter swallowed (ways_in (traced example_runtime example_response example_run example_system)))) \<and>
   (\<exists>g' outs. system_run example_runtime example_response [Arrival (request_for ''k2'' ''q'')] example_gateway = Ok (g', outs) \<and>
     rejected_of outs = [] \<and> dispatched_of outs = [] \<and> pending (gw_dispatcher g') = {#})"
proof
  obtain g' outs where run: "system_run example_runtime example_response example_run example_system = Ok (g', outs)"
    using ready_runs [OF example_system_ready, of example_runtime example_response] by blast
  have "build_gateway = Ok (gw_stages example_system)" "pools_usable (balancer_store (gw_balancer example_system))"
    "\<forall>msg \<in> set (arrivals_of example_run). dm_wf msg"
    using example_gateway_built example_pools_usable by (simp_all add: example_system_parts example_run_def request_at_wf)
  from every_arrival_is_accounted_for [OF this(1,2) example_system_parts(2) this(3) run]
  show "\<exists>g' outs. system_run example_runtime example_response example_run example_system = Ok (g', outs) \<and>
     6 = length (rejected_of outs) + length (dispatched_of outs) + size (pending (gw_dispatcher g')) +
       length (run_loses example_response (given_to_dispatcher (traced example_runtime example_response example_run example_system)) new_http_dispatcher) +
       length (List.map_filter swallowed (ways_in (traced example_runtime example_response example_run example_system)))"
    using run by (auto simp: example_run_def)
next
  let ?msg = "request_for ''k2'' ''q''"
  obtain g' out where req: "gateway_request example_runtime ?msg example_gateway = Ok (g', out)"
    using takes_its_way [OF built_gateway_wired [OF example_gateway_built] request_for_fields(4) example_pools_usable, of "''k2''" "''q''" example_runtime]
    by (auto simp: example_ways takes_def Let_def)
  then have run: "system_run example_runtime example_response [Arrival ?msg] example_gateway = Ok (g', map Outside out)" by simp
  have d: "gw_dispatcher example_gateway = new_http_dispatcher" by (simp add: example_gateway_def)
  have ways: "ways_in (traced example_runtime example_response [Arrival ?msg] example_gateway) = [(?msg, Swallowed 100)]"
    by (simp add: example_ways split: outcome.splits)
  from every_arrival_is_accounted_for [OF example_gateway_built example_pools_usable d _ run, unfolded ways] run
  show "\<exists>g' outs. system_run example_runtime example_response [Arrival ?msg] example_gateway = Ok (g', outs) \<and>
     rejected_of outs = [] \<and> dispatched_of outs = [] \<and> pending (gw_dispatcher g') = {#}"
    by (auto simp: request_for_fields(4))
qed

end
