(* ===== verification/Gateway_Responses.thy ===== *)
theory Gateway_Responses
  imports Gateway Response_Matching
begin

text \<open>
  What clients of the gateway are sent when the end point answers in order: the responses of the dispatcher, as the
  server ends the response objects named by their requests.
\<close>

fun gateway_relay :: "gateway \<Rightarrow> dispatcher_out list \<Rightarrow> (u64 \<times> response_action list) list cxx" where
  "gateway_relay g [] = Ok []"
| "gateway_relay g (Http_response_out response # outs) =
     and_then (gateway_respond g response) (\<lambda>sent. and_then (gateway_relay g outs) (\<lambda>rest. Ok (sent # rest)))"
| "gateway_relay g (Dropped_requests_out msg # outs) =
     and_then (emit_at (gw_stages g) ''dispatcher'' ''dropped_requests_out'' msg) (\<lambda>(ref, msg'). gateway_relay g outs)"

text \<open>The response object of a message, by which the server finds its client.\<close>

definition response_object :: "http_request_message \<Rightarrow> u64" where
  "response_object msg = (case get_field void_ptr_alt msg ''__HttpServerStage__'' ''uws_response'' of Ok res \<Rightarrow> res | _ \<Rightarrow> 0)"

definition from_server :: "http_request_message \<Rightarrow> bool" where
  "from_server msg \<longleftrightarrow> get_field void_ptr_alt msg ''__HttpServerStage__'' ''uws_response'' = Ok (response_object msg)"

lemma respond_to:
  "wired (gw_stages g) \<Longrightarrow> from_server msg \<Longrightarrow>
   gateway_relay g (response_to created msg body # outs) =
     and_then (gateway_relay g outs) (\<lambda>rest. Ok ((response_object msg, [End_response body]) # rest))"
  by (simp add: response_to_def gateway_respond_def wired_emits server_on_response_def from_server_def)

lemma relay_paired:
  assumes "wired (gw_stages g)" and "\<forall>msg \<in> set msgs. from_server msg"
  shows "gateway_relay g (paired reply created msgs rs) =
    Ok (map (\<lambda>(msg, r). (response_object msg, [End_response (reply r)])) (zip msgs rs))"
  using assms(2)
proof (induction msgs arbitrary: rs)
  case (Cons msg msgs)
  then show ?case by (cases rs) (simp_all add: paired_def respond_to [OF assms(1)])
qed (simp add: paired_def)

text \<open>
  C6: A client of the gateway can be sent the answer to another client. Requests of the server used serially over an idle
  connection are answered each with the body the end point sent for it: the \<open>k\<close>-th request is request object \<open>n + k\<close> of the
  dispatcher. Let once two requests overlap; the \<open>k\<close>-th of the serial requests after them is request object \<open>n + 2 + k\<close>, but its
  client's response object is ended with the body for the object \<open>n + 1 + k\<close>, the request before it, for ever.
\<close>

theorem clients_get_the_answers_of_others:
  assumes "build_gateway = Ok (gw_stages g)" and "ready (gw_dispatcher g) key live n"
    and "\<forall>msg \<in> {a, b} \<union> set msgs. addressed_to msg key \<and> from_server msg"
  shows "(\<exists>s' out. exchange_run reply created key (serial msgs) (gw_dispatcher g, []) = Ok (s', out) \<and>
      gateway_relay g out =
        Ok (map (\<lambda>(msg, r). (response_object msg, [End_response (reply r)])) (zip msgs [n..<n + length msgs]))) \<and>
    (\<exists>s' out. exchange_run reply created key (overlapping a b @ serial msgs) (gw_dispatcher g, []) = Ok (s', out) \<and>
      gateway_relay g out = Ok ((response_object a, [End_response (reply n)]) #
        map (\<lambda>(msg, r). (response_object msg, [End_response (reply r)])) (zip msgs [n + 1..<n + 1 + length msgs])))"
proof -
  have w: "wired (gw_stages g)" by (rule built_gateway_wired [OF assms(1)])
  have served: "\<forall>msg \<in> set msgs. from_server msg" "from_server a"
    and addressed: "\<forall>msg \<in> {a, b} \<union> set msgs. addressed_to msg key" using assms(3) by auto
  note relay = relay_paired [OF w served(1)]
  show ?thesis
    using responses_slip [OF assms(2) addressed, of reply created]
    by (auto simp: relay respond_to [OF w served(2)] simp del: upt_Suc)
qed

definition served_request :: "u64 \<Rightarrow> http_request_message" where
  "served_request res = set_field void_ptr_alt ''__HttpServerStage__'' ''uws_response'' res example_dispatch"

lemma served_request_facts:
  "addressed_to (served_request res) (False, ''h'', ''80'')" "from_server (served_request res)" "response_object (served_request res) = res"
  using example_addressed
  by (simp_all add: served_request_def addressed_to_def from_server_def response_object_def
      get_field_set_same [OF void_ptr.variant_alternative_axioms])

theorem clients_get_the_answers_of_others_witness:
  "\<exists>g s' out. exchange_run (\<lambda>r. if r = 2 then ''secret of B'' else ''other'') example_response (False, ''h'', ''80'')
      (overlapping (served_request 1) (served_request 2) @ serial [served_request 3]) (gw_dispatcher g, []) = Ok (s', out) \<and>
    gateway_relay g out = Ok [(1, [End_response ''other'']), (3, [End_response ''secret of B''])]"
proof -
  obtain d where d: "ready d (False, ''h'', ''80'') [] 1" by (rule ready_after_first [OF example_addressed])
  let ?g = "example_gateway\<lparr>gw_dispatcher := d\<rparr>"
  have "build_gateway = Ok (gw_stages ?g)" "ready (gw_dispatcher ?g) (False, ''h'', ''80'') [] 1"
    using example_gateway_built d by simp_all
  from clients_get_the_answers_of_others [OF this, of "served_request 1" "served_request 2" "[served_request 3]"
      "\<lambda>r. if r = 2 then ''secret of B'' else ''other''" example_response]
  have "\<exists>s' out. exchange_run (\<lambda>r. if r = 2 then ''secret of B'' else ''other'') example_response (False, ''h'', ''80'')
      (overlapping (served_request 1) (served_request 2) @ serial [served_request 3]) (gw_dispatcher ?g, []) = Ok (s', out) \<and>
    gateway_relay ?g out = Ok [(1, [End_response ''other'']), (3, [End_response ''secret of B''])]"
    by (simp add: served_request_facts)
  then show ?thesis by blast
qed

end
