(* ===== verification/Repository_Tests.thy ===== *)
theory Repository_Tests
  imports Filter_Stage Message_Augmentor Request_Validation Http_Server Stage_Ports
begin

text \<open>
  The unit tests of the repository (\<open>src/*/tests\<close>), run on the model: each lemma is one test case with its inputs
  and expectations, named after it, and is proved by evaluation. They show that the definitions compute what the
  authors expect of the code. Left out are the tests of tokens (decoding is a parameter), the tests that
  are commented out, and the randomised ones. One expectation contradicts the code: \<open>contains_in_set\<close> at the end
  of the section on the store. The last section is the micro benchmark of the router, with the totals it prints.
\<close>

section \<open>\<open>event_processing/tests\<close>\<close>

fun and_thens :: "('m \<Rightarrow> 'm cxx) list \<Rightarrow> 'm \<Rightarrow> 'm cxx" where
  "and_thens [] m = Ok m"
| "and_thens (f # fs) m = and_then (f m) (and_thens fs)"

lemma test_dyna_message_one_group:
  "let msg = set_field string_alt ''grp'' ''test2'' ''val3'' (set_field string_alt ''grp'' ''test2'' ''val2''
       (set_field string_alt ''grp'' ''test'' ''val'' empty_message)) in
   get_field string_alt msg ''grp'' ''test'' = Ok ''val'' \<and> get_field string_alt msg ''grp'' ''test2'' = Ok ''val3'' \<and>
   get_field string_alt msg ''grp2'' ''test2'' = Throw (FieldGroupDoesNotExistException ''grp2'') \<and>
   get_field string_alt msg ''grp'' ''test5'' = Throw (FieldNameDoesNotExistException ''grp'' ''test5'')"
  by code_simp

lemma test_dyna_message_two_groups:
  "let msg = set_field string_alt ''grp2'' ''test2'' ''val11'' (set_field string_alt ''grp'' ''test2'' ''val10''
       (set_field string_alt ''grp2'' ''test'' ''val2'' (set_field string_alt ''grp'' ''test'' ''val'' empty_message))) in
   get_field string_alt msg ''grp'' ''test'' = Ok ''val'' \<and> get_field string_alt msg ''grp2'' ''test'' = Ok ''val2'' \<and>
   get_field string_alt msg ''grp'' ''test2'' = Ok ''val10'' \<and> get_field string_alt msg ''grp2'' ''test2'' = Ok ''val11'' \<and>
   get_field string_alt msg ''grp3'' ''test2'' = Throw (FieldGroupDoesNotExistException ''grp3'') \<and>
   get_field string_alt msg ''grp2'' ''test51'' = Throw (FieldNameDoesNotExistException ''grp2'' ''test51'')"
  by code_simp

definition typed_int_group :: "(string \<times> i32) list \<Rightarrow> dynamic_message cxx" where
  "typed_int_group kvs =
     and_thens (map (\<lambda>(k, v). set_typed_field int32_alt ''grp'' k v) kvs) (fst (create_typed_group int32_alt ''grp'' empty_message))"

lemma test_single_field_typed_group_overwrite:
  "and_then (typed_int_group [(''name1'', 1), (''name2'', 2), (''name2'', 5)]) (\<lambda>msg.
     and_then (get_typed_field int32_alt msg ''grp'' ''name1'') (\<lambda>a.
     and_then (get_typed_field int32_alt msg ''grp'' ''name2'') (\<lambda>b. Ok (a, b)))) = Ok (1, 5)"
  by code_simp

lemma test_group_iteration:
  "and_then (typed_int_group [(''test'', 1), (''test2'', 2)]) (\<lambda>msg.
     and_then (get_typed_group int32_alt msg ''grp'') (field_group_values int32_alt)) = Ok [(''test'', 1), (''test2'', 2)]"
  by code_simp

lemma test_typed_group_bad_insert:
  "and_then (typed_int_group [(''test'', 1)]) (set_typed_field string_alt ''grp'' ''test2'' ''test'') =
     Throw (TypedGroupTypeMismatchException ''grp'' T_string T_int32)"
  by code_simp

lemma test_typed_group_bad_get:
  "and_then (typed_int_group [(''test'', 1), (''test2'', 2)]) (\<lambda>msg. get_typed_group string_alt msg ''grp'') =
     Throw (TypedGroupTypeMismatchException ''grp'' T_string T_int32)"
  by code_simp

lemma test_stage_get_sink:
  "and_then (register_sink ''s1'' ''sink_1'' (new_base_stage ''tetst'' :: (string, string) base_stage)) (\<lambda>st1.
     and_then (register_sink ''s2'' ''sink_2'' st1) (\<lambda>st2.
     and_then (get_sink st2 ''s1'') (\<lambda>a. and_then (get_sink st2 ''s2'') (\<lambda>b. Ok (a, b))))) = Ok (''sink_1'', ''sink_2'')"
  "get_sink (new_base_stage ''tetst'' :: (string, string) base_stage) ''test'' =
     Throw (SinkDoesNotExistException ''[tetst]No sink found by the name test'')"
  by code_simp+

lemma test_stage_register_ex:
  "and_then (register_sink ''s1'' ''x1'' (new_base_stage ''tetst'' :: (string, string) base_stage)) (register_sink ''s1'' ''x2'') =
     Throw (SinkExistException ''[tetst] Sink with the name s1 already exists'')"
  "and_then (register_source ''s1'' ''x1'' (new_base_stage ''tetst'' :: (string, string) base_stage)) (register_source ''s1'' ''x2'') =
     Throw (SourceExistException ''[tetst] Source with the name s1 already exists'')"
  by code_simp+

section \<open>\<open>foundation/tests\<close>\<close>

lemma test_uniquness_basic: "compile_time_hash ''hello'' \<noteq> compile_time_hash ''hello2''"
  by code_simp

section \<open>\<open>services/tests\<close>\<close>

lemma test_store_overwrite:
  "kv_get kv_int32_alt (kv_add kv_int32_alt ''k1'' 67 (kv_add kv_int32_alt ''k1'' 3212 empty_store)) ''k1'' = Ok 67"
  "kv_get kv_int64_alt (kv_add kv_int64_alt ''k1'' 123432112 (kv_add kv_int32_alt ''k1'' 1234 empty_store)) ''k1'' = Ok 123432112"
  "kv_get kv_string_alt (kv_add kv_string_alt ''k1'' ''s1'' (kv_add kv_int32_alt ''k1'' 1234 empty_store)) ''k1'' = Ok ''s1''"
  by code_simp+

lemma test_store_errors:
  "kv_get kv_int32_alt (kv_add kv_int32_alt ''k1'' 0 empty_store) ''k2'' = Throw (KeyDoesNotExistException ''k2'')"
  "kv_get kv_string_alt (kv_add kv_int32_alt ''k1'' 1234 empty_store) ''k1'' = Throw (TypeMismatchException ''k1'' T_string)"
  by code_simp+

lemma test_store_lists:
  "and_then (and_thens [add_to_list kv_int32_alt ''k1'' 1234, add_to_list kv_int32_alt ''k1'' 3333] empty_store) (\<lambda>st.
     and_then (get_front_list kv_int32_alt st ''k1'') (\<lambda>a. and_then (get_back_list kv_int32_alt st ''k1'') (\<lambda>b.
     and_then (get_list kv_int32_alt st ''k1'') (\<lambda>vs.
     and_then (map_outcome_list (list_item_deref kv_int32_alt) vs) (\<lambda>xs. Ok (a, b, xs)))))) = Ok (1234, 3333, [1234, 3333])"
  "and_then (add_to_list kv_int32_alt ''k1'' 1234 empty_store) (add_to_list kv_string_alt ''k1'' ''s1'') =
     Throw (InvalidListElementTypeException ''k1'' T_int32 T_string)"
  by code_simp+

lemma test_set_different_types:
  "and_then (and_thens [add_to_set kv_int32_alt ''k1'' 1234, add_to_set kv_int32_alt ''k1'' 3333] empty_store)
     (add_to_set kv_string_alt ''k1'' ''s1'') = Throw (InvalidSetElementTypeException ''k1'' T_int32 T_string)"
  by code_simp

text \<open>
  The test \<open>contains_in_set\<close> expects that the set contains 1234, whose insertion is commented out. The code
  answers that it does not; the other three expectations hold.
\<close>

lemma test_contains_in_set:
  "and_then (and_thens [add_to_set kv_int32_alt ''k1'' 3333, add_to_set kv_int32_alt ''k1'' 87878] empty_store) (\<lambda>st.
     map_outcome_list (contains_in_set kv_int32_alt st ''k1'') [1234, 3333, 87878, 10000]) = Ok [False, True, True, False]"
  by code_simp

section \<open>\<open>stages/tests\<close>: validators\<close>

definition string_group :: "string \<Rightarrow> (string \<times> string) list \<Rightarrow> dynamic_message \<Rightarrow> dynamic_message cxx" where
  "string_group grp kvs msg =
     and_thens (map (\<lambda>(k, v). set_typed_field string_alt grp k v) kvs) (fst (create_typed_group string_alt grp msg))"

definition validate_group ::
  "((string \<times> string) list \<Rightarrow> section_validator \<Rightarrow> section_validator \<times> bool) \<Rightarrow> (string \<times> string) list
     \<Rightarrow> section_validator \<Rightarrow> bool cxx"
where
  "validate_group validate kvs validators =
     and_then (string_group ''grp'' kvs empty_message) (\<lambda>msg.
     and_then (get_typed_group string_alt msg ''grp'') (\<lambda>g.
     and_then (field_group_values string_alt g) (\<lambda>entries. Ok (snd (validate entries validators)))))"

definition test_headers :: "(string \<times> string) list" where
  "test_headers = [(''h1'', ''34''), (''h2'', ''v2''), (''h3'', ''54''), (''h5'', ''v5'')]"

definition test_query :: "(string \<times> string) list" where
  "test_query = [(''q1'', ''78''), (''q2'', ''v8''), (''q3'', ''67''), (''q5'', ''v3'')]"

definition test_paths :: "(string \<times> string) list" where
  "test_paths = [(''p1'', ''34''), (''p2'', ''v2''), (''p3'', ''54''), (''p5'', ''v5'')]"

lemma test_header_validator_compulsary:
  "validate_group section_validate test_headers (add_compulsory_validator ''h9'' []) = Ok False"
  "validate_group section_validate test_headers (add_compulsory_validator ''h1'' []) = Ok True"
  by code_simp+

lemma test_header_validator_int:
  "validate_group section_validate test_headers (add_data_type_validator Integral ''h5'' []) = Ok False"
  "validate_group section_validate test_headers (add_data_type_validator Integral ''h1'' []) = Ok True"
  by code_simp+

lemma test_header_validator_double:
  "list_all (\<lambda>(h, expected). validate_group section_validate
       [(''h1'', ''34.8''), (''h2'', ''3.r''), (''h3'', ''54.7.''), (''h5'', ''56'')]
       (add_data_type_validator Floating_point h []) = Ok expected)
     [(''h2'', False), (''h1'', True), (''h3'', False), (''h5'', False)]"
  by code_simp

lemma test_query_validator:
  "validate_group query_validate test_query (query_add_compulsory_validator ''q1'' []) = Ok True"
  "validate_group query_validate test_query (query_add_compulsory_validator ''q8'' []) = Ok False"
  "validate_group query_validate test_query (query_add_data_type_validator Integral ''q1'' []) = Ok True"
  "validate_group query_validate test_query (query_add_data_type_validator Integral ''q2'' []) = Ok False"
  "validate_group query_validate [(''q1'', ''78''), (''q2'', ''567.6554'')]
     (query_add_data_type_validator Floating_point ''q1'' []) = Ok False"
  "validate_group query_validate [(''q1'', ''78''), (''q2'', ''567.6554'')]
     (query_add_data_type_validator Floating_point ''q2'' []) = Ok True"
  by code_simp+

text \<open>The stage test sends one message for each of three specifications; the second lacks its header.\<close>

definition validation_test_store :: "request_validator key_complex_value_store" where
  "validation_test_store =
     add_value ''validator_3'' \<lparr>
         header_validator = add_data_type_validator Integral ''h1'' (add_compulsory_validator ''h1'' []),
         query_validator = query_add_data_type_validator Integral ''q1'' (query_add_compulsory_validator ''q5'' []),
         path_validator = path_add_data_type_validator Integral ''p3'' (path_add_compulsory_validator ''p3'' [])\<rparr>
      (add_value ''validator_2'' \<lparr>header_validator = add_compulsory_validator ''h1'' [], query_validator = [], path_validator = []\<rparr>
        (add_value ''validator_1'' \<lparr>header_validator = add_compulsory_validator ''h1'' [], query_validator = [], path_validator = []\<rparr> []))"

definition validation_test_message :: "string \<Rightarrow> (string \<times> string) list \<Rightarrow> dynamic_message cxx" where
  "validation_test_message spec headers =
     and_thens [string_group ''http_headers'' headers, string_group ''query_parameters'' test_query,
         string_group ''path_parameters'' test_paths]
       (set_field string_alt ''http_info'' ''http_validator_spec_key'' spec empty_message)"

definition validation_test_port :: "string \<Rightarrow> (string \<times> string) list \<Rightarrow> string list cxx" where
  "validation_test_port spec headers =
     and_then (validation_test_message spec headers) (\<lambda>msg.
     and_then (validation_on_message example_runtime msg
         (new_http_request_validation_stage validation_test_store (''http_info'', ''http_validator_spec_key'')
           ''http_headers'' ''path_parameters'' ''query_parameters''))
       (\<lambda>(_, out). Ok (map fst out)))"

lemma test_all_validations:
  "validation_test_port ''validator_1'' test_headers = Ok [''valid_requests_out'']"
  "validation_test_port ''validator_2'' ((''h11'', ''34'') # tl test_headers) = Ok [''invalid_requests_out'']"
  "validation_test_port ''validator_3'' test_headers = Ok [''valid_requests_out'']"
  by code_simp+

section \<open>\<open>stages/tests\<close>: the HTTP server's parsers\<close>

lemma test_query_parameter_extraction:
  "map_of (extract_query ''q1=5&q2=7'') ''q2'' = Some ''7''"
  "map_of (extract_query ''q125=4.5678&q6=678'') ''q125'' = Some ''4.5678''"
  "map_of (extract_query ''q1254.5678&q6678'') ''q6'' \<noteq> Some ''678''"
  "map_of (extract_query ''q125=4.5678q6=678'') ''q125'' \<noteq> Some ''4.5678''"
  "map_of (extract_query ''q1254.5678q6678'') ''q125'' \<noteq> Some ''4.5678''"
  "map_of (extract_query ''q1=t?%265&q2=7?%268'') ''q1'' = Some ''t?%265''"
  "map_of (extract_query ''%26=78&%3D=r'') ''%3D'' = Some ''r''"
  "map_of (extract_query ''?=u7&8=%26&y=='') ''y'' = Some ''=''"
  "map_of (extract_query ''?=u7&8=%26&y=='') ''?'' = Some ''u7''"
  by code_simp+

lemma test_path_parameter_extraction:
  "extract_path_parameters ''test_1/:path_param_0/mock/:path_param_1'' = [''path_param_0'', ''path_param_1'']"
  "extract_path_parameters ''test_1/:p0/mock/:p1/:p2/:p4/:p3/:p10'' = [''p0'', ''p1'', ''p2'', ''p4'', ''p3'', ''p10'']"
  "extract_path_parameters ''/'' = []"
  by code_simp+

section \<open>\<open>stages/tests\<close>: augmentors and the white list\<close>

definition augmentor_test_concat :: concatenating_config where
  "augmentor_test_concat = \<lparr>field_names = [(''grp_1'', ''field_1''), (''grp_1'', ''field_2''), (''grp_2'', ''field_1'')],
     separator = ''|'', prefix = ''!!'', postfix = ''!!!'', target_field_group = ''target_grp'', target_field_name = ''target_name''\<rparr>"

definition augmentor_test_token :: token_config where
  "augmentor_test_token = \<lparr>token_field = (''grp_4'', ''field_1''), token_start = CHR ''['', token_end = CHR '']'', n_tokens = 5,
     target_fields = [(''grp_10'', ''fld_1''), (''grp_10'', ''fld_2''), (''grp_10'', ''fld_3'')]\<rparr>"

definition augmentor_test_stage :: "(dynamic_message \<Rightarrow> dynamic_message cxx) list" where
  "augmentor_test_stage = new_message_augmentor_stage
     [apply_augmentor (new_message_augmentor ''my aug'' ''fun aug'' augmentor_test_concat concatenating_augment),
      apply_augmentor (new_message_augmentor ''my aug 2'' ''fun again'' augmentor_test_token token_extracting_augment)] []"

lemma test_augmentor_stage:
  "and_then (augmentor_on_message augmentor_test_stage
       (set_field string_alt ''grp_4'' ''field_1'' ''foo/[xxx] yyy [v]bar/test/[zzzz]''
         (set_field string_alt ''grp_2'' ''field_1'' ''fun'' (set_field string_alt ''grp_1'' ''field_2'' ''is''
           (set_field string_alt ''grp_1'' ''field_1'' ''this'' empty_message)))))
     (\<lambda>out. map_outcome_list (\<lambda>(g, k). get_field string_alt (snd (hd out)) g k)
       [(''target_grp'', ''target_name''), (''grp_10'', ''fld_1''), (''grp_10'', ''fld_2''), (''grp_10'', ''fld_3'')]) =
   Ok [''!!|this|is|fun|!!!'', ''xxx'', ''v'', ''zzzz'']"
  by code_simp

definition filter_test_ports :: "string \<Rightarrow> string \<Rightarrow> string list cxx" where
  "filter_test_ports set_2 value_2 =
     and_then (and_thens [add_to_set kv_string_alt ''set_key_1'' ''abc'', add_to_set kv_string_alt ''set_key_1'' ''pqr'',
         add_to_set kv_string_alt ''set_key_2'' ''lmn'', add_to_set kv_string_alt ''set_key_2'' ''xyz''] empty_store) (\<lambda>store.
     and_then (filter_on_message example_runtime True
         (set_field string_alt ''wl_grp2'' ''wl_fld2'' value_2 (set_field string_alt ''wl_set_grp_2'' ''wl_set_fld_2'' set_2
           (set_field string_alt ''wl_grp1'' ''wl_fld1'' ''abc'' (set_field string_alt ''wl_set_grp_1'' ''wl_set_fld_1'' ''set_key_1''
             empty_message))))
         (new_filter_stage store [((''wl_set_grp_1'', ''wl_set_fld_1''), (''wl_grp1'', ''wl_fld1'')),
            ((''wl_set_grp_2'', ''wl_set_fld_2''), (''wl_grp2'', ''wl_fld2''))]))
       (\<lambda>out. Ok (map fst out)))"

lemma test_value_is_in_whitelist:
  "filter_test_ports ''set_key_2'' ''xyz'' = Ok [''out'']"
  "filter_test_ports ''set_key_2'' ''123'' = Ok [''filtered'']"
  "filter_test_ports ''set_key_3'' ''123'' = Ok [''out'']"
  by code_simp+

section \<open>\<open>stages/micro_benchmarks\<close>: the router\<close>

text \<open>The fixture of the router benchmark: two message classes, and two sinks that count.\<close>

datatype benchmark_message = DummyMessage | DummyMessage2

fun benchmark_message_type :: "benchmark_message \<Rightarrow> u64" where
  "benchmark_message_type DummyMessage = compile_time_hash ''adl::axp::core::stages::tests::DummyMessage''"
| "benchmark_message_type DummyMessage2 = compile_time_hash ''adl::axp::core::stages::tests::DummyMessage2''"

record router_benchmark =
  benchmark_router :: stage_ports
  sink_1_total :: u64
  sink_2_total :: u64

definition benchmark_set_up :: "router_benchmark cxx" where
  "benchmark_set_up =
     and_then (construct_stage ''router'' two_way_router_ports) (\<lambda>router.
     and_then (connect_source ''source_1'' (''sink_1'', ''in'') router) (\<lambda>router1.
     and_then (connect_source ''remaining_source'' (''sink_2'', ''in'') router1) (\<lambda>router2.
       Ok \<lparr>benchmark_router = router2, sink_1_total = 0, sink_2_total = 0\<rparr>)))"

fun benchmark_sinks :: "(sink_ref \<times> 'm) list \<Rightarrow> router_benchmark \<Rightarrow> router_benchmark" where
  "benchmark_sinks [] b = b"
| "benchmark_sinks ((ref, msg) # rest) b =
     benchmark_sinks rest
       (if fst ref = ''sink_1'' then b\<lparr>sink_1_total := sink_1_total b + 1\<rparr>
        else b\<lparr>sink_2_total := sink_2_total b + 1\<rparr>)"

definition benchmark_route :: "benchmark_message \<Rightarrow> router_benchmark \<Rightarrow> router_benchmark cxx" where
  "benchmark_route msg b =
     and_then (map_outcome_list (\<lambda>(src, m). emit_from (benchmark_router b) src m)
         (two_way_router (benchmark_message_type DummyMessage) benchmark_message_type msg))
       (\<lambda>delivered. Ok (benchmark_sinks delivered b))"

fun benchmark_routing :: "nat \<Rightarrow> router_benchmark \<Rightarrow> router_benchmark cxx" where
  "benchmark_routing 0 b = Ok b"
| "benchmark_routing (Suc n) b =
     and_then (benchmark_route DummyMessage b) (\<lambda>b1. and_then (benchmark_route DummyMessage2 b1) (benchmark_routing n))"

text \<open>Each sink has received one message in each iteration.\<close>

lemma benchmark_types_differ:
  "benchmark_message_type DummyMessage2 \<noteq> benchmark_message_type DummyMessage"
  by code_simp

lemma benchmark_set_up_router:
  obtains b where "benchmark_set_up = Ok b" and "sink_1_total b = 0" and "sink_2_total b = 0"
    and "\<And>msg :: benchmark_message. emit_from (benchmark_router b) ''source_1'' msg = Ok ((''sink_1'', ''in''), msg)"
    and "\<And>msg :: benchmark_message. emit_from (benchmark_router b) ''remaining_source'' msg = Ok ((''sink_2'', ''in''), msg)"
proof
  show "benchmark_set_up = Ok \<lparr>benchmark_router = \<lparr>stage_name = ''router'',
      stage_sources = [(''source_1'', \<lparr>source_sink = Some (''sink_1'', ''in'')\<rparr>), (''remaining_source'', \<lparr>source_sink = Some (''sink_2'', ''in'')\<rparr>)],
      stage_sinks = [(''message_in'', (''router'', ''message_in''))]\<rparr>, sink_1_total = 0, sink_2_total = 0\<rparr>" (is "_ = Ok ?b")
    by code_simp
  show "sink_1_total ?b = 0" "sink_2_total ?b = 0" by simp_all
  show "emit_from (benchmark_router ?b) ''source_1'' msg = Ok ((''sink_1'', ''in''), msg)"
    "emit_from (benchmark_router ?b) ''remaining_source'' msg = Ok ((''sink_2'', ''in''), msg)" for msg :: benchmark_message
    by (simp_all add: emit_from_def get_source_def umap_find_def base_source_emit_def base_source_get_sink_def)
qed

lemma benchmark_routing_totals:
  "\<exists>b b'. benchmark_set_up = Ok b \<and> benchmark_routing n b = Ok b' \<and> sink_1_total b' = of_nat n \<and> sink_2_total b' = of_nat n"
proof -
  obtain b where b: "benchmark_set_up = Ok b" "sink_1_total b = 0" "sink_2_total b = 0"
    and emits: "\<And>msg :: benchmark_message. emit_from (benchmark_router b) ''source_1'' msg = Ok ((''sink_1'', ''in''), msg)"
      "\<And>msg :: benchmark_message. emit_from (benchmark_router b) ''remaining_source'' msg = Ok ((''sink_2'', ''in''), msg)"
    by (rule benchmark_set_up_router) blast
  have "\<exists>c'. benchmark_routing n c = Ok c' \<and> sink_1_total c' = sink_1_total c + of_nat n \<and> sink_2_total c' = sink_2_total c + of_nat n"
    if "benchmark_router c = benchmark_router b" for c
    using that
  proof (induction n arbitrary: c)
    case (Suc n)
    have 1: "benchmark_route DummyMessage c = Ok (c\<lparr>sink_1_total := sink_1_total c + 1\<rparr>)"
      by (simp add: benchmark_route_def two_way_router_def Suc.prems emits del: benchmark_message_type.simps)
    have 2: "benchmark_route DummyMessage2 c' = Ok (c'\<lparr>sink_2_total := sink_2_total c' + 1\<rparr>)"
      if "benchmark_router c' = benchmark_router b" for c'
      using benchmark_types_differ
      by (simp add: benchmark_route_def two_way_router_def that emits del: benchmark_message_type.simps)
    let ?c = "c\<lparr>sink_1_total := sink_1_total c + 1\<rparr>"
    show ?case
      using Suc.IH [of "?c\<lparr>sink_2_total := sink_2_total ?c + 1\<rparr>"] Suc.prems by (simp add: 1 2 add.assoc)
  qed simp
  from this [of b] show ?thesis using b by auto
qed

end
