(* ===== verification/Spec2Isabelle.thy ===== *)
theory Spec2Isabelle
  imports Prelude Foundation Dynamic_Message Key_Value_Store Base_Stage Sliding_Log Async_Config
    Throttle_State_Builder Throttling_Enforcer Request_Validation Filter_Stage Load_Balancers
    Throttle_Loop Http_Server Http_Connection Http_Dispatcher Dispatcher_Accounting Dispatcher_Losses
    Dispatcher_Memory Dead_End_Points Response_Matching Message_Augmentor Jwt_Stages
    Misc_Stages Queue_Stage Tcp_Udp_Servers Stage_Ports Gateway
    Gateway_Ways Gateway_Limits Gateway_Verdicts Throttler_Updates Limit_Machine Abstract_Gateway Gateway_Account Gateway_Responses Repository_Tests
begin

text \<open>
  A model of the message-processing core under \<open>src/src\<close>, a C++20 library of stages for an API gateway, with the
  properties that make it correct.

  \<^bold>\<open>The program.\<close> A stage has named sinks, through which it receives messages, and named sources, each connected to
  one sink of another stage. Messages are groups of typed fields. A handler \<open>on_message\<close> reads and writes fields of
  the message it is given, changes the state of its stage, and hands messages to the sinks behind its sources;
  such a call runs the whole handler of the next stage. Stages share two stores of configuration values. The HTTP
  server turns requests into messages; they are filtered, validated, augmented, checked for tokens, throttled,
  balanced over end points, and dispatched over HTTP connections; the responses go back to the server by a pointer
  carried in the message.

  \<^bold>\<open>How the code is rendered.\<close> Classes are records, enumerations and class hierarchies datatypes, a method a function from the
  object to the new object with what it returns or emits, one definition per method. Exceptions are values: an
  \<open>outcome\<close> is \<open>Ok\<close>, \<open>Throw\<close> with one constructor of \<open>exn\<close> per exception class, or \<open>Fault\<close>, for undefined
  behaviour (an index past the end, a null pointer, a remainder by zero) and for \<open>std::terminate\<close>, which is
  what an exception becomes that leaves a \<open>noexcept\<close> function. Integers are words of their C++ width. Unordered
  maps are association lists in insertion order; no theorem depends on that order. A message handed on is an emission: the
  name of the source with the message.

  \<^bold>\<open>Theories and what they model.\<close>
  \<^item> \<open>Prelude\<close>: outcomes, maps, character strings, and the lemmas all theories share.
  \<^item> \<open>Foundation\<close> (\<open>foundation/\<close>, \<open>message.h\<close>): HTTP methods, the compile-time hash and the message type ids, which do not
    collide; variants and exceptions with their texts.
  \<^item> \<open>Dynamic_Message\<close> (\<open>dynamic_message.h\<close>, the HTTP messages): fields and typed groups; a well-formedness invariant
    that every write keeps, read-back, and the safety of typed reads.
  \<^item> \<open>Key_Value_Store\<close> (\<open>services/store_services\<close>): values, lists and sets under string keys, and the store of complex values;
    lists refine append, sets membership.
  \<^item> \<open>Base_Stage\<close> and \<open>Stage_Ports\<close> (\<open>base_impl/\<close> and every constructor): the registry of sources and sinks, the ports of each
    stage, construction and wiring.
  \<^item> \<open>Sliding_Log\<close>, \<open>Async_Config\<close>, \<open>Throttle_State_Builder\<close>, \<open>Throttling_Enforcer\<close> (\<open>throttling_stages/\<close>, \<open>async_config_message.h\<close>):
    the sliding log with its binary search over the log, proved to give the verdict of the exact window; the stage that keeps
    one throttler per configured id and publishes changed verdicts; the stage that acts on the verdicts; and their closed
    loop, which refines an abstract rate limiter.
  \<^item> \<open>Throttle_Loop\<close>: the two throttling stages as one client sees them, among the requests of other clients and flushes at any time:
    an abstract limiter over the client's own events, and the invariant by which the stages simulate it.
  \<^item> \<open>Throttler_Updates\<close>, \<open>Limit_Machine\<close>: sliding logs whose window and count are changed in use, and the enforcer and the builder as a machine
    over ids, with throttlers installed and changed at any time, related to the two stages id by id.
  \<^item> \<open>Request_Validation\<close>, \<open>Filter_Stage\<close>, \<open>Jwt_Stages\<close>, \<open>Message_Augmentor\<close>: the stages that judge and extend requests, each
    against a specification of what it decides.
  \<^item> \<open>Load_Balancers\<close>: the round robin over pools in the store and the in-process rotation, also under overlapping calls.
  \<^item> \<open>Http_Server\<close>: query and path parsers, route configuration, requests and responses.
  \<^item> \<open>Http_Connection\<close>, \<open>Http_Dispatcher\<close>, \<open>Dispatcher_Accounting\<close>, \<open>Dispatcher_Losses\<close>, \<open>Dispatcher_Memory\<close>,
    \<open>Dead_End_Points\<close>, \<open>Response_Matching\<close> (\<open>http_dispatcher_stage/\<close>): the connection state machine with
    the operations in flight as data, its invariants over runs without and with stream errors, and what becomes of requests that wait; the dispatcher with its connection pool, its callbacks as datatypes, and the event loop
    that runs posted handlers and completes operations in any order; over all runs of the loop, termination and the
    accounting of requests by multisets, which the named places where requests are lost make exact; the same account
    of the request objects, so that none is used after it is freed; what becomes of an end point whose connection could not be set up; and, against a back end that answers in order, which response
    each request is given.
  \<^item> \<open>Queue_Stage\<close>, \<open>Tcp_Udp_Servers\<close>, \<open>Misc_Stages\<close>: the queue between threads as interleaved atomic steps, the accept and read
    loops, routers, broadcaster, delay and plain sinks.
  \<^item> \<open>Gateway\<close>, \<open>Gateway_Limits\<close>, \<open>Gateway_Verdicts\<close>, \<open>Gateway_Responses\<close>: server, validator, enforcer, state builder, balancer and dispatcher constructed and wired
    through the registry, with broadcasting stages that hand each decided request to the builder and on, and the builder's state
    messages back to the enforcer. One request is one nested run of handlers on one message object; runs of requests of many
    clients and of flushes refine one abstract limiter over all lookup fields, message by message, and, with one field, the limiter of each client by
    itself; and the responses go back to the clients' response objects.
  \<^item> \<open>Abstract_Gateway\<close>: the system of all these stages under requests, flushes, configuration messages and events of the dispatcher's loop in any
    order, which refines an abstract gateway, a limit machine with one rotating index for each pool of end points.
  \<^item> \<open>Gateway_Ways\<close>, \<open>Gateway_Account\<close>: the five ways a request can take through these stages, as a function of the request and their states, whatever they
    are; and, over all runs of the system that do not end the process, the account of every request that arrives.
  \<^item> \<open>Repository_Tests\<close>: the deterministic unit tests of the repository as lemmas about the model, proved by evaluation, and
    the router benchmark.

  \<^bold>\<open>Interfaces.\<close> Contracts between components are locales, interpreted on the model where it provides them: the alternatives of a
  variant, dictionaries, readers of lists and of sets, throttlers, key validators, and what holds of every
  operation the dispatcher starts; the properties rest on the
  interpreted facts.

  \<^bold>\<open>Bounds and fuel.\<close> The loops that are not structural have termination proofs: the halving of the binary search,
  the cutting of query strings and paths, and the printing of numbers. \<open>deliver\<close> in \<open>Gateway\<close> carries a depth of nested calls; five is the length of the
  longest path through the wired stages, and the theorems show that it is reached without running out. The event loop of the
  dispatcher is a list of events, so a run is as long as its list; \<open>Dispatcher_Accounting\<close> bounds it by the work
  at its start, five for each posted request.

  \<^bold>\<open>Parameters.\<close> Third-party code appears as arguments or as data: the web server library as the values its
  getters return, the network library as operations in flight and their results, token decoding and verification as
  functions, that connecting a stream again first completes what it aborts as a condition of the runs with stream errors, the bounded queue as operations with the documented laws as a hypothesis, type names and library
  messages of the C++ runtime as a record.

  \<^bold>\<open>Not modelled.\<close> Logging (no handler reads it); allocation and the memory of messages, except where a pointer can be
  null or uninitialised, and which request objects are still allocated; buffers, time-outs and keep-alive of connections, which are the library's;
  \<open>core.h\<close>, a list of includes, and \<open>time_stamp_pack.h\<close>, which nothing uses; the request counter of the server, whose use
  is commented out; the main programs of the tests, and the rate limiter benchmark, whose body is commented out.

  \<^bold>\<open>Where the development can grow.\<close> The exact verdicts of a throttler whose window is enlarged in use, which depend on what the lazy truncation has kept; pools of
  end points that change in the middle of a run; the order in which the delay stage releases messages.
\<close>

end
